(* ===== verification/Audit_Prelude.thy ===== *)
theory Audit_Prelude
  imports Main "HOL-Library.Word" "HOL-Library.Multiset"
begin

text \<open>
  Shared vocabulary of the development.

  C strings are HOL strings; \<open>peek\<close> and \<open>char_at\<close> read them the way a \<open>char *\<close> is read:
  past the last character stands the terminating NUL. Undefined behaviour of the C code (a
  NULL or dangling dereference, a write outside an allocation, a failed \<open>assert\<close>, a call of
  \<open>abort\<close>) is the value \<open>None\<close> of \<open>'a ub\<close>. The theory also models the decimal conversions of
  the C library the sources call (\<open>strtoul\<close>, \<open>strtol\<close>) and proves that they invert decimal
  printing, and it fixes the interface \<open>bounded_fifo\<close> shared by the two event queues.
\<close>

section \<open>Undefined behaviour and lists\<close>

type_synonym 'a ub = "'a option"

type_synonym u32 = "32 word"

named_theorems c_defs \<open>definitions of the small C helpers, for unfolding\<close>

abbreviation NUL :: char where
  "NUL \<equiv> CHR 0x00"

text \<open>Overwriting a block of a list, as \<open>memcpy\<close>/\<open>memmove\<close> do inside an allocation.\<close>

definition overwrite :: "nat \<Rightarrow> 'a list \<Rightarrow> 'a list \<Rightarrow> 'a list" where
  "overwrite i ys xs = take i xs @ ys @ drop (i + length ys) xs"

section \<open>C strings\<close>

definition peek :: "string \<Rightarrow> char" where
  "peek s = (case s of [] \<Rightarrow> NUL | c # _ \<Rightarrow> c)"

definition char_at :: "string \<Rightarrow> nat \<Rightarrow> char" where
  "char_at s i = (if i < length s then s ! i else NUL)"

text \<open>The string a \<open>char *\<close> denotes: up to the first NUL.\<close>

definition cstr :: "string \<Rightarrow> string" where
  "cstr s = takeWhile (\<lambda>c. c \<noteq> NUL) s"

definition is_cstr :: "string \<Rightarrow> bool" where
  "is_cstr s \<longleftrightarrow> NUL \<notin> set s"

definition isspace :: "char \<Rightarrow> bool" where
  "isspace c \<longleftrightarrow> c \<in> {CHR '' '', CHR 0x09, CHR 0x0A, CHR 0x0B, CHR 0x0C, CHR 0x0D}"

definition isdigit :: "char \<Rightarrow> bool" where
  "isdigit c \<longleftrightarrow> 48 \<le> (of_char c :: nat) \<and> (of_char c :: nat) \<le> 57"

definition digit_val :: "char \<Rightarrow> nat" where
  "digit_val c = of_char c - 48"

fun decimal :: "nat \<Rightarrow> string \<Rightarrow> nat" where
  "decimal acc [] = acc"
| "decimal acc (c # cs) = decimal (10 * acc + digit_val c) cs"

text \<open>
  The common part of \<open>strtoul\<close> and \<open>strtol\<close> in base 10: leading white space, one optional
  sign, the longest run of digits. The result is the sign and the digits.
\<close>

definition scan_number :: "string \<Rightarrow> bool \<times> string" where
  "scan_number s =
     (let s1 = dropWhile isspace s;
          neg = (peek s1 = CHR ''-'');
          s2 = (if peek s1 = CHR ''-'' \<or> peek s1 = CHR ''+'' then tl s1 else s1)
      in (neg, takeWhile isdigit s2))"

definition SIZE_MAX :: nat where
  "SIZE_MAX = 2 ^ 64 - 1"

definition ULONG_MAX :: nat where
  "ULONG_MAX = 2 ^ 64 - 1"

text \<open>
  The value of a sign and digits as an \<open>unsigned long\<close> of an LP64 platform, and whether \<open>errno\<close>
  was set to \<open>ERANGE\<close>: a negative number is negated in the unsigned type. And as a \<open>long\<close>,
  saturating as the C library does.
\<close>

definition ulong_of :: "bool \<Rightarrow> string \<Rightarrow> nat \<times> bool" where
  "ulong_of neg ds =
     (let n = decimal 0 ds
      in if n > ULONG_MAX then (ULONG_MAX, True)
         else if neg then ((2 ^ 64 - n) mod 2 ^ 64, False)
         else (n, False))"

definition long_of :: "bool \<Rightarrow> string \<Rightarrow> int" where
  "long_of neg ds =
     (let n = int (decimal 0 ds); v = (if neg then - n else n)
      in max (- (2 ^ 63)) (min (2 ^ 63 - 1) v))"

text \<open>\<open>strtoul (s, NULL, 10)\<close> and \<open>strtol (s, NULL, 10)\<close>.\<close>

definition strtoul :: "string \<Rightarrow> nat \<times> bool" where
  "strtoul s = (let (neg, ds) = scan_number s in ulong_of neg ds)"

definition strtol :: "string \<Rightarrow> int" where
  "strtol s = (let (neg, ds) = scan_number s in long_of neg ds)"

text \<open>Conversion to a signed 32-bit \<open>int\<close>, as the assignment of a \<open>long\<close> does it.\<close>

definition to_int32 :: "int \<Rightarrow> int" where
  "to_int32 v = (v + 2 ^ 31) mod 2 ^ 32 - 2 ^ 31"

text \<open>Decimal printing, the specification the conversions are measured against.\<close>

definition digit_char :: "nat \<Rightarrow> char" where
  "digit_char d = char_of (48 + d)"

fun show_nat :: "nat \<Rightarrow> string" where
  "show_nat n = (if n < 10 then [digit_char n] else show_nat (n div 10) @ [digit_char (n mod 10)])"

declare show_nat.simps [simp del]

section \<open>A bounded FIFO interface\<close>

text \<open>Client operations on a queue, and what a client observes.\<close>

datatype 'a fifo_op = Push 'a | Pop

text \<open>
  What both event queues promise: \<open>push\<close> appends to the contents or refuses (\<open>None\<close>), \<open>pop\<close>
  removes the oldest element or refuses. \<open>fits\<close> is the queue's own limit on an element.
\<close>

locale bounded_fifo =
  fixes inv :: "'s \<Rightarrow> bool"
    and contents :: "'s \<Rightarrow> 'a list"
    and cap :: "'s \<Rightarrow> nat"
    and fits :: "'s \<Rightarrow> 'a \<Rightarrow> bool"
    and push :: "'a \<Rightarrow> 's \<Rightarrow> 's option"
    and pop :: "'s \<Rightarrow> ('a \<times> 's) option"
  assumes bounded: "inv s \<Longrightarrow> length (contents s) \<le> cap s"
    and push_full: "inv s \<Longrightarrow> length (contents s) = cap s \<Longrightarrow> push x s = None"
    and push_Some: "inv s \<Longrightarrow> push x s = Some s' \<Longrightarrow>
      inv s' \<and> contents s' = contents s @ [x] \<and> cap s' = cap s"
    and push_room: "inv s \<Longrightarrow> length (contents s) < cap s \<Longrightarrow> fits s x \<Longrightarrow> push x s \<noteq> None"
    and pop_empty: "inv s \<Longrightarrow> contents s = [] \<Longrightarrow> pop s = None"
    and pop_Some: "inv s \<Longrightarrow> pop s = Some (x, s') \<Longrightarrow>
      inv s' \<and> contents s = x # contents s' \<and> cap s' = cap s"
    and pop_nonempty: "inv s \<Longrightarrow> contents s \<noteq> [] \<Longrightarrow> pop s \<noteq> None"
begin

primrec run :: "'a fifo_op list \<Rightarrow> 's \<Rightarrow> 'a list \<times> 'a list \<times> 's" where
  "run [] s = ([], [], s)"
| "run (oper # ops) s =
     (case oper of
        Push x \<Rightarrow> (case push x s of
            None \<Rightarrow> run ops s
          | Some s' \<Rightarrow> (let (ins, outs, t) = run ops s' in (x # ins, outs, t)))
      | Pop \<Rightarrow> (case pop s of
            None \<Rightarrow> run ops s
          | Some (x, s') \<Rightarrow> (let (ins, outs, t) = run ops s' in (ins, x # outs, t))))"

text \<open>Nothing is lost, duplicated or reordered, whatever the client does.\<close>

lemma run_order:
  assumes "inv s" and "run ops s = (ins, outs, t)"
  shows "inv t \<and> contents s @ ins = outs @ contents t \<and> cap t = cap s"
  using assms
proof (induction ops arbitrary: s ins outs)
  case Nil
  then show ?case by simp
next
  case (Cons oper ops)
  show ?case
  proof (cases oper)
    case (Push x)
    with Cons show ?thesis
      by (fastforce split: option.splits prod.splits dest: push_Some)
  next
    case Pop
    with Cons show ?thesis
      by (fastforce split: option.splits prod.splits dest: pop_Some)
  qed
qed

lemma run_outs_prefix:
  assumes "inv s" and "run ops s = (ins, outs, t)"
  shows "outs = take (length outs) (contents s @ ins)"
  using run_order [OF assms] by simp

end

section \<open>Lemmas\<close>

lemma length_overwrite [simp]:
  "i + length ys \<le> length xs \<Longrightarrow> length (overwrite i ys xs) = length xs"
  by (simp add: overwrite_def)

lemma take_overwrite [simp]: "i \<le> length xs \<Longrightarrow> take i (overwrite i ys xs) = take i xs"
  by (simp add: overwrite_def)

lemma take_overwrite_end:
  "i \<le> length xs \<Longrightarrow> take (i + length ys) (overwrite i ys xs) = take i xs @ ys"
  by (simp add: overwrite_def)

lemma overwrite_window:
  assumes "j \<le> i" and "i + length ys \<le> length xs"
  shows "take (i - j + length ys) (drop j (overwrite i ys xs)) = take (i - j) (drop j xs) @ ys"
proof -
  have "drop j (overwrite i ys xs) = drop j (take i xs) @ ys @ drop (i + length ys) xs"
    using assms by (simp add: overwrite_def)
  moreover have "length (drop j (take i xs)) = i - j"
    using assms by simp
  ultimately show ?thesis
    by (simp add: drop_take)
qed

lemma mod_add_left_inj:
  fixes k i n m :: nat
  assumes "k < n" "i < n" "(m + k) mod n = (m + i) mod n"
  shows "k = i"
proof -
  have *: "b \<le> a" if "a < n" "b < n" "(m + a) mod n = (m + b) mod n" for a b
  proof (rule ccontr)
    assume "\<not> b \<le> a"
    then have "n dvd (m + b) - (m + a)"
      using that by (metis (no_types, lifting) add_le_cancel_left mod_eq_dvd_iff_nat nat_le_linear)
    with \<open>\<not> b \<le> a\<close> that show False
      by (auto dest: dvd_imp_le)
  qed
  from * [of k i] * [of i k] assms show ?thesis by simp
qed

lemma nth_update_ring:
  assumes "k < n" "j < n" "n \<le> length xs"
  shows "xs[(h + k) mod n := v] ! ((h + j) mod n) = (if j = k then v else xs ! ((h + j) mod n))"
proof -
  have "(h + k) mod n < length xs"
    using assms mod_less_divisor [of n "h + k"] by linarith
  then show ?thesis
    using mod_add_left_inj [OF assms(1,2), of h] by (auto simp: nth_list_update)
qed

lemma Suc_mod_wrap: "h < n \<Longrightarrow> (if Suc h = n then 0 else Suc h) = Suc h mod n"
  by auto

lemma nth_overwrite:
  "i + length ys \<le> length xs \<Longrightarrow> k < length xs \<Longrightarrow>
     overwrite i ys xs ! k = (if i \<le> k \<and> k < i + length ys then ys ! (k - i) else xs ! k)"
  by (auto simp: overwrite_def nth_append min_def)

lemma window_overwrite_disjoint:
  assumes "i + length ys \<le> length xs" "i + length ys \<le> a \<or> a + n \<le> i"
  shows "take n (drop a (overwrite i ys xs)) = take n (drop a xs)"
proof (rule nth_equalityI)
  fix k assume "k < length (take n (drop a (overwrite i ys xs)))"
  with assms show "take n (drop a (overwrite i ys xs)) ! k = take n (drop a xs) ! k"
    by (auto simp: nth_overwrite)
qed (use assms in simp)

lemma window_overwrite_start:
  "i + length ys \<le> length xs \<Longrightarrow>
     take n (drop i (overwrite i ys xs)) = take n (ys @ drop (i + length ys) xs)"
  by (simp add: overwrite_def)

lemma peek_Nil [simp]: "peek [] = NUL" and peek_Cons [simp]: "peek (c # s) = c"
  by (simp_all add: peek_def)

lemma peek_append: "peek (s @ t) = (if s = [] then peek t else peek s)"
  by (cases s) simp_all

lemma char_at_0: "char_at s 0 = peek s"
  by (cases s) (simp_all add: char_at_def)

lemma char_at_Suc [simp]: "char_at (c # s) (Suc i) = char_at s i"
  by (simp add: char_at_def)

lemma char_at_Cons_0 [simp]: "char_at (c # s) 0 = c"
  by (simp add: char_at_def)

lemma char_at_numeral [simp]: "char_at (c # s) (numeral n) = char_at s (pred_numeral n)"
  by (simp add: numeral_eq_Suc)

lemma char_at_1 [simp]: "char_at (c # s) 1 = char_at s 0"
  by (simp add: char_at_def)

lemma char_at_Nil [simp]: "char_at [] i = NUL"
  by (simp add: char_at_def)

lemma cstr_id: "is_cstr s \<Longrightarrow> cstr s = s"
  by (auto simp: is_cstr_def cstr_def intro: takeWhile_eq_all_conv [THEN iffD2])

lemma is_cstr_cstr [simp]: "is_cstr (cstr s)"
  by (auto simp: is_cstr_def cstr_def dest: set_takeWhileD)

lemma cstr_append_NUL [simp]: "is_cstr s \<Longrightarrow> cstr (s @ NUL # t) = s"
  by (auto simp: is_cstr_def cstr_def takeWhile_append)

subsection \<open>Decimal numbers\<close>

lemma of_char_digit_char: "d < 10 \<Longrightarrow> (of_char (digit_char d) :: nat) = 48 + d"
  by (simp add: digit_char_def)

lemma isdigit_digit_char [simp]: "d < 10 \<Longrightarrow> isdigit (digit_char d)"
  by (simp add: isdigit_def of_char_digit_char)

lemma digit_val_digit_char [simp]: "d < 10 \<Longrightarrow> digit_val (digit_char d) = d"
  by (simp add: digit_val_def of_char_digit_char)

lemma show_nat_nonempty [simp]: "show_nat n \<noteq> []"
  by (subst show_nat.simps) simp

lemma show_nat_digits: "\<forall>c \<in> set (show_nat n). isdigit c"
proof (induction n rule: show_nat.induct)
  case (1 n)
  then show ?case by (subst show_nat.simps) auto
qed

lemma decimal_append: "decimal acc (xs @ ys) = decimal (decimal acc xs) ys"
  by (induction xs arbitrary: acc) simp_all

lemma decimal_show_nat: "decimal 0 (show_nat n) = n"
proof (induction n rule: show_nat.induct)
  case (1 n)
  then show ?case by (subst show_nat.simps) (auto simp: decimal_append)
qed

lemma isdigit_not_special:
  assumes "isdigit c"
  shows "\<not> isspace c" "c \<noteq> CHR ''-''" "c \<noteq> CHR ''+''" "c \<noteq> NUL"
  using assms by (auto simp: isdigit_def isspace_def)

lemma takeWhile_digits_show:
  "\<not> isdigit (peek rest) \<Longrightarrow> takeWhile isdigit (show_nat n @ rest) = show_nat n"
  using show_nat_digits [of n]
  by (cases rest) (auto simp: takeWhile_append)

lemma dropWhile_digits_show:
  "\<not> isdigit (peek rest) \<Longrightarrow> dropWhile isdigit (show_nat n @ rest) = rest"
  using show_nat_digits [of n]
  by (cases rest) (auto simp: dropWhile_append)

lemma show_nat_first:
  obtains c cs where "show_nat n = c # cs" and "isdigit c"
  using show_nat_digits [of n] show_nat_nonempty [of n]
  by (cases "show_nat n") auto

lemma scan_number_show:
  assumes "\<not> isdigit (peek rest)"
  shows "scan_number (show_nat n @ rest) = (False, show_nat n)"
proof -
  obtain c cs where c: "show_nat n = c # cs" "isdigit c"
    by (rule show_nat_first)
  then have "dropWhile isspace (show_nat n @ rest) = show_nat n @ rest"
    using isdigit_not_special by simp
  moreover have "peek (show_nat n @ rest) = c"
    using c by simp
  ultimately show ?thesis
    using c isdigit_not_special takeWhile_digits_show [OF assms, of n]
    by (simp add: scan_number_def)
qed

lemma not_isdigit_NUL [simp]: "\<not> isdigit NUL"
  by (simp add: isdigit_def)

lemma strtoul_show:
  "n \<le> ULONG_MAX \<Longrightarrow> \<not> isdigit (peek rest) \<Longrightarrow> strtoul (show_nat n @ rest) = (n, False)"
  by (simp add: strtoul_def ulong_of_def scan_number_show decimal_show_nat)

lemma strtol_show:
  "n < 2 ^ 63 \<Longrightarrow> \<not> isdigit (peek rest) \<Longrightarrow> strtol (show_nat n @ rest) = int n"
  by (simp add: strtol_def long_of_def scan_number_show decimal_show_nat)

lemma strtoul_bound: "fst (strtoul s) \<le> ULONG_MAX"
proof -
  have "(2 ^ 64 - x) mod 2 ^ 64 \<le> ULONG_MAX" for x :: nat
    using mod_less_divisor [of "2 ^ 64" "2 ^ 64 - x"] by (simp add: ULONG_MAX_def)
  then show ?thesis
    by (simp add: strtoul_def ulong_of_def Let_def split: prod.splits)
qed

lemma to_int32_id: "- (2 ^ 31) \<le> v \<Longrightarrow> v < 2 ^ 31 \<Longrightarrow> to_int32 v = v"
  by (simp add: to_int32_def)

end
