(* ===== verification/Data_Buf.thy ===== *)
theory Data_Buf
  imports Audit_Prelude "HOL-Library.Monad_Syntax"
begin

unbundle bit_operations_syntax

text \<open>
  The growable byte buffer of \<open>auparse/data_buf.c\<close> (\<open>auparse_feed\<close> and the buffer sources
  read through it). The allocation is a list of cells, \<open>None\<close> for a byte that was never
  written; \<open>size_t\<close> arithmetic wraps at \<open>2 ^ 64\<close> and \<open>databuf_tail_size\<close> is truncated to
  \<open>unsigned\<close> as in the code. Every \<open>memmove\<close> is checked against the allocation: a block that
  does not fit is undefined behaviour (\<open>None\<close>). The \<open>bool\<close> argument of an operation says
  whether its \<open>malloc\<close>/\<open>realloc\<close> succeeds.
\<close>

section \<open>The buffer\<close>

record databuf =
  db_flags :: u32
  db_alloc_size :: nat
  db_alloc_ptr :: "char option list option"
  db_offset :: nat
  db_len :: nat
  db_max_len :: nat

definition DATABUF_FLAG_PRESERVE_HEAD :: u32 where
  "DATABUF_FLAG_PRESERVE_HEAD = 1"

definition DATABUF_FLAG_STRING :: u32 where
  "DATABUF_FLAG_STRING = 2"

definition size_t_add :: "nat \<Rightarrow> nat \<Rightarrow> nat" where
  "size_t_add a b = (a + b) mod 2 ^ 64"

definition size_t_sub :: "nat \<Rightarrow> nat \<Rightarrow> nat" where
  "size_t_sub a b = (a + 2 ^ 64 - b) mod 2 ^ 64"

definition load_block :: "nat \<Rightarrow> nat \<Rightarrow> 'a list \<Rightarrow> 'a list ub" where
  "load_block i n blk = (if i + n \<le> length blk then Some (take n (drop i blk)) else None)"

definition store_block :: "nat \<Rightarrow> 'a list \<Rightarrow> 'a list \<Rightarrow> 'a list ub" where
  "store_block i ys blk = (if i + length ys \<le> length blk then Some (overwrite i ys blk) else None)"

text \<open>\<open>realloc\<close>: the old bytes up to the new size, the rest uninitialised.\<close>

definition realloc_block :: "'a option list option \<Rightarrow> nat \<Rightarrow> 'a option list" where
  "realloc_block blk n =
     (let old = (case blk of None \<Rightarrow> [] | Some b \<Rightarrow> b)
      in take n old @ replicate (n - length old) None)"

section \<open>Operations\<close>

definition databuf_beg :: "databuf \<Rightarrow> nat option" where
  "databuf_beg db = (case db_alloc_ptr db of None \<Rightarrow> None | Some _ \<Rightarrow> Some (db_offset db))"

definition databuf_end :: "databuf \<Rightarrow> nat option" where
  "databuf_end db =
     (case db_alloc_ptr db of None \<Rightarrow> None | Some _ \<Rightarrow> Some (db_offset db + db_len db))"

definition databuf_tail_size :: "databuf \<Rightarrow> nat" where
  "databuf_tail_size db =
     size_t_sub (db_alloc_size db) (size_t_add (db_offset db) (db_len db)) mod 2 ^ 32"

definition databuf_tail_available :: "databuf \<Rightarrow> nat \<Rightarrow> bool" where
  "databuf_tail_available db append_len \<longleftrightarrow> append_len \<le> databuf_tail_size db"

definition preserve_head :: "databuf \<Rightarrow> bool" where
  "preserve_head db \<longleftrightarrow> db_flags db AND DATABUF_FLAG_PRESERVE_HEAD \<noteq> 0"

definition databuf_shift_data_to_beginning :: "databuf \<Rightarrow> (int \<times> databuf) ub" where
  "databuf_shift_data_to_beginning db =
     (if preserve_head db then Some (-1, db)
      else (case db_alloc_ptr db of
          None \<Rightarrow> Some (1, db)
        | Some blk \<Rightarrow>
            (if db_offset db \<noteq> 0 then do {
               ys \<leftarrow> load_block (db_offset db) (db_len db) blk;
               blk' \<leftarrow> store_block 0 ys blk;
               Some (1, db\<lparr>db_alloc_ptr := Some blk', db_offset := 0\<rparr>)
             } else Some (1, db))))"

text \<open>
  \<open>databuf_append\<close>: make room (by growing or by shifting), then move the bytes behind the
  data. \<open>src\<close> is \<open>None\<close> for a NULL pointer.
\<close>

definition databuf_make_room :: "bool \<Rightarrow> databuf \<Rightarrow> nat \<Rightarrow> (bool \<times> databuf) ub" where
  "databuf_make_room ok db src_size =
     (let new_size = size_t_add (db_len db) src_size in
      if new_size > db_alloc_size db
         \<or> preserve_head db \<and> \<not> databuf_tail_available db src_size
      then do {
        (_, db1) \<leftarrow> databuf_shift_data_to_beginning db;
        Some (if ok \<and> new_size \<noteq> 0
              then (True, db1\<lparr>db_alloc_ptr := Some (realloc_block (db_alloc_ptr db1) new_size),
                              db_alloc_size := new_size\<rparr>)
              else (False, db1))
      }
      else if \<not> databuf_tail_available db src_size then do {
        (_, db1) \<leftarrow> databuf_shift_data_to_beginning db;
        Some (True, db1)
      }
      else Some (True, db))"

definition databuf_append :: "bool \<Rightarrow> databuf \<Rightarrow> string option \<Rightarrow> nat \<Rightarrow> (int \<times> databuf) ub" where
  "databuf_append ok db src src_size =
     (case src of
        None \<Rightarrow> Some (0, db)
      | Some bytes \<Rightarrow>
          if src_size = 0 then Some (0, db)
          else do {
            let new_size = size_t_add (db_len db) src_size;
            (room, db1) \<leftarrow> databuf_make_room ok db src_size;
            if \<not> room then Some (-1, db1)
            else do {
              i \<leftarrow> databuf_end db1;
              blk \<leftarrow> db_alloc_ptr db1;
              ys \<leftarrow> load_block 0 src_size bytes;
              blk' \<leftarrow> store_block i (map Some ys) blk;
              Some (1, db1\<lparr>db_alloc_ptr := Some blk', db_len := new_size,
                           db_max_len := max (db_max_len db1) new_size\<rparr>)
            }
          })"

definition databuf_strcat :: "bool \<Rightarrow> databuf \<Rightarrow> string option \<Rightarrow> (int \<times> databuf) ub" where
  "databuf_strcat ok db str =
     (case str of
        None \<Rightarrow> Some (0, db)
      | Some s \<Rightarrow> do {
          let str_len = length (cstr s) + 1;
          db1 \<leftarrow> (if db_len db > 0 then do {
                    i \<leftarrow> databuf_end db;
                    blk \<leftarrow> db_alloc_ptr db;
                    cs \<leftarrow> load_block (i - 1) 1 blk;
                    c \<leftarrow> hd cs;
                    Some (if c = NUL then db\<lparr>db_len := db_len db - 1\<rparr> else db)
                  } else Some db);
          (_, db2) \<leftarrow> databuf_append ok db1 (Some (cstr s @ [NUL])) str_len;
          Some (1, db2)
        })"

definition databuf_init :: "bool \<Rightarrow> nat \<Rightarrow> u32 \<Rightarrow> (int \<times> databuf) ub" where
  "databuf_init ok sz fl =
     (let db = \<lparr>db_flags = fl, db_alloc_size = 0, db_alloc_ptr = None,
                db_offset = 0, db_len = 0, db_max_len = 0\<rparr> in
      if sz \<noteq> 0 then
        Some (if ok then (1, db\<lparr>db_alloc_ptr := Some (replicate sz None), db_alloc_size := sz\<rparr>)
              else (-1, db))
      else if fl AND DATABUF_FLAG_STRING \<noteq> 0 then do {
        (_, db1) \<leftarrow> databuf_strcat ok db (Some []);
        Some (1, db1)
      }
      else Some (1, db))"

definition databuf_free :: "databuf \<Rightarrow> databuf" where
  "databuf_free db = db\<lparr>db_alloc_ptr := None, db_alloc_size := 0, db_offset := 0,
                        db_len := 0, db_max_len := 0\<rparr>"

definition databuf_advance :: "databuf \<Rightarrow> nat \<Rightarrow> int \<times> databuf" where
  "databuf_advance db advance =
     (let actual = min advance (db_len db);
          db1 = db\<lparr>db_offset := db_offset db + actual, db_len := db_len db - actual\<rparr>
      in if advance = actual then (1, db1) else (-1, db1))"

definition databuf_reset :: "databuf \<Rightarrow> int \<times> databuf" where
  "databuf_reset db =
     (if \<not> preserve_head db then (-1, db)
      else (1, db\<lparr>db_offset := 0, db_len := min (db_alloc_size db) (db_max_len db)\<rparr>))"

section \<open>What the buffer holds, and its invariant\<close>

definition databuf_contents :: "databuf \<Rightarrow> string" where
  "databuf_contents db =
     (case db_alloc_ptr db of None \<Rightarrow> []
      | Some blk \<Rightarrow> map the (take (db_len db) (drop (db_offset db) blk)))"

text \<open>
  The checks of the macro \<open>DATABUF_VALIDATE\<close>, the size of the real allocation, and that the
  data window was written.
\<close>

definition databuf_valid :: "databuf \<Rightarrow> bool" where
  "databuf_valid db \<longleftrightarrow> db_alloc_size db < 2 ^ 64 \<and>
     (case db_alloc_ptr db of
        None \<Rightarrow> db_alloc_size db = 0 \<and> db_offset db = 0 \<and> db_len db = 0
      | Some blk \<Rightarrow> length blk = db_alloc_size db \<and> db_offset db + db_len db \<le> db_alloc_size db
          \<and> list_all (\<lambda>c. c \<noteq> None) (take (db_len db) (drop (db_offset db) blk)))"

text \<open>The reader's side of a preserved buffer: any number of advances.\<close>

definition databuf_advances :: "databuf \<Rightarrow> nat list \<Rightarrow> databuf" where
  "databuf_advances db ns = foldl (\<lambda>d n. snd (databuf_advance d n)) db ns"

section \<open>Lemmas\<close>

lemma tail_size_le:
  assumes "databuf_valid db"
  shows "databuf_tail_size db \<le> db_alloc_size db - (db_offset db + db_len db)"
proof -
  have le: "db_offset db + db_len db \<le> db_alloc_size db" "db_alloc_size db < 2 ^ 64"
    using assms by (auto simp: databuf_valid_def split: option.splits)
  then have add: "size_t_add (db_offset db) (db_len db) = db_offset db + db_len db"
    by (simp add: size_t_add_def)
  have "size_t_sub a b = a - b" if "b \<le> a" "a < 2 ^ 64" for a b :: nat
  proof -
    have "size_t_sub a b = ((a - b) + 2 ^ 64) mod 2 ^ 64"
      using that by (simp add: size_t_sub_def)
    also have "\<dots> = (a - b) mod 2 ^ 64" by (rule mod_add_self2)
    also have "\<dots> = a - b" using that by (intro mod_less) simp
    finally show ?thesis .
  qed
  with le add show ?thesis
    by (simp add: databuf_tail_size_def)
qed

lemma shift_valid:
  assumes "databuf_valid db"
  obtains r db1 where "databuf_shift_data_to_beginning db = Some (r, db1)"
    and "databuf_valid db1" "databuf_contents db1 = databuf_contents db"
    and "db_len db1 = db_len db" "db_alloc_size db1 = db_alloc_size db" "db_flags db1 = db_flags db"
    and "db_max_len db1 = db_max_len db"
    and "db_offset db1 = (if preserve_head db then db_offset db else 0)"
proof (cases "preserve_head db \<or> db_alloc_ptr db = None \<or> db_offset db = 0")
  case True
  then have "databuf_shift_data_to_beginning db = Some (if preserve_head db then -1 else 1, db)"
    by (auto simp: databuf_shift_data_to_beginning_def split: option.splits)
  moreover have "db_offset db = (if preserve_head db then db_offset db else 0)"
    using True assms by (auto simp: databuf_valid_def)
  ultimately show ?thesis using that assms by blast
next
  case False
  then obtain blk where blk: "db_alloc_ptr db = Some blk" and np: "\<not> preserve_head db"
    and off: "db_offset db \<noteq> 0" by auto
  define ys where "ys = take (db_len db) (drop (db_offset db) blk)"
  have le: "length blk = db_alloc_size db" "db_offset db + db_len db \<le> length blk"
    and full: "list_all (\<lambda>c. c \<noteq> None) ys" and sz: "db_alloc_size db < 2 ^ 64"
    using assms blk by (auto simp: databuf_valid_def ys_def)
  have len: "length ys = db_len db" using le by (simp add: ys_def)
  have "databuf_shift_data_to_beginning db =
      Some (1, db\<lparr>db_alloc_ptr := Some (overwrite 0 ys blk), db_offset := 0\<rparr>)"
    using np off blk le len by (simp add: databuf_shift_data_to_beginning_def load_block_def
        store_block_def flip: ys_def)
  moreover have "take (db_len db) (overwrite 0 ys blk) = ys"
    using len by (simp add: overwrite_def)
  ultimately show ?thesis
    using that np blk le full sz len
    by (simp add: databuf_valid_def databuf_contents_def flip: ys_def)
qed

text \<open>
  After \<open>databuf_make_room\<close> with a working allocator, the bytes to append fit behind the data,
  provided the head may be dropped or nothing was consumed yet.
\<close>

lemma realloc_block_keeps:
  assumes "off + n \<le> length blk" "off + n \<le> m"
  shows "take n (drop off (realloc_block (Some blk) m)) = take n (drop off blk)"
  using assms by (simp add: realloc_block_def drop_take min_def)

lemma length_realloc_block [simp]: "length (realloc_block blk m) = m"
  by (auto simp: realloc_block_def min_def split: option.splits)

lemma make_room:
  assumes v: "databuf_valid db" and sp: "\<not> preserve_head db \<or> db_offset db = 0"
    and n: "0 < n" and small: "db_len db + n < 2 ^ 64"
  obtains db1 blk where "databuf_make_room True db n = Some (True, db1)"
    and "databuf_valid db1" "databuf_contents db1 = databuf_contents db"
    and "db_len db1 = db_len db" "db_flags db1 = db_flags db" "db_max_len db1 = db_max_len db"
    and "db_alloc_ptr db1 = Some blk" "db_offset db1 + db_len db1 + n \<le> length blk"
    and "db_offset db = 0 \<longrightarrow> db_offset db1 = 0"
proof -
  obtain r db1 where shift: "databuf_shift_data_to_beginning db = Some (r, db1)"
    and v1: "databuf_valid db1" and c1: "databuf_contents db1 = databuf_contents db"
    and f1: "db_len db1 = db_len db" "db_alloc_size db1 = db_alloc_size db"
      "db_flags db1 = db_flags db" "db_max_len db1 = db_max_len db"
    and o1: "db_offset db1 = (if preserve_head db then db_offset db else 0)"
    by (rule shift_valid [OF v]) blast
  have o0: "db_offset db1 = 0" using o1 sp by simp
  have ns: "size_t_add (db_len db) n = db_len db + n" using small by (simp add: size_t_add_def)
  let ?grow = "db_len db + n > db_alloc_size db
         \<or> preserve_head db \<and> \<not> databuf_tail_available db n"
  consider (grow) "?grow" | (shift) "\<not> ?grow" "\<not> databuf_tail_available db n"
    | (fits) "\<not> ?grow" "databuf_tail_available db n" by blast
  then show ?thesis
  proof cases
    case grow
    define db2 where "db2 = db1\<lparr>db_alloc_ptr := Some (realloc_block (db_alloc_ptr db1) (db_len db + n)),
                              db_alloc_size := db_len db + n\<rparr>"
    have "databuf_make_room True db n = Some (True, db2)"
      using grow n by (simp add: databuf_make_room_def Let_def ns shift db2_def)
    moreover have "databuf_valid db2 \<and> databuf_contents db2 = databuf_contents db"
    proof (cases "db_alloc_ptr db1")
      case None
      with v1 f1 o0 c1 small show ?thesis
        by (simp add: databuf_valid_def databuf_contents_def db2_def)
    next
      case (Some blk)
      then have "db_len db \<le> length blk" using v1 f1 o0 by (simp add: databuf_valid_def)
      then have "take (db_len db) (realloc_block (Some blk) (db_len db + n)) = take (db_len db) blk"
        using realloc_block_keeps [of 0 "db_len db" blk] by simp
      with Some v1 f1 o0 c1 small show ?thesis
        by (simp add: databuf_valid_def databuf_contents_def db2_def)
    qed
    ultimately show ?thesis
      using that f1 o0 by (simp add: db2_def)
  next
    case shift
    then have "databuf_make_room True db n = Some (True, db1)"
      by (simp add: databuf_make_room_def ns \<open>databuf_shift_data_to_beginning db = _\<close>)
    moreover obtain blk where "db_alloc_ptr db1 = Some blk"
      using v1 shift n f1 by (cases "db_alloc_ptr db1") (auto simp: databuf_valid_def)
    ultimately show ?thesis
      using that [of db1 blk] v1 c1 f1 o0 shift by (auto simp: databuf_valid_def)
  next
    case fits
    then have "databuf_make_room True db n = Some (True, db)"
      by (simp add: databuf_make_room_def ns)
    moreover obtain blk where "db_alloc_ptr db = Some blk"
      using v fits n by (cases "db_alloc_ptr db") (auto simp: databuf_valid_def)
    moreover have "n \<le> db_alloc_size db - (db_offset db + db_len db)"
      using fits tail_size_le [OF v] by (simp add: databuf_tail_available_def)
    ultimately show ?thesis
      using that [of db blk] v n by (auto simp: databuf_valid_def)
  qed
qed

lemma append_in_room:
  fixes m :: nat
  assumes v: "databuf_valid db1" and blk: "db_alloc_ptr db1 = Some blk"
    and room: "db_offset db1 + db_len db1 + n \<le> length blk" and n: "n \<le> length src"
  defines "db2 \<equiv> db1\<lparr>db_alloc_ptr := Some (overwrite (db_offset db1 + db_len db1) (map Some (take n src)) blk),
                  db_len := db_len db1 + n, db_max_len := m\<rparr>"
  shows "databuf_valid db2" "databuf_contents db2 = databuf_contents db1 @ take n src"
proof -
  let ?ys = "map Some (take n src)" and ?i = "db_offset db1 + db_len db1"
  have len: "length ?ys = n" using n by simp
  have "take (db_len db1 + n) (drop (db_offset db1) (overwrite ?i ?ys blk)) =
      take (db_len db1) (drop (db_offset db1) blk) @ ?ys"
    using overwrite_window [of "db_offset db1" ?i ?ys blk] room len by simp
  moreover have "length (overwrite ?i ?ys blk) = length blk"
    using room len by simp
  ultimately show "databuf_valid db2" "databuf_contents db2 = databuf_contents db1 @ take n src"
    using v blk room by (auto simp: databuf_valid_def databuf_contents_def db2_def list_all_iff comp_def)
qed

lemma databuf_append_valid:
  assumes "databuf_valid db" and "\<not> preserve_head db \<or> db_offset db = 0"
    and "0 < n" "n \<le> length src" and "db_len db + n < 2 ^ 64"
  obtains db' where "databuf_append True db (Some src) n = Some (1, db')"
    and "databuf_valid db'" "databuf_contents db' = databuf_contents db @ take n src"
    and "db_flags db' = db_flags db" "db_len db' = db_len db + n"
    and "db_max_len db' = max (db_max_len db) (db_len db + n)"
    and "db_offset db = 0 \<longrightarrow> db_offset db' = 0"
proof -
  obtain db1 blk where room: "databuf_make_room True db n = Some (True, db1)"
    and v1: "databuf_valid db1" and c1: "databuf_contents db1 = databuf_contents db"
    and f1: "db_len db1 = db_len db" "db_flags db1 = db_flags db" "db_max_len db1 = db_max_len db"
    and blk: "db_alloc_ptr db1 = Some blk" "db_offset db1 + db_len db1 + n \<le> length blk"
    and o1: "db_offset db = 0 \<longrightarrow> db_offset db1 = 0"
    by (rule make_room [OF assms(1,2,3,5)]) (rule that; assumption)
  have ns: "size_t_add (db_len db) n = db_len db1 + n" using assms(5) f1 by (simp add: size_t_add_def)
  note step = append_in_room [OF v1 blk assms(4)]
  have len: "min (length src) n = n" using assms(4) by simp
  have "databuf_append True db (Some src) n =
      Some (1, db1\<lparr>db_alloc_ptr := Some (overwrite (db_offset db1 + db_len db1) (map Some (take n src)) blk),
                  db_len := db_len db1 + n, db_max_len := max (db_max_len db1) (db_len db1 + n)\<rparr>)"
    using assms(3,4) blk len
    by (simp add: databuf_append_def Let_def room ns databuf_end_def load_block_def store_block_def)
  with that step c1 f1 o1 show ?thesis by simp
qed

lemma databuf_advance_valid:
  assumes "databuf_valid db"
  shows "databuf_valid (snd (databuf_advance db n))"
    and "databuf_contents (snd (databuf_advance db n)) = drop n (databuf_contents db)"
proof -
  have *: "take (l - k) (drop (off + k) blk) = drop k (take l (drop off blk))"
    for l k off and blk :: "char option list"
    by (simp add: drop_take add.commute)
  show "databuf_valid (snd (databuf_advance db n))"
    using assms by (auto simp: databuf_valid_def databuf_advance_def Let_def * list_all_iff
        split: option.splits dest: in_set_dropD)
  have len: "length (databuf_contents db) = db_len db"
    using assms by (auto simp: databuf_valid_def databuf_contents_def split: option.splits)
  show "databuf_contents (snd (databuf_advance db n)) = drop n (databuf_contents db)"
  proof (cases "n \<le> db_len db")
    case True
    then show ?thesis
      by (auto simp: databuf_contents_def databuf_advance_def Let_def * drop_map split: option.splits)
  next
    case False
    then show ?thesis using len
      by (auto simp: databuf_contents_def databuf_advance_def Let_def split: option.splits)
  qed
qed

lemma databuf_reset_preserved:
  assumes "preserve_head db" and "db_alloc_ptr db = Some blk" and "db_alloc_size db = length blk"
    and "db_max_len db \<le> length blk"
  shows "databuf_contents (snd (databuf_reset db)) = map the (take (db_max_len db) blk)"
  using assms by (simp add: databuf_reset_def databuf_contents_def preserve_head_def)

lemma databuf_advances_frame:
  "db_alloc_ptr (databuf_advances db ns) = db_alloc_ptr db
   \<and> db_alloc_size (databuf_advances db ns) = db_alloc_size db
   \<and> db_max_len (databuf_advances db ns) = db_max_len db
   \<and> db_flags (databuf_advances db ns) = db_flags db"
  by (induction ns arbitrary: db) (simp_all add: databuf_advances_def databuf_advance_def Let_def)

lemma databuf_advances_contents:
  "databuf_valid db \<Longrightarrow> databuf_contents (databuf_advances db ns) = drop (sum_list ns) (databuf_contents db)"
  by (induction ns arbitrary: db)
    (simp_all add: databuf_advances_def databuf_advance_valid add.commute)

section \<open>Properties\<close>

text \<open>C20: \<open>databuf_append\<close> on a valid buffer, whose head may be dropped or which was not yet
  consumed, never leaves its allocation: it returns 1, the buffer is valid again, and it holds
  the old data followed by the new bytes.\<close>

theorem databuf_append_correct:
  assumes "databuf_valid db" and "\<not> preserve_head db \<or> db_offset db = 0"
    and "0 < n" "n \<le> length src" and "db_len db + n < 2 ^ 64"
  shows "\<exists>db'. databuf_append True db (Some src) n = Some (1, db') \<and> databuf_valid db'
    \<and> databuf_contents db' = databuf_contents db @ take n src"
  by (rule databuf_append_valid [OF assms]) blast

theorem databuf_append_correct_witness:
  "\<exists>db'. databuf_append True
      \<lparr>db_flags = 0, db_alloc_size = 4, db_alloc_ptr = Some (map Some ''abcd''),
       db_offset = 2, db_len = 2, db_max_len = 4\<rparr> (Some ''ef'') 2 = Some (1, db')
    \<and> databuf_valid db' \<and> databuf_contents db' = ''cdef''"
proof -
  let ?db = "\<lparr>db_flags = 0, db_alloc_size = 4, db_alloc_ptr = Some (map Some ''abcd''),
       db_offset = 2, db_len = 2, db_max_len = 4\<rparr>"
  have "databuf_valid ?db" "\<not> preserve_head ?db"
    by (simp_all add: databuf_valid_def preserve_head_def)
  moreover have "databuf_contents ?db @ take 2 ''ef'' = ''cdef''"
    by (simp add: databuf_contents_def)
  ultimately show ?thesis
    using databuf_append_correct [of ?db 2 "''ef''"] by simp
qed

text \<open>A buffer filled by one append under \<open>DATABUF_FLAG_PRESERVE_HEAD\<close> can be read with any
  sequence of \<open>databuf_advance\<close> calls and rewound: the reader sees the data without the
  consumed prefix, and \<open>databuf_reset\<close> brings all of it back.\<close>

theorem databuf_preserve_roundtrip:
  assumes "databuf_init True 0 DATABUF_FLAG_PRESERVE_HEAD = Some (r0, db0)"
    and "src \<noteq> []" and "length src < 2 ^ 64"
    and "databuf_append True db0 (Some src) (length src) = Some (r1, db1)"
  shows "databuf_contents (databuf_advances db1 ns) = drop (sum_list ns) src
    \<and> databuf_contents (snd (databuf_reset (databuf_advances db1 ns))) = src"
proof -
  have db0: "db0 = \<lparr>db_flags = DATABUF_FLAG_PRESERVE_HEAD, db_alloc_size = 0, db_alloc_ptr = None,
                db_offset = 0, db_len = 0, db_max_len = 0\<rparr>"
    using assms(1) by (simp add: databuf_init_def DATABUF_FLAG_PRESERVE_HEAD_def
        DATABUF_FLAG_STRING_def)
  then have v0: "databuf_valid db0" and c0: "databuf_contents db0 = []"
    by (simp_all add: databuf_valid_def databuf_contents_def)
  obtain db' where step: "databuf_append True db0 (Some src) (length src) = Some (1, db')"
    and v1: "databuf_valid db'" and c1: "databuf_contents db' = src"
    and f1: "db_flags db' = DATABUF_FLAG_PRESERVE_HEAD" "db_len db' = length src"
      "db_max_len db' = length src" "db_offset db' = 0"
    using databuf_append_valid [OF v0, of "length src" src] assms(2,3) db0 c0 by auto
  have [simp]: "db1 = db'" using step assms(4) by simp
  obtain blk where blk: "db_alloc_ptr db' = Some blk" and len: "length src \<le> length blk"
    and sz: "db_alloc_size db' = length blk"
    using v1 f1 assms(2) by (auto simp: databuf_valid_def split: option.splits)
  have "map the (take (length src) blk) = src"
    using c1 blk f1 by (simp add: databuf_contents_def)
  then have "databuf_contents (snd (databuf_reset (databuf_advances db' ns))) = src"
    using databuf_reset_preserved [of "databuf_advances db' ns" blk] databuf_advances_frame [of db' ns]
      blk len sz f1
    by (simp add: preserve_head_def DATABUF_FLAG_PRESERVE_HEAD_def)
  then show ?thesis using databuf_advances_contents [OF v1, of ns] c1 by simp
qed

theorem databuf_preserve_roundtrip_witness:
  "databuf_contents (databuf_advances
     \<lparr>db_flags = 1, db_alloc_size = 3, db_alloc_ptr = Some [Some (CHR ''a''), Some (CHR ''b''), Some (CHR ''c'')],
      db_offset = 0, db_len = 3, db_max_len = 3\<rparr> [1, 1]) = ''c''"
proof -
  have i: "databuf_init True 0 DATABUF_FLAG_PRESERVE_HEAD =
      Some (1, \<lparr>db_flags = 1, db_alloc_size = 0, db_alloc_ptr = None,
                db_offset = 0, db_len = 0, db_max_len = 0\<rparr>)"
    by (simp add: databuf_init_def DATABUF_FLAG_PRESERVE_HEAD_def DATABUF_FLAG_STRING_def)
  have a: "databuf_append True \<lparr>db_flags = 1, db_alloc_size = 0, db_alloc_ptr = None,
                db_offset = 0, db_len = 0, db_max_len = 0\<rparr> (Some ''abc'') (length ''abc'') =
      Some (1, \<lparr>db_flags = 1, db_alloc_size = 3,
      db_alloc_ptr = Some [Some (CHR ''a''), Some (CHR ''b''), Some (CHR ''c'')],
      db_offset = 0, db_len = 3, db_max_len = 3\<rparr>)"
    by (simp add: databuf_append_def databuf_make_room_def size_t_add_def
        databuf_shift_data_to_beginning_def preserve_head_def DATABUF_FLAG_PRESERVE_HEAD_def
        realloc_block_def databuf_end_def load_block_def store_block_def overwrite_def)
  show ?thesis
    using databuf_preserve_roundtrip [OF i _ _ a, of "[1, 1]"] by simp
qed

text \<open>C26: Under \<open>DATABUF_FLAG_PRESERVE_HEAD\<close> an append that has to grow a partly consumed buffer
  writes outside the allocation: the head is not shifted away, but the new size counts only
  the unconsumed bytes.\<close>

theorem databuf_append_preserve_overflow:
  assumes "databuf_valid db" and "preserve_head db" and "0 < db_offset db"
    and "db_alloc_size db < db_len db + n" and "n \<le> length src" and "db_len db + n < 2 ^ 64"
  shows "databuf_append True db (Some src) n = None"
proof -
  obtain blk where blk: "db_alloc_ptr db = Some blk"
    using assms(1,3) by (auto simp: databuf_valid_def split: option.splits)
  have le: "db_offset db + db_len db \<le> db_alloc_size db"
    using assms(1) blk by (simp add: databuf_valid_def)
  have ns: "size_t_add (db_len db) n = db_len db + n" using assms(6) by (simp add: size_t_add_def)
  from le assms(3,4) have n0: "n \<noteq> 0" by simp
  show ?thesis
    using assms(2-5) blk ns n0
    by (simp add: databuf_append_def databuf_make_room_def databuf_shift_data_to_beginning_def
        databuf_end_def load_block_def store_block_def)
qed

theorem databuf_append_preserve_overflow_witness:
  "databuf_append True
      \<lparr>db_flags = 1, db_alloc_size = 2, db_alloc_ptr = Some (map Some ''ab''),
       db_offset = 1, db_len = 1, db_max_len = 2\<rparr> (Some ''cd'') 2 = None"
  by (rule databuf_append_preserve_overflow)
    (simp_all add: databuf_valid_def preserve_head_def DATABUF_FLAG_PRESERVE_HEAD_def)

end
