(* ===== verification/Audisp_Queue.thy ===== *)
theory Audisp_Queue
  imports Audit_Prelude
begin

text \<open>
  The in-memory queue between the daemon and the plugin dispatcher, \<open>audisp/queue.c\<close>. The
  file's static variables are the record \<open>disp_queue\<close>; an event is any value, a slot is
  \<open>None\<close> when the C pointer is NULL. The critical sections run under \<open>queue_lock\<close>, so each is
  one step; what the other thread does while a thread sleeps (\<open>nanosleep\<close>) or waits
  (\<open>pthread_cond_wait\<close>) is a function argument. Messages to syslog and changes of the run
  level are recorded in \<open>dq_log\<close>.
\<close>

section \<open>State\<close>

datatype overflow_action = O_IGNORE | O_SYSLOG | O_SUSPEND | O_SINGLE | O_HALT | O_UNKNOWN

datatype disp_effect =
    Queue_full_dropping
  | Queue_full_limit_reached
  | Suspending_event_passing
  | Changing_to_single_user
  | Halting_system
  | Unknown_overflow_action
  | Failed_to_fork
  | Exec_init string

record 'e disp_queue =
  dq_q :: "'e option list"
  dq_next :: nat
  dq_last :: nat
  dq_depth :: nat
  dq_suspended :: bool
  dq_used :: u32
  dq_max_used :: u32
  dq_overflowed :: bool
  dq_full_warning :: nat
  dq_log :: "disp_effect list"

definition QUEUE_FULL_LIMIT :: nat where
  "QUEUE_FULL_LIMIT = 5"

section \<open>Operations\<close>

definition reset_suspended :: "'e disp_queue \<Rightarrow> 'e disp_queue" where
  "reset_suspended s = s\<lparr>dq_suspended := False, dq_full_warning := 0\<rparr>"

text \<open>\<open>init_queue\<close>; the argument \<open>ok\<close> says whether \<open>malloc\<close> succeeds. On failure the array
  pointer is NULL, an array of no slots.\<close>

definition init_queue :: "bool \<Rightarrow> nat \<Rightarrow> 'e disp_queue \<Rightarrow> int \<times> 'e disp_queue" where
  "init_queue ok depth s =
     (let s1 = s\<lparr>dq_suspended := False, dq_next := 0, dq_last := 0, dq_used := 0,
                 dq_max_used := 0, dq_overflowed := False, dq_depth := depth\<rparr>
      in if \<not> ok then (-1, s1\<lparr>dq_q := []\<rparr>)
         else (0, s1\<lparr>dq_q := replicate depth None\<rparr>))"

definition change_runlevel :: "bool \<Rightarrow> string \<Rightarrow> disp_effect list" where
  "change_runlevel fork_ok level = (if fork_ok then [Exec_init level] else [Failed_to_fork])"

definition do_overflow_action ::
    "bool \<Rightarrow> overflow_action \<Rightarrow> 'e disp_queue \<Rightarrow> 'e disp_queue" where
  "do_overflow_action fork_ok action s =
     (let s1 = s\<lparr>dq_overflowed := True\<rparr> in
      case action of
        O_IGNORE \<Rightarrow> s1
      | O_SYSLOG \<Rightarrow>
          (if dq_full_warning s1 < QUEUE_FULL_LIMIT then
             let w = Suc (dq_full_warning s1)
             in s1\<lparr>dq_full_warning := w,
                   dq_log := dq_log s1 @ [Queue_full_dropping]
                     @ (if w = QUEUE_FULL_LIMIT then [Queue_full_limit_reached] else [])\<rparr>
           else s1)
      | O_SUSPEND \<Rightarrow>
          s1\<lparr>dq_log := dq_log s1 @ [Suspending_event_passing], dq_suspended := True\<rparr>
      | O_SINGLE \<Rightarrow>
          s1\<lparr>dq_log := dq_log s1 @ [Changing_to_single_user] @ change_runlevel fork_ok ''1''\<rparr>
      | O_HALT \<Rightarrow>
          s1\<lparr>dq_log := dq_log s1 @ [Halting_system] @ change_runlevel fork_ok ''0''\<rparr>
      | O_UNKNOWN \<Rightarrow> s1\<lparr>dq_log := dq_log s1 @ [Unknown_overflow_action]\<rparr>)"

text \<open>A slot of the array; a read outside it (after a failed \<open>init_queue\<close>), like the remainder by
  a depth of 0, is undefined.\<close>

definition slot_index :: "nat \<Rightarrow> 'e disp_queue \<Rightarrow> nat ub" where
  "slot_index i s = (if dq_depth s = 0 \<or> i mod dq_depth s \<ge> length (dq_q s) then None
                     else Some (i mod dq_depth s))"

text \<open>One pass through the critical section of \<open>enqueue\<close>: \<open>Inl\<close> of the unchanged queue when the
  slot is taken, \<open>Inr\<close> of the new one when the event was stored.\<close>

definition enqueue_attempt :: "'e \<Rightarrow> 'e disp_queue \<Rightarrow> ('e disp_queue + 'e disp_queue) ub" where
  "enqueue_attempt e s =
     (case slot_index (dq_next s) s of
        None \<Rightarrow> None
      | Some n \<Rightarrow>
          if dq_q s ! n = None then
            let used = dq_used s + 1 in
            Some (Inr (s\<lparr>dq_q := (dq_q s)[n := Some e], dq_next := (n + 1) mod dq_depth s,
                         dq_used := used,
                         dq_max_used := (if used > dq_max_used s then used else dq_max_used s)\<rparr>))
          else Some (Inl s))"

text \<open>
  \<open>enqueue\<close>: up to four passes, with a sleep after every failed one. \<open>sleep i\<close> is what the
  dispatcher thread does to the queue during sleep number \<open>i\<close>. The result is the return code,
  whether the event was freed instead of queued, and the queue.
\<close>

function enqueue_retry ::
    "(nat \<Rightarrow> 'e disp_queue \<Rightarrow> 'e disp_queue) \<Rightarrow> bool \<Rightarrow> overflow_action \<Rightarrow> 'e \<Rightarrow> nat
     \<Rightarrow> 'e disp_queue \<Rightarrow> (int \<times> bool \<times> 'e disp_queue) ub" where
  "enqueue_retry sleep fork_ok action e retry_cnt s =
     (if retry_cnt > 3 then Some (-1, True, do_overflow_action fork_ok action s)
      else (case enqueue_attempt e s of
          None \<Rightarrow> None
        | Some (Inr s') \<Rightarrow> Some (0, False, s')
        | Some (Inl s') \<Rightarrow>
            enqueue_retry sleep fork_ok action e (Suc retry_cnt) (sleep retry_cnt s')))"
  by pat_completeness auto
termination
  by (relation "measure (\<lambda>(_, _, _, _, retry_cnt, _). 4 - retry_cnt)") auto

declare enqueue_retry.simps [simp del]

definition enqueue ::
    "(nat \<Rightarrow> 'e disp_queue \<Rightarrow> 'e disp_queue) \<Rightarrow> bool \<Rightarrow> overflow_action \<Rightarrow> 'e
     \<Rightarrow> 'e disp_queue \<Rightarrow> (int \<times> bool \<times> 'e disp_queue) ub" where
  "enqueue sleep fork_ok action e s =
     (if dq_suspended s then Some (0, True, s) else enqueue_retry sleep fork_ok action e 0 s)"

text \<open>
  \<open>dequeue\<close>: \<open>wait\<close> is what the other threads do while this one is in \<open>pthread_cond_wait\<close>,
  \<open>hup\<close> and \<open>hup'\<close> are the values of \<open>disp_hup\<close> before and after the wait. The counter is
  decremented whether or not an event was found.
\<close>

definition take_slot :: "'e disp_queue \<Rightarrow> ('e option \<times> 'e disp_queue) ub" where
  "take_slot s =
     (case slot_index (dq_last s) s of
        None \<Rightarrow> None
      | Some n \<Rightarrow>
          (case dq_q s ! n of
             Some e \<Rightarrow>
               Some (Some e, s\<lparr>dq_q := (dq_q s)[n := None], dq_last := (n + 1) mod dq_depth s,
                               dq_used := dq_used s - 1\<rparr>)
           | None \<Rightarrow> Some (None, s\<lparr>dq_used := dq_used s - 1\<rparr>)))"

definition dequeue ::
    "('e disp_queue \<Rightarrow> 'e disp_queue) \<Rightarrow> bool \<Rightarrow> bool \<Rightarrow> 'e disp_queue
     \<Rightarrow> ('e option \<times> 'e disp_queue) ub" where
  "dequeue wait hup hup' s =
     (if hup then Some (None, s)
      else (case slot_index (dq_last s) s of
          None \<Rightarrow> None
        | Some n \<Rightarrow>
            if dq_q s ! n = None then
              let s1 = wait s in if hup' then Some (None, s1) else take_slot s1
            else take_slot s))"

text \<open>\<open>increase_queue_depth\<close>; the argument \<open>ok\<close> says whether \<open>realloc\<close> succeeds. Its result is not
  tested, so after a failure the new slots are written through NULL.\<close>

definition increase_queue_depth :: "bool \<Rightarrow> nat \<Rightarrow> 'e disp_queue \<Rightarrow> 'e disp_queue ub" where
  "increase_queue_depth ok depth s =
     (if depth > dq_depth s then
        if \<not> ok then None
        else Some (s\<lparr>dq_q := dq_q s @ replicate (depth - dq_depth s) None, dq_depth := depth\<rparr>)
      else Some s)"

definition resume_queue :: "'e disp_queue \<Rightarrow> 'e disp_queue" where
  "resume_queue s = s\<lparr>dq_suspended := False\<rparr>"

text \<open>The report of \<open>write_queue_state\<close>, line by line, and the events \<open>destroy_queue\<close> frees.\<close>

definition yes_no :: "bool \<Rightarrow> string" where
  "yes_no b = (if b then ''yes'' else ''no'')"

definition write_queue_state :: "'e disp_queue \<Rightarrow> string list" where
  "write_queue_state s =
     [''current plugin queue depth = '' @ show_nat (unat (dq_used s)),
      ''max plugin queue depth used = '' @ show_nat (unat (dq_max_used s)),
      ''plugin queue size = '' @ show_nat (dq_depth s),
      ''plugin queue overflow detected = '' @ yes_no (dq_overflowed s),
      ''plugin queueing suspended = '' @ yes_no (dq_suspended s)]"

definition destroy_queue :: "'e disp_queue \<Rightarrow> 'e list ub" where
  "destroy_queue s =
     (if dq_depth s \<le> length (dq_q s)
      then Some (map the (filter (\<lambda>x. x \<noteq> None) (take (dq_depth s) (dq_q s)))) else None)"

section \<open>Abstraction and invariant\<close>

text \<open>The slots in the order the consumer visits them, and the events in that order.\<close>

definition ring :: "'e disp_queue \<Rightarrow> 'e option list" where
  "ring s = rotate (dq_last s) (dq_q s)"

definition queued :: "'e disp_queue \<Rightarrow> 'e list" where
  "queued s = map the (filter (\<lambda>x. x \<noteq> None) (ring s))"

text \<open>The events the consumer can take before it meets an empty slot.\<close>

definition deliverable :: "'e disp_queue \<Rightarrow> 'e list" where
  "deliverable s = map the (takeWhile (\<lambda>x. x \<noteq> None) (ring s))"

definition dq_inv :: "'e disp_queue \<Rightarrow> bool" where
  "dq_inv s \<longleftrightarrow>
     length (dq_q s) = dq_depth s \<and> 0 < dq_depth s \<and> dq_depth s < 2 ^ 32 \<and> dq_last s < dq_depth s \<and>
     dq_next s = (dq_last s + length (queued s)) mod dq_depth s \<and>
     ring s = map Some (queued s) @ replicate (dq_depth s - length (queued s)) None"

text \<open>The counters reported to the administrator agree with the ring.\<close>

definition dq_counted :: "'e disp_queue \<Rightarrow> bool" where
  "dq_counted s \<longleftrightarrow> unat (dq_used s) = length (queued s) \<and> dq_used s \<le> dq_max_used s"

text \<open>The two critical sections as partial operations: refuse on a full, on an empty queue.\<close>

definition try_enqueue :: "'e \<Rightarrow> 'e disp_queue \<Rightarrow> 'e disp_queue option" where
  "try_enqueue e s = (case enqueue_attempt e s of Some (Inr s') \<Rightarrow> Some s' | _ \<Rightarrow> None)"

definition try_dequeue :: "'e disp_queue \<Rightarrow> ('e \<times> 'e disp_queue) option" where
  "try_dequeue s =
     (case dequeue (\<lambda>s. s) False False s of Some (Some e, s') \<Rightarrow> Some (e, s') | _ \<Rightarrow> None)"

text \<open>The queue the producer finds on its pass number \<open>i\<close>, after \<open>i\<close> sleeps.\<close>

primrec after_sleeps ::
    "(nat \<Rightarrow> 'e disp_queue \<Rightarrow> 'e disp_queue) \<Rightarrow> nat \<Rightarrow> 'e disp_queue \<Rightarrow> 'e disp_queue" where
  "after_sleeps sleep 0 s = s"
| "after_sleeps sleep (Suc i) s = sleep i (after_sleeps sleep i s)"

definition has_room :: "'e disp_queue \<Rightarrow> bool" where
  "has_room s \<longleftrightarrow> length (queued s) < dq_depth s"

text \<open>No event lies before the consumer's position in the array.\<close>

definition unwrapped :: "'e disp_queue \<Rightarrow> bool" where
  "unwrapped s \<longleftrightarrow> dq_last s + length (queued s) < dq_depth s"

section \<open>Lemmas\<close>

subsection \<open>Rings\<close>

lemma rotate_update:
  assumes "k < length xs"
  shows "rotate m (xs[(m + k) mod length xs := v]) = (rotate m xs)[k := v]"
proof (rule nth_equalityI)
  fix i assume "i < length (rotate m (xs[(m + k) mod length xs := v]))"
  then have i: "i < length xs" by simp
  have "(m + k) mod length xs = (m + i) mod length xs \<longleftrightarrow> k = i"
    using assms i mod_add_left_inj by blast
  moreover have less: "(m + i) mod length xs < length xs"
    using i by (intro mod_less_divisor) auto
  ultimately show "rotate m (xs[(m + k) mod length xs := v]) ! i = (rotate m xs)[k := v] ! i"
    using assms i less by (cases "k = i") (auto simp: nth_rotate)
qed simp

lemma rotate_Suc_mod: "rotate (Suc m mod length xs) xs = rotate1 (rotate m xs)"
  by (metis rotate_Suc rotate_conv_mod)

lemma filter_ring_shape [simp]:
  "map the (filter (\<lambda>x. x \<noteq> None) (map Some xs @ replicate k None)) = xs"
  by (induction xs) simp_all

lemma queued_eqI: "ring s = map Some xs @ replicate k None \<Longrightarrow> queued s = xs"
  unfolding queued_def by simp

lemma dq_invD:
  assumes "dq_inv s"
  shows "length (dq_q s) = dq_depth s" "0 < dq_depth s" "dq_depth s < 2 ^ 32"
    "dq_last s < dq_depth s" "dq_next s = (dq_last s + length (queued s)) mod dq_depth s"
    "ring s = map Some (queued s) @ replicate (dq_depth s - length (queued s)) None"
  using assms unfolding dq_inv_def by blast+

lemma ring_nth:
  "length (dq_q s) = dq_depth s \<Longrightarrow> i < dq_depth s \<Longrightarrow>
   ring s ! i = dq_q s ! ((dq_last s + i) mod dq_depth s)"
  by (simp add: ring_def nth_rotate)

lemma length_queued:
  assumes "dq_inv s"
  shows "length (queued s) \<le> dq_depth s"
proof -
  have "length (queued s) \<le> length (ring s)"
    by (simp add: queued_def)
  also have "\<dots> = dq_depth s"
    using dq_invD(1) [OF assms] by (simp add: ring_def)
  finally show ?thesis .
qed

lemma dq_invI:
  assumes "length (dq_q s) = dq_depth s" "0 < dq_depth s" "dq_depth s < 2 ^ 32"
    and "dq_last s < dq_depth s" "dq_next s = (dq_last s + length xs) mod dq_depth s"
    and "ring s = map Some xs @ replicate (dq_depth s - length xs) None"
  shows "dq_inv s" "queued s = xs"
proof -
  show "queued s = xs" by (rule queued_eqI [OF assms(6)])
  with assms show "dq_inv s" by (simp add: dq_inv_def)
qed

lemma slot_index_inv: "dq_inv s \<Longrightarrow> slot_index i s = Some (i mod dq_depth s)"
  using mod_less_divisor [of "dq_depth s" i] dq_invD(1,2) [of s]
  by (auto simp: slot_index_def simp del: mod_less_divisor)

lemma slot_next_inv:
  assumes inv: "dq_inv s"
  shows "dq_q s ! dq_next s = None \<longleftrightarrow> length (queued s) < dq_depth s"
proof (cases "length (queued s) < dq_depth s")
  case True
  have "dq_q s ! dq_next s = ring s ! length (queued s)"
    using ring_nth [OF dq_invD(1) [OF inv] True] dq_invD(5) [OF inv] by simp
  with True show ?thesis by (simp add: dq_invD(6) [OF inv] nth_append)
next
  case False
  then have k: "length (queued s) = dq_depth s" using length_queued [OF inv] by simp
  have "dq_q s ! dq_next s = ring s ! 0"
    using ring_nth [OF dq_invD(1,2) [OF inv]] dq_invD(5) [OF inv] k by simp
  also have "\<dots> = Some (queued s ! 0)"
    using k dq_invD(2) [OF inv] by (subst dq_invD(6) [OF inv]) (simp add: nth_append)
  finally show ?thesis using False by simp
qed

lemma next_less: "dq_inv s \<Longrightarrow> dq_next s < dq_depth s"
  using dq_invD(2,5) [of s] by simp

lemma slot_last_inv:
  assumes inv: "dq_inv s"
  shows "dq_q s ! dq_last s = (case queued s of [] \<Rightarrow> None | e # _ \<Rightarrow> Some e)"
proof -
  have "dq_q s ! dq_last s = ring s ! 0"
    using ring_nth [OF dq_invD(1,2) [OF inv]] dq_invD(4) [OF inv] by simp
  then show ?thesis
    using dq_invD(2) [OF inv]
    by (cases "queued s") (simp_all add: dq_invD(6) [OF inv] nth_append)
qed

subsection \<open>The critical sections\<close>

lemma enqueue_attempt_full:
  "dq_inv s \<Longrightarrow> length (queued s) = dq_depth s \<Longrightarrow> enqueue_attempt e s = Some (Inl s)"
  using slot_next_inv [of s] next_less [of s]
  by (auto simp: enqueue_attempt_def slot_index_inv)

lemma list_update_shape:
  assumes "length xs < n"
  shows "(map Some xs @ replicate (n - length xs) None)[length xs := Some e]
    = map Some (xs @ [e]) @ replicate (n - length (xs @ [e])) None"
proof -
  have "n - length xs = Suc (n - Suc (length xs))" using assms by simp
  then show ?thesis by (simp add: list_update_append)
qed

lemma enqueue_attempt_room:
  assumes inv: "dq_inv s" and room: "length (queued s) < dq_depth s"
  obtains s' where "enqueue_attempt e s = Some (Inr s')" and "dq_inv s'"
    and "queued s' = queued s @ [e]" "dq_depth s' = dq_depth s" "dq_counted s \<longrightarrow> dq_counted s'"
proof -
  note I = dq_invD [OF inv]
  let ?used = "dq_used s + 1" and ?n = "dq_next s"
  define s' where "s' = s\<lparr>dq_q := (dq_q s)[?n := Some e], dq_next := (?n + 1) mod dq_depth s,
      dq_used := ?used, dq_max_used := (if ?used > dq_max_used s then ?used else dq_max_used s)\<rparr>"
  have attempt: "enqueue_attempt e s = Some (Inr s')"
    using slot_next_inv [OF inv] next_less [OF inv] room
    by (simp add: enqueue_attempt_def slot_index_inv [OF inv] s'_def Let_def)
  have "ring s' = (ring s)[length (queued s) := Some e]"
    using rotate_update [of "length (queued s)" "dq_q s" "dq_last s" "Some e"] room I(1,5)
    by (simp add: ring_def s'_def)
  then have r: "ring s' = map Some (queued s @ [e]) @ replicate (dq_depth s' - length (queued s @ [e])) None"
    using list_update_shape [OF room] I(6) by (simp add: s'_def)
  have nx: "(?n + 1) mod dq_depth s = (dq_last s + length (queued s @ [e])) mod dq_depth s"
    using I(5) by (simp add: mod_Suc_eq)
  have "dq_inv s'" "queued s' = queued s @ [e]"
    by (rule dq_invI [OF _ _ _ _ _ r]; insert I(1-4) nx, simp add: s'_def)+
  moreover have "dq_counted s'" if "dq_counted s"
    using that \<open>queued s' = _\<close> I(3) room
    by (auto simp: dq_counted_def s'_def unat_word_ariths)
  ultimately show ?thesis using attempt that by (simp add: s'_def)
qed

lemma take_slot_nonempty:
  assumes inv: "dq_inv s" and q: "queued s = e # es"
  obtains s' where "take_slot s = Some (Some e, s')" and "dq_inv s'"
    and "queued s' = es" "dq_depth s' = dq_depth s" "dq_counted s \<longrightarrow> dq_counted s'"
proof -
  note I = dq_invD [OF inv]
  define s' where "s' = s\<lparr>dq_q := (dq_q s)[dq_last s := None],
      dq_last := (dq_last s + 1) mod dq_depth s, dq_used := dq_used s - 1\<rparr>"
  have take: "take_slot s = Some (Some e, s')"
    using slot_last_inv [OF inv] I(4) q
    by (simp add: take_slot_def slot_index_inv [OF inv] s'_def)
  have len: "Suc (length es) \<le> dq_depth s" using length_queued [OF inv] q by simp
  have "rotate (dq_last s) ((dq_q s)[dq_last s := None]) = (ring s)[0 := None]"
    using rotate_update [of 0 "dq_q s" "dq_last s" None] I(1,2,4) by (simp add: ring_def)
  also have "\<dots> = None # map Some es @ replicate (dq_depth s - Suc (length es)) None"
    using I(6) q by simp
  finally have "ring s' = (map Some es @ replicate (dq_depth s - Suc (length es)) None) @ [None]"
    using I(1) rotate_Suc_mod [of "dq_last s" "(dq_q s)[dq_last s := None]"]
    by (simp add: ring_def s'_def)
  moreover have "replicate (dq_depth s - Suc (length es)) None @ [None] = replicate (dq_depth s - length es) (None :: 'a option)"
    using len by (metis Suc_diff_Suc Suc_le_lessD replicate_Suc replicate_append_same)
  ultimately have r: "ring s' = map Some es @ replicate (dq_depth s' - length es) None"
    by (simp add: s'_def)
  have nx: "dq_next s = ((dq_last s + 1) mod dq_depth s + length es) mod dq_depth s"
    using I(5) q by (simp add: mod_add_left_eq)
  have "dq_inv s'" "queued s' = es"
    by (rule dq_invI [OF _ _ _ _ _ r]; insert I(1-4) nx, simp add: s'_def)+
  moreover have "dq_counted s'" if counted: "dq_counted s"
  proof -
    have pos: "dq_used s \<noteq> 0" using counted q by (auto simp: dq_counted_def)
    have "unat (dq_used s - 1) = length es"
      using counted q unat_minus_one [OF pos] by (simp add: dq_counted_def)
    with counted q \<open>queued s' = es\<close> show ?thesis
      by (simp add: dq_counted_def s'_def word_le_nat_alt)
  qed
  ultimately show ?thesis using take that by (simp add: s'_def)
qed

lemma take_slot_empty:
  assumes "dq_inv s" and "queued s = []"
  shows "take_slot s = Some (None, s\<lparr>dq_used := dq_used s - 1\<rparr>)"
  using slot_last_inv [OF assms(1)] dq_invD(4) [OF assms(1)] assms(2)
  by (simp add: take_slot_def slot_index_inv [OF assms(1)])

lemma ring_more [simp]:
  "ring (s\<lparr>dq_used := u\<rparr>) = ring s" "ring (s\<lparr>dq_suspended := b\<rparr>) = ring s"
  "ring (s\<lparr>dq_full_warning := w\<rparr>) = ring s" "ring (s\<lparr>dq_overflowed := b\<rparr>) = ring s"
  "ring (s\<lparr>dq_log := l\<rparr>) = ring s"
  by (simp_all add: ring_def)

lemma queued_ring_cong: "ring s = ring t \<Longrightarrow> queued s = queued t"
  by (simp add: queued_def)

text \<open>Steps that touch no slot keep the ring.\<close>

lemma dq_inv_cong:
  assumes "dq_inv s" "dq_q t = dq_q s" "dq_next t = dq_next s" "dq_last t = dq_last s"
    "dq_depth t = dq_depth s"
  shows "dq_inv t" "queued t = queued s"
proof -
  have "ring t = ring s" using assms by (simp add: ring_def)
  then show "queued t = queued s" by (rule queued_ring_cong)
  with \<open>ring t = ring s\<close> assms show "dq_inv t" by (simp add: dq_inv_def)
qed

lemma do_overflow_action_frame:
  "dq_q (do_overflow_action f a s) = dq_q s \<and> dq_next (do_overflow_action f a s) = dq_next s
   \<and> dq_last (do_overflow_action f a s) = dq_last s \<and> dq_depth (do_overflow_action f a s) = dq_depth s"
  by (cases a) (simp_all add: do_overflow_action_def Let_def)

section \<open>The queue as a bounded FIFO\<close>

lemma try_enqueue_full:
  "dq_inv s \<Longrightarrow> length (queued s) = dq_depth s \<Longrightarrow> try_enqueue e s = None"
  by (simp add: try_enqueue_def enqueue_attempt_full)

lemma try_enqueue_room:
  assumes "dq_inv s" "length (queued s) < dq_depth s"
  shows "\<exists>s'. try_enqueue e s = Some s' \<and> dq_inv s' \<and> queued s' = queued s @ [e]
    \<and> dq_depth s' = dq_depth s"
  by (rule enqueue_attempt_room [OF assms, of e]) (simp add: try_enqueue_def)

lemma dequeue_no_wait:
  "dq_inv s \<Longrightarrow> dequeue (\<lambda>s. s) False False s = take_slot s"
  by (simp add: dequeue_def slot_index_inv Let_def)

lemma try_dequeue_empty: "dq_inv s \<Longrightarrow> queued s = [] \<Longrightarrow> try_dequeue s = None"
  by (simp add: try_dequeue_def dequeue_no_wait take_slot_empty)

lemma try_dequeue_nonempty:
  assumes "dq_inv s" "queued s = e # es"
  shows "\<exists>s'. try_dequeue s = Some (e, s') \<and> dq_inv s' \<and> queued s' = es \<and> dq_depth s' = dq_depth s"
  by (rule take_slot_nonempty [OF assms])
    (simp add: try_dequeue_def dequeue_no_wait [OF assms(1)])

interpretation dq: bounded_fifo dq_inv queued dq_depth "\<lambda>_ _. True" try_enqueue try_dequeue
proof unfold_locales
  fix s s' :: "'e disp_queue" and x :: 'e
  assume inv: "dq_inv s"
  show "length (queued s) \<le> dq_depth s" by (rule length_queued [OF inv])
  show "length (queued s) = dq_depth s \<Longrightarrow> try_enqueue x s = None"
    by (rule try_enqueue_full [OF inv])
  show "length (queued s) < dq_depth s \<Longrightarrow> try_enqueue x s \<noteq> None"
    using try_enqueue_room [OF inv, of x] by auto
  show "dq_inv s' \<and> queued s' = queued s @ [x] \<and> dq_depth s' = dq_depth s"
    if "try_enqueue x s = Some s'"
    using that try_enqueue_room [OF inv, of x] try_enqueue_full [OF inv, of x] length_queued [OF inv]
    by (cases "length (queued s) < dq_depth s") auto
  show "queued s = [] \<Longrightarrow> try_dequeue s = None"
    by (rule try_dequeue_empty [OF inv])
  show "queued s \<noteq> [] \<Longrightarrow> try_dequeue s \<noteq> None"
    using try_dequeue_nonempty [OF inv] by (cases "queued s") auto
  show "dq_inv s' \<and> queued s = x # queued s' \<and> dq_depth s' = dq_depth s"
    if "try_dequeue s = Some (x, s')"
    using that try_dequeue_nonempty [OF inv] try_dequeue_empty [OF inv]
    by (cases "queued s") auto
qed

section \<open>Producer, consumer and administrator interleaved\<close>

text \<open>
  The steps of the whole system on the queue, with the events stored and the events delivered
  so far. A consumer may wake up without an event (\<open>nudge_queue\<close>, a spurious wake-up): that is
  the step \<open>wake\<close>.
\<close>

type_synonym 'e disp_sys = "'e disp_queue \<times> 'e list \<times> 'e list"

inductive disp_step :: "'e disp_sys \<Rightarrow> 'e disp_sys \<Rightarrow> bool" where
  put: "enqueue_attempt e s = Some (Inr s') \<Longrightarrow> disp_step (s, ins, outs) (s', ins @ [e], outs)"
| overflow: "disp_step (s, ins, outs) (do_overflow_action fork_ok action s, ins, outs)"
| get: "take_slot s = Some (Some e, s') \<Longrightarrow> disp_step (s, ins, outs) (s', ins, outs @ [e])"
| wake: "take_slot s = Some (None, s') \<Longrightarrow> disp_step (s, ins, outs) (s', ins, outs)"
| resume: "disp_step (s, ins, outs) (resume_queue s, ins, outs)"
| reset: "disp_step (s, ins, outs) (reset_suspended s, ins, outs)"

inductive_cases disp_stepE: "disp_step (s, ins, outs) t"

inductive disp_reach :: "nat \<Rightarrow> 'e disp_sys \<Rightarrow> bool" for depth where
  start: "init_queue True depth s0 = (rc, s) \<Longrightarrow> disp_reach depth (s, [], [])"
| more: "disp_reach depth x \<Longrightarrow> disp_step x y \<Longrightarrow> disp_reach depth y"

definition disp_ok :: "nat \<Rightarrow> 'e disp_sys \<Rightarrow> bool" where
  "disp_ok depth x \<longleftrightarrow>
     (case x of (s, ins, outs) \<Rightarrow> dq_inv s \<and> dq_depth s = depth \<and> ins = outs @ queued s)"

lemma init_queue_inv:
  assumes "0 < depth" "depth < 2 ^ 32" "init_queue True depth s0 = (rc, s)"
  shows "dq_inv s" "queued s = []" "dq_counted s" "dq_depth s = depth"
proof -
  have s: "dq_q s = replicate depth None" "dq_next s = 0" "dq_last s = 0" "dq_depth s = depth"
    "dq_used s = 0"
    using assms(3) by (auto simp: init_queue_def Let_def)
  then have "ring s = map Some [] @ replicate (dq_depth s - length []) None"
    by (simp add: ring_def)
  with s assms show "dq_inv s" "queued s = []"
    using dq_invI [of s "[]"] by simp_all
  with s show "dq_counted s" "dq_depth s = depth" by (simp_all add: dq_counted_def)
qed

lemma put_ok:
  assumes "dq_inv s" "enqueue_attempt e s = Some (Inr s')"
  shows "dq_inv s' \<and> queued s' = queued s @ [e] \<and> dq_depth s' = dq_depth s"
  using dq.push_Some [OF assms(1), of e s'] assms(2) by (simp add: try_enqueue_def)

lemma get_ok:
  assumes "dq_inv s" "take_slot s = Some (Some e, s')"
  shows "dq_inv s' \<and> queued s = e # queued s' \<and> dq_depth s' = dq_depth s"
  using dq.pop_Some [OF assms(1), of e s'] assms
  by (simp add: try_dequeue_def dequeue_no_wait)

lemma wake_ok:
  assumes "dq_inv s" "take_slot s = Some (None, s')"
  shows "dq_inv s' \<and> queued s' = queued s \<and> dq_depth s' = dq_depth s"
proof (cases "queued s")
  case Nil
  then have "s' = s\<lparr>dq_used := dq_used s - 1\<rparr>"
    using take_slot_empty [OF assms(1)] assms(2) by simp
  then show ?thesis using dq_inv_cong [OF assms(1), of s'] by simp
next
  case (Cons e es)
  show ?thesis by (rule take_slot_nonempty [OF assms(1) Cons]) (simp add: assms(2))
qed

lemma disp_step_ok:
  assumes "disp_ok depth x" "disp_step x y"
  shows "disp_ok depth y"
  using assms(2,1)
proof (induction rule: disp_step.induct)
  case (put e s s' ins outs)
  then show ?case using put_ok [of s e s'] by (simp add: disp_ok_def)
next
  case (overflow s ins outs fork_ok action)
  then show ?case
    using dq_inv_cong [of s "do_overflow_action fork_ok action s"]
      do_overflow_action_frame [of fork_ok action s]
    by (simp add: disp_ok_def)
next
  case (get s e s' ins outs)
  then show ?case using get_ok [of s e s'] by (simp add: disp_ok_def)
next
  case (wake s s' ins outs)
  then show ?case using wake_ok [of s s'] by (simp add: disp_ok_def)
next
  case (resume s ins outs)
  then show ?case
    using dq_inv_cong [of s "resume_queue s"] by (simp add: disp_ok_def resume_queue_def)
next
  case (reset s ins outs)
  then show ?case
    using dq_inv_cong [of s "reset_suspended s"] by (simp add: disp_ok_def reset_suspended_def)
qed

lemma disp_reach_ok:
  assumes "0 < depth" "depth < 2 ^ 32" "disp_reach depth x"
  shows "disp_ok depth x"
  using assms(3)
proof (induction rule: disp_reach.induct)
  case (start s0 rc s)
  then show ?case using init_queue_inv [OF assms(1,2) start] by (simp add: disp_ok_def)
next
  case (more x y)
  then show ?case by (blast intro: disp_step_ok)
qed

section \<open>Retries and growth\<close>

lemma enqueue_attempt_cases:
  assumes "dq_inv s"
  shows "enqueue_attempt e s = (if has_room s then map_option Inr (try_enqueue e s) else Some (Inl s))"
proof (cases "has_room s")
  case True
  then have "length (queued s) < dq_depth s" by (simp add: has_room_def)
  with assms show ?thesis
    by (rule enqueue_attempt_room [where e = e]) (simp add: True try_enqueue_def)
next
  case False
  then have "length (queued s) = dq_depth s"
    using length_queued [OF assms] by (simp add: has_room_def)
  with False show ?thesis using enqueue_attempt_full [OF assms] by simp
qed

lemma enqueue_retry_find:
  assumes "\<forall>i < 4. dq_inv (after_sleeps sleep i s)" and "k \<le> 4"
  shows "enqueue_retry sleep f a e k (after_sleeps sleep k s) =
    (case find (\<lambda>i. has_room (after_sleeps sleep i s)) [k..<4] of
       Some i \<Rightarrow> map_option (\<lambda>s'. (0, False, s')) (try_enqueue e (after_sleeps sleep i s))
     | None \<Rightarrow> Some (-1, True, do_overflow_action f a (after_sleeps sleep 4 s)))"
  using assms(2)
proof (induction rule: inc_induct)
  case base
  show ?case by (simp add: enqueue_retry.simps)
next
  case (step k)
  have inv: "dq_inv (after_sleeps sleep k s)" using assms(1) step.hyps by simp
  have upt: "[k..<4] = k # [Suc k..<4]" using step.hyps by (simp add: upt_conv_Cons)
  show ?case
  proof (cases "has_room (after_sleeps sleep k s)")
    case True
    then obtain s' where "try_enqueue e (after_sleeps sleep k s) = Some s'"
      using dq.push_room [OF inv] by (auto simp: has_room_def)
    then show ?thesis using True step.hyps
      by (simp add: enqueue_retry.simps [of _ _ _ _ k] enqueue_attempt_cases [OF inv] upt)
  next
    case False
    then show ?thesis using step
      by (simp add: enqueue_retry.simps [of _ _ _ _ k] enqueue_attempt_cases [OF inv] upt)
  qed
qed

lemma rotate_append_shift:
  assumes "m < length xs"
  shows "rotate m (xs @ ys) = drop m xs @ ys @ take m xs"
  using assms by (simp add: rotate_drop_take)

lemma ring_increase:
  assumes "dq_inv s" "dq_depth s < depth"
    and "increase_queue_depth True depth s = Some t"
  shows "ring t = drop (dq_last s) (dq_q s) @ replicate (depth - dq_depth s) None @ take (dq_last s) (dq_q s)"
  using assms(2,3) dq_invD(1,4) [OF assms(1)]
  by (auto simp: ring_def increase_queue_depth_def rotate_append_shift)

lemma ring_split:
  assumes "dq_inv s"
  shows "drop (dq_last s) (dq_q s) @ take (dq_last s) (dq_q s) =
    map Some (queued s) @ replicate (dq_depth s - length (queued s)) None"
  using dq_invD(1,4,6) [OF assms] by (simp add: ring_def rotate_drop_take)

lemma append_eq_shape_front:
  assumes "xs @ ys = map Some zs @ replicate k None" "length zs \<le> length xs"
  shows "xs = map Some zs @ replicate (length xs - length zs) None"
    and "ys = replicate (length ys) None"
proof -
  have len: "length xs + length ys = length zs + k"
    using arg_cong [OF assms(1), of length] by simp
  have "xs = take (length xs) (map Some zs @ replicate k None)"
    using arg_cong [OF assms(1), of "take (length xs)"] by simp
  then show "xs = map Some zs @ replicate (length xs - length zs) None"
    using assms(2) len by simp
  have "ys = drop (length xs) (map Some zs @ replicate k None)"
    using arg_cong [OF assms(1), of "drop (length xs)"] by simp
  then show "ys = replicate (length ys) None"
    using assms(2) len by simp
qed

lemma append_eq_shape_back:
  assumes "xs @ ys = map Some zs @ replicate k None" "length xs < length zs"
  shows "xs = map Some (take (length xs) zs)"
  using arg_cong [OF assms(1), of "take (length xs)"] assms(2) by (simp add: take_map)

lemma increase_unwrapped:
  assumes inv: "dq_inv s" and un: "unwrapped s" and d: "dq_depth s < depth" "depth < 2 ^ 32"
    and inc: "increase_queue_depth True depth s = Some t"
  shows "dq_inv t" "queued t = queued s"
proof -
  note I = dq_invD [OF inv]
  let ?xs = "drop (dq_last s) (dq_q s)" and ?ys = "take (dq_last s) (dq_q s)"
  have len: "length ?xs = dq_depth s - dq_last s" "length ?ys = dq_last s" using I(1,4) by simp_all
  have le: "length (queued s) \<le> length ?xs"
    using un I(1,4) by (simp add: unwrapped_def)
  note shape = append_eq_shape_front [OF ring_split [OF inv] le, unfolded len]
  have t: "dq_depth t = depth" "dq_last t = dq_last s" "dq_next t = dq_next s"
    "length (dq_q t) = depth"
    using d I(1) inc by (auto simp: increase_queue_depth_def)
  have "ring t = map Some (queued s) @ replicate (dq_depth s - dq_last s - length (queued s)) None
      @ replicate (depth - dq_depth s) None @ replicate (dq_last s) None"
    using shape by (simp only: ring_increase [OF inv d(1) inc]) simp
  also have "\<dots> = map Some (queued s) @ replicate (dq_depth t - length (queued s)) None"
    using un d t by (simp add: unwrapped_def flip: replicate_add)
  finally have r: "ring t = \<dots>" .
  have nx: "dq_next t = (dq_last t + length (queued s)) mod dq_depth t"
    using I(5) un d t by (simp add: unwrapped_def)
  show "dq_inv t" "queued t = queued s"
    by (rule dq_invI [OF _ _ _ _ nx r]; insert t d I(2,4), simp)+
qed

section \<open>Whole calls\<close>

text \<open>What the other threads do while one sleeps or waits: any steps of the system. From a reachable
  state they lead to another, with more events stored and delivered.\<close>

definition others :: "nat \<Rightarrow> ('e disp_queue \<Rightarrow> 'e disp_queue) \<Rightarrow> bool" where
  "others depth f \<longleftrightarrow> (\<forall>s ins outs. disp_reach depth (s, ins, outs) \<longrightarrow>
     (\<exists>ins' outs'. disp_reach depth (f s, ins @ ins', outs @ outs')))"

lemma othersE:
  assumes "others depth f" "disp_reach depth (s, ins, outs)"
  obtains ins' outs' where "disp_reach depth (f s, ins @ ins', outs @ outs')"
  using assms unfolding others_def by blast

lemma others_id: "others depth (\<lambda>s. s)"
  unfolding others_def by (metis append_Nil2)

lemma disp_reach_inv: "0 < depth \<Longrightarrow> depth < 2 ^ 32 \<Longrightarrow> disp_reach depth (s, ins, outs) \<Longrightarrow> dq_inv s"
  using disp_reach_ok [of depth "(s, ins, outs)"] by (simp add: disp_ok_def)

lemma enqueue_retry_reach:
  assumes d: "0 < depth" "depth < 2 ^ 32" and o: "\<And>i. others depth (sleep i)"
    and "disp_reach depth (s, ins, outs)"
  shows "\<exists>rc freed s' ins' outs'. enqueue_retry sleep fork_ok action e k s = Some (rc, freed, s')
    \<and> (rc = 0 \<and> \<not> freed \<or> rc = - 1 \<and> freed)
    \<and> disp_reach depth (s', ins @ ins' @ (if freed then [] else [e]), outs @ outs')"
  using assms(4)
proof (induction "4 - k" arbitrary: k s ins outs)
  case 0
  then have "enqueue_retry sleep fork_ok action e k s = Some (- 1, True, do_overflow_action fork_ok action s)"
    by (subst enqueue_retry.simps) simp
  moreover have "disp_reach depth (do_overflow_action fork_ok action s, ins @ [] @ [], outs @ [])"
    using disp_reach.more [OF 0(2) disp_step.overflow] by simp
  ultimately show ?case
    by (intro exI [of _ "- 1"] exI [of _ True] exI [of _ "do_overflow_action fork_ok action s"] exI [of _ "[]"]) simp
next
  case (Suc n)
  note inv = disp_reach_inv [OF d Suc.prems]
  have k: "\<not> 3 < k" using Suc(2) by simp
  show ?case
  proof (cases "has_room s")
    case True
    then obtain s' where s': "enqueue_attempt e s = Some (Inr s')"
      using enqueue_attempt_cases [OF inv, of e] dq.push_room [OF inv, of e] by (auto simp: has_room_def)
    then have "enqueue_retry sleep fork_ok action e k s = Some (0, False, s')"
      using k by (subst enqueue_retry.simps) simp
    moreover have "disp_reach depth (s', ins @ [] @ [e], outs @ [])"
      using disp_reach.more [OF Suc.prems disp_step.put [OF s']] by simp
    ultimately show ?thesis
      by (intro exI [of _ 0] exI [of _ False] exI [of _ s'] exI [of _ "[]"]) simp
  next
    case False
    then have "enqueue_retry sleep fork_ok action e k s = enqueue_retry sleep fork_ok action e (Suc k) (sleep k s)"
      using k enqueue_attempt_cases [OF inv, of e] by (subst enqueue_retry.simps) simp
    moreover obtain ins1 outs1 where "disp_reach depth (sleep k s, ins @ ins1, outs @ outs1)"
      using othersE [OF o Suc.prems] .
    moreover have "n = 4 - Suc k" using Suc(2) by simp
    note Suc.hyps(1) [OF this \<open>disp_reach depth (sleep k s, ins @ ins1, outs @ outs1)\<close>]
    then obtain rc freed s' ins' outs' where
      "enqueue_retry sleep fork_ok action e (Suc k) (sleep k s) = Some (rc, freed, s')"
      "rc = 0 \<and> \<not> freed \<or> rc = - 1 \<and> freed"
      "disp_reach depth (s', ins @ (ins1 @ ins') @ (if freed then [] else [e]), outs @ (outs1 @ outs'))"
      unfolding append_assoc by blast
    ultimately show ?thesis by metis
  qed
qed

lemma take_slot_reach:
  assumes d: "0 < depth" "depth < 2 ^ 32" and "disp_reach depth (s, ins, outs)"
  shows "\<exists>r s'. take_slot s = Some (r, s') \<and> disp_reach depth (s', ins, outs @ (case r of Some e \<Rightarrow> [e] | None \<Rightarrow> []))"
proof -
  note inv = disp_reach_inv [OF d assms(3)]
  obtain r s' where t: "take_slot s = Some (r, s')"
    by (cases "dq_q s ! (dq_last s mod dq_depth s)") (auto simp: take_slot_def slot_index_inv [OF inv])
  have "disp_step (s, ins, outs) (s', ins, outs @ (case r of Some e \<Rightarrow> [e] | None \<Rightarrow> []))"
    using t by (cases r) (auto intro: disp_step.get disp_step.wake)
  with t disp_reach.more [OF assms(3)] show ?thesis by blast
qed

lemma dequeue_reach:
  assumes d: "0 < depth" "depth < 2 ^ 32" and o: "others depth wait" and "disp_reach depth (s, ins, outs)"
  shows "\<exists>r s' ins' outs'. dequeue wait hup hup' s = Some (r, s')
    \<and> disp_reach depth (s', ins @ ins', outs @ outs' @ (case r of Some e \<Rightarrow> [e] | None \<Rightarrow> []))"
proof -
  note inv = disp_reach_inv [OF d assms(4)]
  obtain ins1 outs1 where w: "disp_reach depth (wait s, ins @ ins1, outs @ outs1)"
    using othersE [OF o assms(4)] .
  obtain r1 s1 where t1: "take_slot s = Some (r1, s1)" "disp_reach depth (s1, ins @ [], outs @ [] @ (case r1 of Some e \<Rightarrow> [e] | None \<Rightarrow> []))"
    using take_slot_reach [OF d assms(4)] by auto
  obtain r2 s2 where t2: "take_slot (wait s) = Some (r2, s2)" "disp_reach depth (s2, ins @ ins1, outs @ outs1 @ (case r2 of Some e \<Rightarrow> [e] | None \<Rightarrow> []))"
    using take_slot_reach [OF d w] by auto
  have "dequeue wait hup hup' s \<in> {Some (None, s), Some (None, wait s), take_slot (wait s), take_slot s}"
    by (simp add: dequeue_def slot_index_inv [OF inv] Let_def)
  then consider "dequeue wait hup hup' s = Some (None, s)" | "dequeue wait hup hup' s = Some (None, wait s)"
    | "dequeue wait hup hup' s = take_slot (wait s)" | "dequeue wait hup hup' s = take_slot s"
    by blast
  then show ?thesis
  proof cases
    case 1 with assms(4) show ?thesis by (intro exI [of _ None] exI [of _ s] exI [of _ "[]"]) simp
  next
    case 2 with w show ?thesis by (intro exI [of _ None] exI [of _ "wait s"] exI [of _ ins1] exI [of _ outs1]) simp
  next
    case 3 with t2 show ?thesis by (intro exI [of _ r2] exI [of _ s2] exI [of _ ins1] exI [of _ outs1]) simp
  next
    case 4 with t1 show ?thesis by (intro exI [of _ r1] exI [of _ s1] exI [of _ "[]"]) simp
  qed
qed

section \<open>Properties\<close>

text \<open>C14: The queue between the daemon and the dispatcher thread is a FIFO under every interleaving. A
  state is reachable when critical sections of \<open>enqueue\<close> and \<open>dequeue\<close>, wake-ups without an event, overflow
  actions and administrator commands in any order lead to it from \<open>init_queue\<close>. In a reachable state
  the events delivered followed by the events still queued are exactly the events stored, in
  order, and the queue does not exceed its depth. A whole call of \<open>enqueue\<close> or \<open>dequeue\<close> from there, with
  the other threads doing any such steps while it sleeps or waits, never leaves the array and leads to
  a reachable state again: \<open>enqueue\<close> has stored its event behind the others and returned 0, or freed
  it; what \<open>dequeue\<close> returns is the next event delivered.\<close>

theorem dispatch_fifo:
  assumes "0 < depth" and "depth < 2 ^ 32" and "disp_reach depth (s, ins, outs)"
    and "\<And>i. others depth (sleep i)" and "others depth wait"
  shows "ins = outs @ queued s \<and> length (queued s) \<le> depth
    \<and> (\<exists>rc freed s' ins' outs'. enqueue sleep fork_ok action e s = Some (rc, freed, s')
        \<and> (\<not> freed \<longrightarrow> rc = 0) \<and> (freed \<longrightarrow> rc = (if dq_suspended s then 0 else - 1))
        \<and> disp_reach depth (s', ins @ ins' @ (if freed then [] else [e]), outs @ outs'))
    \<and> (\<exists>r s' ins' outs'. dequeue wait hup hup' s = Some (r, s')
        \<and> disp_reach depth (s', ins @ ins', outs @ outs' @ (case r of Some x \<Rightarrow> [x] | None \<Rightarrow> [])))"
proof (intro conjI)
  have ok: "dq_inv s" "dq_depth s = depth" "ins = outs @ queued s"
    using disp_reach_ok [OF assms(1-3)] by (simp_all add: disp_ok_def)
  then show "ins = outs @ queued s" "length (queued s) \<le> depth" using length_queued [OF ok(1)] by simp_all
  show "\<exists>rc freed s' ins' outs'. enqueue sleep fork_ok action e s = Some (rc, freed, s')
      \<and> (\<not> freed \<longrightarrow> rc = 0) \<and> (freed \<longrightarrow> rc = (if dq_suspended s then 0 else - 1))
      \<and> disp_reach depth (s', ins @ ins' @ (if freed then [] else [e]), outs @ outs')"
  proof (cases "dq_suspended s")
    case True
    then have "enqueue sleep fork_ok action e s = Some (0, True, s)" by (simp add: enqueue_def)
    with True assms(3) show ?thesis
      by (intro exI [of _ 0] exI [of _ True] exI [of _ s] exI [of _ "[]"]) simp
  next
    case False
    obtain rc freed s' ins' outs' where q: "enqueue_retry sleep fork_ok action e 0 s = Some (rc, freed, s')"
      "rc = 0 \<and> \<not> freed \<or> rc = - 1 \<and> freed"
      "disp_reach depth (s', ins @ ins' @ (if freed then [] else [e]), outs @ outs')"
      using enqueue_retry_reach [where k = 0 and sleep = sleep and fork_ok = fork_ok and action = action and e = e, OF assms(1,2,4,3)] by blast
    from False q(1) have "enqueue sleep fork_ok action e s = Some (rc, freed, s')" by (simp add: enqueue_def)
    with False q(2,3) show ?thesis
      by (intro exI [of _ rc] exI [of _ freed] exI [of _ s'] exI [of _ ins'] exI [of _ outs']) auto
  qed
  show "\<exists>r s' ins' outs'. dequeue wait hup hup' s = Some (r, s')
      \<and> disp_reach depth (s', ins @ ins', outs @ outs' @ (case r of Some x \<Rightarrow> [x] | None \<Rightarrow> []))"
    by (rule dequeue_reach [OF assms(1,2,5,3)])
qed

theorem dispatch_fifo_witness:
  "\<exists>s :: nat disp_queue. disp_reach 2 (s, [7], []) \<and> [7] = [] @ queued s
    \<and> (\<exists>r s' ins' outs'. dequeue (\<lambda>s. s) False False s = Some (r, s')
        \<and> disp_reach 2 (s', [7] @ ins', [] @ outs' @ (case r of Some x \<Rightarrow> [x] | None \<Rightarrow> [])))"
proof -
  let ?s0 = "\<lparr>dq_q = [], dq_next = 0, dq_last = 0, dq_depth = 0, dq_suspended = False, dq_used = 0,
    dq_max_used = 0, dq_overflowed = False, dq_full_warning = 0, dq_log = []\<rparr> :: nat disp_queue"
  obtain s where s: "init_queue True 2 ?s0 = (0, s)" by (simp add: init_queue_def Let_def)
  have start: "disp_reach 2 (s, [], [])" by (rule disp_reach.start [OF s])
  have "slot_index (dq_next s) s = Some 0" "dq_q s ! 0 = None"
    using s by (auto simp: init_queue_def Let_def slot_index_def)
  then obtain s' where "enqueue_attempt 7 s = Some (Inr s')"
    by (simp add: enqueue_attempt_def Let_def)
  then have "disp_step (s, [], []) (s', [] @ [7], [])" by (rule disp_step.put)
  with start have reach: "disp_reach 2 (s', [7], [])" by (auto intro: disp_reach.more)
  have "(0 :: nat) < 2" "(2 :: nat) < 2 ^ 32" by simp_all
  from dispatch_fifo [OF this reach others_id others_id, of True O_IGNORE 0 False False] reach
  show ?thesis by blast
qed

text \<open>\<open>enqueue\<close> on an active queue makes at most four passes: the event is stored on the first
  pass that finds room (return code 0), and if none of them does, it is freed, the overflow
  action runs on the queue left by the last sleep and the return code is -1.\<close>

theorem enqueue_spec:
  assumes "\<not> dq_suspended s" and "\<forall>i < 4. dq_inv (after_sleeps sleep i s)"
  shows "enqueue sleep fork_ok action e s =
    (case find (\<lambda>i. has_room (after_sleeps sleep i s)) [0..<4] of
       Some i \<Rightarrow> map_option (\<lambda>s'. (0, False, s')) (try_enqueue e (after_sleeps sleep i s))
     | None \<Rightarrow> Some (-1, True, do_overflow_action fork_ok action (after_sleeps sleep 4 s)))"
  using enqueue_retry_find [OF assms(2), of 0 fork_ok action e] assms(1)
  by (simp add: enqueue_def)

definition full_queue :: "nat disp_queue" where
  "full_queue = \<lparr>dq_q = [Some 5], dq_next = 0, dq_last = 0, dq_depth = 1, dq_suspended = False,
    dq_used = 1, dq_max_used = 1, dq_overflowed = False, dq_full_warning = 0, dq_log = []\<rparr>"

lemma full_queue_inv: "dq_inv full_queue" "\<not> has_room full_queue" "\<not> dq_suspended full_queue"
  by (simp_all add: dq_inv_def full_queue_def queued_def ring_def has_room_def)

theorem enqueue_spec_witness:
  "enqueue (\<lambda>_ s. s) True O_SUSPEND 9 full_queue =
    Some (-1, True, do_overflow_action True O_SUSPEND full_queue)"
proof -
  have id: "after_sleeps (\<lambda>_ s. s) i full_queue = full_queue" for i
    by (induction i) simp_all
  have none: "find (\<lambda>i. has_room full_queue) [0..<4] = None"
    by (simp add: find_None_iff full_queue_inv)
  show ?thesis
    using enqueue_spec [of full_queue "\<lambda>_ s. s" True O_SUSPEND 9] full_queue_inv(1,3)
    by (simp only: id) (simp add: none del: upt_Suc)
qed

text \<open>\<open>increase_queue_depth\<close> keeps the queued events and their order when the events do not
  wrap around the end of the array.\<close>

theorem increase_queue_depth_safe:
  assumes "dq_inv s" and "unwrapped s" and "dq_depth s < depth" and "depth < 2 ^ 32"
  shows "\<exists>t. increase_queue_depth True depth s = Some t \<and> dq_inv t \<and> queued t = queued s"
  using increase_unwrapped [OF assms] assms(3) by (simp add: increase_queue_depth_def)

theorem increase_queue_depth_safe_witness:
  "map_option queued (increase_queue_depth True 4 \<lparr>dq_q = [Some (5::nat), None], dq_next = 1, dq_last = 0,
    dq_depth = 2, dq_suspended = False, dq_used = 1, dq_max_used = 1, dq_overflowed = False,
    dq_full_warning = 0, dq_log = []\<rparr>) = Some [5]"
proof -
  let ?s = "\<lparr>dq_q = [Some (5::nat), None], dq_next = 1, dq_last = 0,
    dq_depth = 2, dq_suspended = False, dq_used = 1, dq_max_used = 1, dq_overflowed = False,
    dq_full_warning = 0, dq_log = []\<rparr>"
  have "dq_inv ?s" "unwrapped ?s" "queued ?s = [5]"
    by (simp_all add: dq_inv_def unwrapped_def queued_def ring_def)
  then show ?thesis using increase_queue_depth_safe [of ?s 4] by auto
qed

text \<open>C25: When the events wrap around, a successful \<open>increase_queue_depth\<close> puts the new, empty slots between
  them: the consumer meets an empty slot after the events up to the old end of the array, so
  only those remain deliverable although the others are still in the array. When \<open>realloc\<close> fails, the
  new slots are written through NULL.\<close>

theorem increase_queue_depth_strands:
  assumes "dq_inv s" and "dq_depth s < dq_last s + length (queued s)" and "dq_depth s < depth"
  shows "(\<exists>t. increase_queue_depth True depth s = Some t
      \<and> deliverable t = take (dq_depth s - dq_last s) (queued s) \<and> length (deliverable t) < length (queued s)
      \<and> queued t = queued s)
    \<and> increase_queue_depth False depth s = None"
proof -
  note I = dq_invD [OF assms(1)]
  let ?xs = "drop (dq_last s) (dq_q s)"
  obtain t where t: "increase_queue_depth True depth s = Some t" using assms(3) by (simp add: increase_queue_depth_def)
  have len: "length ?xs = dq_depth s - dq_last s" using I(1) by simp
  have "length ?xs < length (queued s)" using assms(2) I(1,4) by simp
  then have xs: "?xs = map Some (take (dq_depth s - dq_last s) (queued s))"
    using append_eq_shape_back [OF ring_split [OF assms(1)]] len by simp
  obtain k where k: "depth - dq_depth s = Suc k" using assms(3) by (metis Suc_diff_Suc)
  have "takeWhile (\<lambda>x. x \<noteq> None) (ring t) = ?xs"
    using xs by (simp only: ring_increase [OF assms(1,3) t] k)
      (simp add: takeWhile_append)
  then have "deliverable t = take (dq_depth s - dq_last s) (queued s)"
    by (simp add: deliverable_def xs comp_def)
  moreover have "queued t = queued s"
    using arg_cong [OF ring_split [OF assms(1)], of "\<lambda>r. map the (filter (\<lambda>x. x \<noteq> None) r)"]
    unfolding filter_ring_shape by (simp add: queued_def [of t] ring_increase [OF assms(1,3) t])
  ultimately show ?thesis using assms(2,3) I(4) t by (simp add: increase_queue_depth_def)
qed

theorem increase_queue_depth_strands_witness:
  "map_option deliverable (increase_queue_depth True 3 \<lparr>dq_q = [Some (6::nat), Some 5], dq_next = 1, dq_last = 1,
    dq_depth = 2, dq_suspended = False, dq_used = 2, dq_max_used = 2, dq_overflowed = False,
    dq_full_warning = 0, dq_log = []\<rparr>) = Some [5]"
proof -
  let ?s = "\<lparr>dq_q = [Some (6::nat), Some 5], dq_next = 1, dq_last = 1,
    dq_depth = 2, dq_suspended = False, dq_used = 2, dq_max_used = 2, dq_overflowed = False,
    dq_full_warning = 0, dq_log = []\<rparr>"
  have "dq_inv ?s" "queued ?s = [5, 6]"
    by (simp_all add: dq_inv_def queued_def ring_def)
  then show ?thesis using increase_queue_depth_strands [of ?s 3] by auto
qed

text \<open>A consumer that wakes up on an empty queue without \<open>disp_hup\<close> set still decrements
  \<open>currently_used\<close>, which wraps around: the reported depth becomes \<open>2 ^ 32 - 1\<close>.\<close>

theorem dequeue_empty_underflow:
  assumes "dq_inv s" and "dq_counted s" and "queued s = []"
  shows "\<exists>s'. dequeue (\<lambda>s. s) False False s = Some (None, s') \<and> unat (dq_used s') = 2 ^ 32 - 1"
proof -
  have "dq_used s = 0" using assms(2,3) by (simp add: dq_counted_def unat_eq_0)
  then show ?thesis
    using take_slot_empty [OF assms(1,3)] dequeue_no_wait [OF assms(1)]
    by (simp add: unsigned_minus_1_eq_mask mask_eq_exp_minus_1)
qed

theorem dequeue_empty_underflow_witness:
  "\<exists>s'. dequeue (\<lambda>s. s) False False \<lparr>dq_q = [None :: nat option], dq_next = 0, dq_last = 0,
    dq_depth = 1, dq_suspended = False, dq_used = 0, dq_max_used = 0, dq_overflowed = False,
    dq_full_warning = 0, dq_log = []\<rparr> = Some (None, s') \<and> unat (dq_used s') = 2 ^ 32 - 1"
  by (rule dequeue_empty_underflow)
    (simp_all add: dq_inv_def dq_counted_def queued_def ring_def)

end
