(* ===== verification/Remote_Queue.thy ===== *)
theory Remote_Queue
  imports Audit_Prelude
begin

unbundle bit_operations_syntax

text \<open>
  The persistent event queue of the remote logging plugin, \<open>audisp/plugins/remote/queue.c\<close>.

  A queue lives in memory (\<open>rq_memory\<close>), in a file (\<open>rq_fd\<close>), or both. The operating system is
  the record \<open>rq_world\<close>: a directory, the contents of the inodes, and two lists that say how
  the coming system calls behave. \<open>w_sys\<close> holds the outcome of each call that succeeds or fails
  as a whole (\<open>open\<close>, \<open>lockf\<close>, \<open>malloc\<close>, \<open>fdatasync\<close>, ...), \<open>w_io\<close> the outcome of each
  \<open>pread\<close>/\<open>pwrite\<close>: an error, or the number of bytes it transfers at most. When a list is used
  up, calls succeed and transfer everything. An access outside an allocation is \<open>None\<close>.
\<close>

section \<open>Operating system\<close>

datatype errno = EINVAL | ENOSPC | EIO | EBADMSG | ERANGE | ENXIO | ENOMEM | EBUSY
  | EACCES | EAGAIN | ENOENT | EEXIST | EOTHER

record rq_world =
  w_dir :: "string \<Rightarrow> nat option"
  w_data :: "nat \<Rightarrow> string"
  w_fresh :: nat
  w_sys :: "errno option list"
  w_io :: "(errno + nat) list"

definition sys_call :: "rq_world \<Rightarrow> errno option \<times> rq_world" where
  "sys_call w = (case w_sys w of [] \<Rightarrow> (None, w) | r # rs \<Rightarrow> (r, w\<lparr>w_sys := rs\<rparr>))"

text \<open>The outcome of one transfer of at most \<open>n\<close> bytes.\<close>

fun io_call :: "(errno + nat) list \<Rightarrow> nat \<Rightarrow> (errno + nat) \<times> (errno + nat) list" where
  "io_call [] n = (Inr n, [])"
| "io_call (Inl e # rs) n = (Inl e, rs)"
| "io_call (Inr r # rs) n = (Inr (min r n), rs)"

definition disk_write :: "nat \<Rightarrow> string \<Rightarrow> string \<Rightarrow> string" where
  "disk_write off bytes disk =
     overwrite off bytes (disk @ replicate (off + length bytes - length disk) NUL)"

definition SSIZE_MAX :: nat where
  "SSIZE_MAX = 2 ^ 63 - 1"

definition UINT32_MAX :: nat where
  "UINT32_MAX = 2 ^ 32 - 1"

section \<open>Complete transfers\<close>

function full_pread ::
    "(errno + nat) list \<Rightarrow> string \<Rightarrow> nat \<Rightarrow> nat \<Rightarrow> (errno + string) \<times> (errno + nat) list" where
  "full_pread io disk sz off =
     (if sz = 0 then (Inr [], io)
      else
        let run = min sz SSIZE_MAX in
        (case io_call io (min run (length disk - off)) of
           (Inl e, io') \<Rightarrow> (Inl e, io')
         | (Inr res, io') \<Rightarrow>
             if res = 0 then (Inl ENXIO, io')
             else (case full_pread io' disk (sz - res) (off + res) of
                 (Inl e, io'') \<Rightarrow> (Inl e, io'')
               | (Inr rest, io'') \<Rightarrow> (Inr (take res (drop off disk) @ rest), io''))))"
  by pat_completeness auto
termination
  by (relation "measure (\<lambda>(_, _, sz, _). sz)") auto

function full_pwrite ::
    "(errno + nat) list \<Rightarrow> string \<Rightarrow> string \<Rightarrow> nat \<Rightarrow> errno option \<times> string \<times> (errno + nat) list" where
  "full_pwrite io disk buf off =
     (if buf = [] then (None, disk, io)
      else
        let run = min (length buf) SSIZE_MAX in
        (case io_call io run of
           (Inl e, io') \<Rightarrow> (Some e, disk, io')
         | (Inr res, io') \<Rightarrow>
             if res = 0 then (Some ENXIO, disk, io')
             else full_pwrite io' (disk_write off (take res buf) disk) (drop res buf) (off + res)))"
  by pat_completeness auto
termination
  by (relation "measure (\<lambda>(_, _, buf, _). length buf)") auto

declare full_pread.simps [simp del] full_pwrite.simps [simp del]

section \<open>The queue and its file format\<close>

record rqueue =
  rq_flags :: u32
  rq_fd :: "nat option"
  rq_memory :: "string option list option"
  rq_num_entries :: nat
  rq_entry_size :: nat
  rq_queue_head :: nat
  rq_queue_length :: nat

definition Q_IN_MEMORY :: u32 where "Q_IN_MEMORY = 1"
definition Q_IN_FILE :: u32 where "Q_IN_FILE = 2"
definition Q_CREAT :: u32 where "Q_CREAT = 4"
definition Q_EXCL :: u32 where "Q_EXCL = 8"
definition Q_SYNC :: u32 where "Q_SYNC = 16"
definition Q_RESIZE :: u32 where "Q_RESIZE = 32"

lemmas Q_flags = Q_IN_MEMORY_def Q_IN_FILE_def Q_CREAT_def Q_EXCL_def Q_SYNC_def Q_RESIZE_def

definition has_flag :: "u32 \<Rightarrow> u32 \<Rightarrow> bool" where
  "has_flag fl f \<longleftrightarrow> fl AND f \<noteq> 0"

text \<open>\<open>htonl\<close>, stored in memory order, and \<open>ntohl\<close>.\<close>

definition htonl :: "nat \<Rightarrow> string" where
  "htonl n = map char_of [n div 2 ^ 24 mod 256, n div 2 ^ 16 mod 256, n div 2 ^ 8 mod 256, n mod 256]"

definition ntohl :: "string \<Rightarrow> nat" where
  "ntohl s = of_char (char_at s 0) * 2 ^ 24 + of_char (char_at s 1) * 2 ^ 16
           + of_char (char_at s 2) * 2 ^ 8 + of_char (char_at s 3)"

definition fh_magic :: string where
  "fh_magic = NUL # ''audisp-remote''"

definition FH_VERSION_0 :: char where
  "FH_VERSION_0 = NUL"

definition sizeof_file_header :: nat where "sizeof_file_header = 32"
definition offsetof_fh_state :: nat where "offsetof_fh_state = 24"
definition sizeof_queue :: nat where "sizeof_queue = 48"
definition sizeof_pointer :: nat where "sizeof_pointer = 8"

definition fh_state :: "nat \<Rightarrow> nat \<Rightarrow> string" where
  "fh_state head len = htonl head @ htonl len"

definition file_header :: "nat \<Rightarrow> nat \<Rightarrow> nat \<Rightarrow> nat \<Rightarrow> string" where
  "file_header entries esize head len =
     fh_magic @ [FH_VERSION_0] @ [NUL] @ htonl entries @ htonl esize @ fh_state head len"

definition entry_offset :: "rqueue \<Rightarrow> nat \<Rightarrow> nat" where
  "entry_offset q entry = (entry + 1) * rq_entry_size q"

definition q_sync :: "rqueue \<Rightarrow> rq_world \<Rightarrow> errno option \<times> rq_world" where
  "q_sync q w = (if \<not> has_flag (rq_flags q) Q_SYNC then (None, w) else sys_call w)"

text \<open>Writing through the queue's descriptor.\<close>

definition q_pwrite :: "nat \<Rightarrow> string \<Rightarrow> nat \<Rightarrow> rq_world \<Rightarrow> errno option \<times> rq_world" where
  "q_pwrite ino buf off w =
     (let (r, disk, io) = full_pwrite (w_io w) (w_data w ino) buf off
      in (r, w\<lparr>w_data := (w_data w)(ino := disk), w_io := io\<rparr>))"

definition q_pread :: "nat \<Rightarrow> nat \<Rightarrow> nat \<Rightarrow> rq_world \<Rightarrow> (errno + string) \<times> rq_world" where
  "q_pread ino sz off w =
     (let (r, io) = full_pread (w_io w) (w_data w ino) sz off in (r, w\<lparr>w_io := io\<rparr>))"

definition sync_fh_state :: "rqueue \<Rightarrow> rq_world \<Rightarrow> errno option \<times> rq_world" where
  "sync_fh_state q w =
     (case rq_fd q of
        None \<Rightarrow> (None, w)
      | Some ino \<Rightarrow>
          (case q_pwrite ino (fh_state (rq_queue_head q) (rq_queue_length q)) offsetof_fh_state w of
             (Some e, w1) \<Rightarrow> (Some e, w1)
           | (None, w1) \<Rightarrow> q_sync q w1))"

section \<open>Opening\<close>

definition sys_open :: "u32 \<Rightarrow> string \<Rightarrow> rq_world \<Rightarrow> (errno + nat) \<times> rq_world" where
  "sys_open fl path w =
     (case sys_call w of
        (Some e, w1) \<Rightarrow> (Inl e, w1)
      | (None, w1) \<Rightarrow>
          (case w_dir w1 path of
             Some ino \<Rightarrow>
               if has_flag fl Q_CREAT \<and> has_flag fl Q_EXCL then (Inl EEXIST, w1) else (Inr ino, w1)
           | None \<Rightarrow>
               if has_flag fl Q_CREAT then
                 (Inr (w_fresh w1),
                  w1\<lparr>w_dir := (w_dir w1)(path \<mapsto> w_fresh w1),
                     w_data := (w_data w1)(w_fresh w1 := []), w_fresh := Suc (w_fresh w1)\<rparr>)
               else (Inl ENOENT, w1)))"

text \<open>The header of a new file: written, synchronised, and the file extended to its full size.\<close>

definition q_create_header :: "rqueue \<Rightarrow> nat \<Rightarrow> rq_world \<Rightarrow> (errno + string) \<times> rq_world" where
  "q_create_header q ino w =
     (let fh = file_header (rq_num_entries q) (rq_entry_size q) 0 0 in
      case q_pwrite ino fh 0 w of
        (Some e, w1) \<Rightarrow> (Inl e, w1)
      | (None, w1) \<Rightarrow>
          (case q_sync q w1 of
             (Some e, w2) \<Rightarrow> (Inl e, w2)
           | (None, w2) \<Rightarrow>
               (case sys_call w2 of
                  (Some e, w3) \<Rightarrow> (Inl e, w3)
                | (None, w3) \<Rightarrow>
                    let total = (rq_num_entries q + 1) * rq_entry_size q; disk = w_data w3 ino in
                    (Inr fh, w3\<lparr>w_data := (w_data w3)
                       (ino := disk @ replicate (total - length disk) NUL)\<rparr>))))"

text \<open>The header of an existing file: read and compared with what the caller expects.\<close>

definition q_check_header :: "rqueue \<Rightarrow> nat \<Rightarrow> rq_world \<Rightarrow> (errno + string) \<times> rq_world" where
  "q_check_header q ino w =
     (case q_pread ino sizeof_file_header 0 w of
        (Inl e, w1) \<Rightarrow> (Inl e, w1)
      | (Inr fh, w1) \<Rightarrow>
          if take 14 fh \<noteq> fh_magic \<or> char_at fh 14 \<noteq> FH_VERSION_0 \<or> char_at fh 15 \<noteq> NUL
             \<or> take 4 (drop 20 fh) \<noteq> htonl (rq_entry_size q)
          then (Inl EINVAL, w1)
          else
            let file_entries = ntohl (take 4 (drop 16 fh)) in
            if file_entries > SIZE_MAX div rq_entry_size q - 1
               \<or> length (w_data w1 ino) \<noteq> (file_entries + 1) mod 2 ^ 32 * rq_entry_size q
            then (Inl EINVAL, w1)
            else (Inr fh, w1))"

definition q_open_file :: "rqueue \<Rightarrow> string \<Rightarrow> rq_world \<Rightarrow> errno option \<times> rqueue \<times> rq_world" where
  "q_open_file q path w =
     (case sys_open (rq_flags q) path w of
        (Inl e, w1) \<Rightarrow> (Some e, q, w1)
      | (Inr ino, w1) \<Rightarrow>
          let q1 = q\<lparr>rq_fd := Some ino\<rparr> in
          (case sys_call w1 of (Some e, w2) \<Rightarrow> (Some e, q1, w2)      \<comment> \<open>F_GETFD\<close>
           | (None, w2) \<Rightarrow>
          (case sys_call w2 of (Some e, w3) \<Rightarrow> (Some e, q1, w3)      \<comment> \<open>F_SETFD\<close>
           | (None, w3) \<Rightarrow>
          (case sys_call w3 of                                    \<comment> \<open>lockf\<close>
             (Some e, w4) \<Rightarrow> (Some (if e = EACCES \<or> e = EAGAIN then EBUSY else e), q1, w4)
           | (None, w4) \<Rightarrow>
          (case sys_call w4 of (Some e, w5) \<Rightarrow> (Some e, q1, w5)      \<comment> \<open>fstat\<close>
           | (None, w5) \<Rightarrow>
          (case (if w_data w5 ino = [] then q_create_header q1 ino w5 else q_check_header q1 ino w5) of
             (Inl e, w6) \<Rightarrow> (Some e, q1, w6)
           | (Inr fh, w6) \<Rightarrow>
               let q2 = q1\<lparr>rq_num_entries := ntohl (take 4 (drop 16 fh)),
                           rq_queue_head := ntohl (take 4 (drop 24 fh)),
                           rq_queue_length := ntohl (take 4 (drop 28 fh))\<rparr>
               in if rq_queue_head q2 \<ge> rq_num_entries q2 \<or> rq_queue_length q2 > rq_num_entries q2
                  then (Some EINVAL, q2, w6)
                  else (None, q2, w6)))))))"

definition q_sizes_ok :: "nat \<Rightarrow> nat \<Rightarrow> bool" where
  "q_sizes_ok num_entries entry_size \<longleftrightarrow>
     \<not> (num_entries = 0 \<or> num_entries > UINT32_MAX \<or> entry_size < 1
        \<or> entry_size < sizeof_file_header \<or> entry_size > UINT32_MAX - sizeof_queue)
     \<and> \<not> (entry_size > SIZE_MAX \<or> num_entries > SIZE_MAX div entry_size - 1
          \<or> num_entries > SIZE_MAX div sizeof_pointer)"

definition q_open_no_resize ::
    "u32 \<Rightarrow> string \<Rightarrow> nat \<Rightarrow> nat \<Rightarrow> rq_world \<Rightarrow> (errno + rqueue) \<times> rq_world" where
  "q_open_no_resize fl path num_entries entry_size w =
     (if \<not> has_flag fl (Q_IN_MEMORY OR Q_IN_FILE) then (Inl EINVAL, w)
      else if \<not> q_sizes_ok num_entries entry_size then (Inl EINVAL, w)
      else (case sys_call w of (Some e, w1) \<Rightarrow> (Inl e, w1)          \<comment> \<open>malloc of the queue\<close>
        | (None, w1) \<Rightarrow>
          let q = \<lparr>rq_flags = fl, rq_fd = None, rq_memory = None, rq_num_entries = num_entries,
                   rq_entry_size = entry_size, rq_queue_head = 0, rq_queue_length = 0\<rparr>;
              (r, q1, w2) =
                (if has_flag fl Q_IN_MEMORY then
                   (case sys_call w1 of (Some e, w2) \<Rightarrow> (Some e, q, w2)
                    | (None, w2) \<Rightarrow> (None, q\<lparr>rq_memory := Some (replicate num_entries None)\<rparr>, w2))
                 else (None, q, w1))
          in (case r of Some e \<Rightarrow> (Inl e, w2)
              | None \<Rightarrow>
                  if has_flag fl Q_IN_FILE then
                    (case q_open_file q1 path w2 of
                       (Some e, _, w3) \<Rightarrow> (Inl e, w3)
                     | (None, q2, w3) \<Rightarrow> (Inr q2, w3))
                  else (Inr q1, w2))))"

text \<open>\<open>q_close\<close> frees \<open>memory[i]\<close> for every \<open>i\<close> below \<open>num_entries\<close>: defined only when the array
  has that many slots.\<close>

definition q_close :: "rqueue \<Rightarrow> unit ub" where
  "q_close q =
     (case rq_memory q of
        None \<Rightarrow> Some ()
      | Some mem \<Rightarrow> if rq_num_entries q \<le> length mem then Some () else None)"

section \<open>Queue operations\<close>

definition mem_get :: "rqueue \<Rightarrow> nat \<Rightarrow> string option ub" where
  "mem_get q i =
     (case rq_memory q of
        None \<Rightarrow> Some None
      | Some mem \<Rightarrow> if i < length mem then Some (mem ! i) else None)"

definition mem_set :: "nat \<Rightarrow> string option \<Rightarrow> rqueue \<Rightarrow> rqueue" where
  "mem_set i v q = q\<lparr>rq_memory := map_option (\<lambda>mem. mem[i := v]) (rq_memory q)\<rparr>"

definition q_append_no_sync_fh_state ::
    "rqueue \<Rightarrow> string \<Rightarrow> rq_world \<Rightarrow> (errno option \<times> rqueue \<times> rq_world) ub" where
  "q_append_no_sync_fh_state q data w =
     (if rq_queue_length q = rq_num_entries q then Some (Some ENOSPC, q, w)
      else if length (cstr data) + 1 > rq_entry_size q then Some (Some EINVAL, q, w)
      else
        let entry_index = (rq_queue_head q + rq_queue_length q) mod rq_num_entries q in
        (case mem_get q entry_index of
           None \<Rightarrow> None
         | Some (Some _) \<Rightarrow> Some (Some EIO, q, w)
         | Some None \<Rightarrow>
             let (r, w1) = (if rq_memory q = None then (None, w) else sys_call w) in   \<comment> \<open>malloc\<close>
             if r \<noteq> None then Some (r, q, w1)
             else
               let (r, w2) = (case rq_fd q of
                     None \<Rightarrow> (None, w1)
                   | Some ino \<Rightarrow> q_pwrite ino (cstr data @ [NUL]) (entry_offset q entry_index) w1)
               in if r \<noteq> None then Some (r, q, w2)
                  else Some (None, (mem_set entry_index (Some (cstr data)) q)
                                      \<lparr>rq_queue_length := rq_queue_length q + 1\<rparr>, w2)))"

definition q_append :: "rqueue \<Rightarrow> string \<Rightarrow> rq_world \<Rightarrow> (errno option \<times> rqueue \<times> rq_world) ub" where
  "q_append q data w =
     (case q_append_no_sync_fh_state q data w of
        None \<Rightarrow> None
      | Some (Some e, q1, w1) \<Rightarrow> Some (Some e, q1, w1)
      | Some (None, q1, w1) \<Rightarrow>
          (case sync_fh_state q1 w1 of (r, w2) \<Rightarrow> Some (r, q1, w2)))"

text \<open>
  \<open>q_peek\<close>: the return value, and what happened: \<open>Inl\<close> of an error (return value -1), \<open>Inr None\<close> for an empty
  queue (0), \<open>Inr (Some s)\<close> when \<open>s\<close> and its terminating NUL were copied. Their size, a \<open>size_t\<close>, is then
  returned as an \<open>int\<close>, so that it is negative from 2 GiB on.
\<close>

definition int_of_size :: "nat \<Rightarrow> int" where
  "int_of_size n = sint (word_of_nat n :: 32 word)"

definition q_peek ::
    "rqueue \<Rightarrow> nat \<Rightarrow> rq_world \<Rightarrow> ((int \<times> (errno + string option)) \<times> rqueue \<times> rq_world) ub" where
  "q_peek q bufsize w =
     (if rq_queue_length q = 0 then Some ((0, Inr None), q, w)
      else
        let deliver = (\<lambda>s q w. if bufsize < length s + 1 then Some ((- 1, Inl ERANGE), q, w)
                               else Some ((int_of_size (length s + 1), Inr (Some s)), q, w)) in
        (case mem_get q (rq_queue_head q) of
           None \<Rightarrow> None
         | Some (Some s) \<Rightarrow> deliver s q w
         | Some None \<Rightarrow>
             (case rq_fd q of
                None \<Rightarrow> Some ((- 1, Inl EIO), q, w)
              | Some ino \<Rightarrow>
                  (case q_pread ino (rq_entry_size q) (entry_offset q (rq_queue_head q)) w of
                     (Inl e, w1) \<Rightarrow> Some ((- 1, Inl e), q, w1)
                   | (Inr buf, w1) \<Rightarrow>
                       if NUL \<notin> set buf then Some ((- 1, Inl EBADMSG), q, w1)
                       else
                         let s = cstr buf;
                             (r, w2) = (if rq_memory q = None then (None, w1) else sys_call w1)
                         in deliver s (if r = None then mem_set (rq_queue_head q) (Some s) q else q) w2))))"

definition q_drop_head_memory_only :: "rqueue \<Rightarrow> (errno option \<times> rqueue) ub" where
  "q_drop_head_memory_only q =
     (if rq_queue_length q = 0 then Some (Some EINVAL, q)
      else (case mem_get q (rq_queue_head q) of
          None \<Rightarrow> None
        | Some _ \<Rightarrow>
            let q1 = mem_set (rq_queue_head q) None q; h = rq_queue_head q + 1 in
            Some (None, q1\<lparr>rq_queue_head := (if h = rq_num_entries q then 0 else h),
                           rq_queue_length := rq_queue_length q - 1\<rparr>)))"

definition q_drop_head :: "rqueue \<Rightarrow> rq_world \<Rightarrow> (errno option \<times> rqueue \<times> rq_world) ub" where
  "q_drop_head q w =
     (case q_drop_head_memory_only q of
        None \<Rightarrow> None
      | Some (Some e, q1) \<Rightarrow> Some (Some e, q1, w)
      | Some (None, q1) \<Rightarrow> (case sync_fh_state q1 w of (r, w1) \<Rightarrow> Some (r, q1, w1)))"

definition q_queue_length :: "rqueue \<Rightarrow> nat" where
  "q_queue_length q = rq_queue_length q"

lemma q_peek_queue_length:
  "q_peek q n w = Some (r, q', w') \<Longrightarrow> rq_queue_length q' = rq_queue_length q"
  by (auto simp: q_peek_def mem_set_def Let_def split: if_splits option.splits sum.splits prod.splits)

lemma q_drop_queue_length:
  "q_drop_head_memory_only q = Some (None, q') \<Longrightarrow> rq_queue_length q' < rq_queue_length q"
  by (auto simp: q_drop_head_memory_only_def mem_set_def Let_def split: if_splits option.splits)

section \<open>Resizing\<close>

text \<open>The copying loop of \<open>q_open\<close>: peek at the old queue, append to the new one, drop. It ends when the
  return value of \<open>q_peek\<close> is 0 and fails when it is negative; \<open>errno\<close> is then that of the error or, for an entry
  whose size is negative as an \<open>int\<close>, whatever an earlier call left there (\<open>EOTHER\<close>).\<close>

function q_migrate ::
    "rqueue \<Rightarrow> rqueue \<Rightarrow> nat \<Rightarrow> rq_world \<Rightarrow> (errno option \<times> rqueue \<times> rqueue \<times> rq_world) ub" where
  "q_migrate q q2 bufsize w =
     (case q_peek q bufsize w of
        None \<Rightarrow> None
      | Some ((r, res), q', w') \<Rightarrow>
          if r = 0 then Some (None, q', q2, w')
          else if r < 0 then Some (Some (case res of Inl e \<Rightarrow> e | Inr _ \<Rightarrow> EOTHER), q', q2, w')
          else (case res of
              Inl e \<Rightarrow> None
            | Inr buf \<Rightarrow>
                (case q_append_no_sync_fh_state q2 (case buf of Some s \<Rightarrow> s | None \<Rightarrow> []) w' of
                   None \<Rightarrow> None
                 | Some (Some e, q2', w'') \<Rightarrow> Some (Some e, q', q2', w'')
                 | Some (None, q2', w'') \<Rightarrow>
                     (case q_drop_head_memory_only q' of
                        None \<Rightarrow> None
                      | Some (Some e, q'') \<Rightarrow> Some (Some e, q'', q2', w'')
                      | Some (None, q'') \<Rightarrow> q_migrate q'' q2' bufsize w''))))"
  by pat_completeness auto
termination
  by (relation "measure (\<lambda>(q, _, _, _). rq_queue_length q)")
    (auto dest!: q_peek_queue_length q_drop_queue_length)

declare q_migrate.simps [simp del]

definition unlink :: "string \<Rightarrow> rq_world \<Rightarrow> rq_world" where
  "unlink path w = w\<lparr>w_dir := (w_dir w)(path := None)\<rparr>"

definition sys_rename :: "string \<Rightarrow> string \<Rightarrow> rq_world \<Rightarrow> errno option \<times> rq_world" where
  "sys_rename from to w =
     (case sys_call w of
        (Some e, w1) \<Rightarrow> (Some e, w1)
      | (None, w1) \<Rightarrow> (None, w1\<lparr>w_dir := (w_dir w1)(to := w_dir w1 from, from := None)\<rparr>))"

text \<open>The error exits of \<open>q_open\<close>: \<open>err_errno_q\<close> closes the old queue, \<open>err_q2\<close> closes the new one
  first and removes the temporary file.\<close>

definition q_open_fail :: "rqueue \<Rightarrow> errno \<Rightarrow> rq_world \<Rightarrow> ((errno + rqueue) \<times> rq_world) ub" where
  "q_open_fail q e w = (case q_close q of None \<Rightarrow> None | Some _ \<Rightarrow> Some (Inl e, w))"

definition q_open_fail2 ::
    "rqueue \<Rightarrow> rqueue \<Rightarrow> string \<Rightarrow> errno \<Rightarrow> rq_world \<Rightarrow> ((errno + rqueue) \<times> rq_world) ub" where
  "q_open_fail2 q q2 tmp e w =
     (case q_close q2 of None \<Rightarrow> None | Some _ \<Rightarrow> q_open_fail q e (unlink tmp w))"

text \<open>
  \<open>q_open\<close>. \<open>suffix\<close> is the six characters \<open>mkstemp\<close> puts in place of \<open>XXXXXX\<close>; the call fails
  when the resulting name exists.
\<close>

definition q_resize ::
    "string \<Rightarrow> rqueue \<Rightarrow> u32 \<Rightarrow> string \<Rightarrow> nat \<Rightarrow> nat \<Rightarrow> rq_world \<Rightarrow> ((errno + rqueue) \<times> rq_world) ub" where
  "q_resize tmp q fl path num_entries entry_size w =
     (case q_open_no_resize (fl OR Q_CREAT OR Q_EXCL) tmp num_entries entry_size w of
        (Inl e, w1) \<Rightarrow> q_open_fail q e (unlink tmp w1)
      | (Inr q2, w1) \<Rightarrow>
          if rq_num_entries q2 \<noteq> num_entries then q_open_fail2 q q2 tmp EIO w1
          else (case q_migrate q q2 entry_size w1 of
              None \<Rightarrow> None
            | Some (Some e, q', q2', w2) \<Rightarrow> q_open_fail2 q' q2' tmp e w2
            | Some (None, q', q2', w2) \<Rightarrow>
                (case sync_fh_state q2' w2 of
                   (Some e, w3) \<Rightarrow> q_open_fail2 q' q2' tmp e w3
                 | (None, w3) \<Rightarrow>
                     (case sys_rename tmp path w3 of
                        (Some e, w4) \<Rightarrow> q_open_fail2 q' q2' tmp e w4
                      | (None, w4) \<Rightarrow>
                          (case q_close q' of None \<Rightarrow> None | Some _ \<Rightarrow> Some (Inr q2', w4))))))"

definition q_open ::
    "string \<Rightarrow> u32 \<Rightarrow> string \<Rightarrow> nat \<Rightarrow> nat \<Rightarrow> rq_world \<Rightarrow> ((errno + rqueue) \<times> rq_world) ub" where
  "q_open suffix fl path num_entries entry_size w =
     (case q_open_no_resize fl path num_entries entry_size w of
        (Inl e, w1) \<Rightarrow> Some (Inl e, w1)
      | (Inr q, w1) \<Rightarrow>
          if rq_num_entries q = num_entries then Some (Inr q, w1)
          else if \<not> has_flag (rq_flags q) Q_RESIZE then q_open_fail q EINVAL w1
          else if rq_queue_length q > num_entries then q_open_fail q ENOSPC w1
          else (case sys_call w1 of (Some e, w2) \<Rightarrow> q_open_fail q e w2          \<comment> \<open>malloc buf\<close>
             | (None, w2) \<Rightarrow>
           (case sys_call w2 of (Some e, w3) \<Rightarrow> q_open_fail q e w3              \<comment> \<open>malloc tmp_path\<close>
             | (None, w3) \<Rightarrow>
           (case sys_call w3 of (Some e, w4) \<Rightarrow> q_open_fail q e w4              \<comment> \<open>mkstemp\<close>
             | (None, w4) \<Rightarrow>
               if w_dir w4 (path @ suffix) \<noteq> None then q_open_fail q EEXIST w4
               else
           (case sys_call w4 of (Some e, w5) \<Rightarrow> q_open_fail q e w5              \<comment> \<open>close, unlink\<close>
             | (None, w5) \<Rightarrow> q_resize (path @ suffix) q fl path num_entries entry_size w5)))))"

section \<open>What a queue holds\<close>

definition block :: "nat \<Rightarrow> string \<Rightarrow> nat \<Rightarrow> string" where
  "block esize disk k = take esize (drop (k * esize) disk)"

text \<open>The entries of the ring in the file, and the two parts of its header.\<close>

definition disk_entries :: "nat \<Rightarrow> nat \<Rightarrow> nat \<Rightarrow> string list \<Rightarrow> string \<Rightarrow> bool" where
  "disk_entries num esize head xs disk \<longleftrightarrow>
     length disk = (num + 1) * esize \<and>
     (\<forall>j < length xs. NUL \<in> set (block esize disk (Suc ((head + j) mod num)))
        \<and> cstr (block esize disk (Suc ((head + j) mod num))) = xs ! j)"

definition disk_static :: "nat \<Rightarrow> nat \<Rightarrow> string \<Rightarrow> bool" where
  "disk_static num esize disk \<longleftrightarrow>
     take offsetof_fh_state disk = fh_magic @ [FH_VERSION_0] @ [NUL] @ htonl num @ htonl esize"

definition disk_state :: "nat \<Rightarrow> nat \<Rightarrow> string \<Rightarrow> bool" where
  "disk_state head len disk \<longleftrightarrow> take 8 (drop offsetof_fh_state disk) = fh_state head len"

definition rq_sizes :: "rqueue \<Rightarrow> string list \<Rightarrow> bool" where
  "rq_sizes q xs \<longleftrightarrow>
     q_sizes_ok (rq_num_entries q) (rq_entry_size q) \<and> rq_queue_head q < rq_num_entries q \<and>
     rq_queue_length q = length xs \<and> length xs \<le> rq_num_entries q \<and>
     (rq_memory q \<noteq> None \<or> rq_fd q \<noteq> None) \<and>
     (\<forall>x \<in> set xs. is_cstr x \<and> length x < rq_entry_size q)"

text \<open>A slot of the memory copy is empty, or holds the entry of its place in the ring; without a
  file every entry is in memory.\<close>

definition slot_ok :: "bool \<Rightarrow> string list \<Rightarrow> nat \<Rightarrow> string option \<Rightarrow> bool" where
  "slot_ok on_disk xs j slot \<longleftrightarrow>
     (if j < length xs then slot = Some (xs ! j) \<or> slot = None \<and> on_disk else slot = None)"

definition rq_mem :: "rqueue \<Rightarrow> string list \<Rightarrow> bool" where
  "rq_mem q xs \<longleftrightarrow>
     (case rq_memory q of None \<Rightarrow> True
      | Some mem \<Rightarrow> rq_num_entries q \<le> length mem \<and>
          (\<forall>j < rq_num_entries q. slot_ok (rq_fd q \<noteq> None) xs j
             (mem ! ((rq_queue_head q + j) mod rq_num_entries q))))"

definition rq_disk :: "rqueue \<Rightarrow> rq_world \<Rightarrow> string list \<Rightarrow> bool" where
  "rq_disk q w xs \<longleftrightarrow>
     (case rq_fd q of None \<Rightarrow> True
      | Some ino \<Rightarrow>
          disk_entries (rq_num_entries q) (rq_entry_size q) (rq_queue_head q) xs (w_data w ino)
          \<and> disk_static (rq_num_entries q) (rq_entry_size q) (w_data w ino))"

definition rq_synced :: "rqueue \<Rightarrow> rq_world \<Rightarrow> bool" where
  "rq_synced q w \<longleftrightarrow>
     (case rq_fd q of None \<Rightarrow> True
      | Some ino \<Rightarrow> disk_state (rq_queue_head q) (rq_queue_length q) (w_data w ino))"

definition rq_core :: "rqueue \<Rightarrow> rq_world \<Rightarrow> string list \<Rightarrow> bool" where
  "rq_core q w xs \<longleftrightarrow> rq_sizes q xs \<and> rq_mem q xs \<and> rq_disk q w xs"

definition rq_holds :: "rqueue \<Rightarrow> rq_world \<Rightarrow> string list \<Rightarrow> bool" where
  "rq_holds q w xs \<longleftrightarrow> rq_core q w xs \<and> rq_synced q w"

text \<open>A system in which calls succeed and every transfer makes progress.\<close>

definition io_ok :: "(errno + nat) list \<Rightarrow> bool" where
  "io_ok io \<longleftrightarrow> (\<forall>r \<in> set io. \<exists>n > 0. r = Inr n)"

definition world_ok :: "rq_world \<Rightarrow> bool" where
  "world_ok w \<longleftrightarrow> w_sys w = [] \<and> io_ok (w_io w)"

text \<open>What an operation on \<open>q\<close> leaves alone: the directory and every other file; and the parts of
  the queue that stay fixed.\<close>

definition rq_frame :: "rqueue \<Rightarrow> rq_world \<Rightarrow> rq_world \<Rightarrow> bool" where
  "rq_frame q w w' \<longleftrightarrow>
     w_dir w' = w_dir w \<and> w_fresh w' = w_fresh w \<and> world_ok w'
     \<and> (\<forall>i. rq_fd q \<noteq> Some i \<longrightarrow> w_data w' i = w_data w i)"

definition rq_same :: "rqueue \<Rightarrow> rqueue \<Rightarrow> bool" where
  "rq_same q q' \<longleftrightarrow>
     rq_fd q' = rq_fd q \<and> rq_num_entries q' = rq_num_entries q \<and>
     rq_entry_size q' = rq_entry_size q \<and> rq_flags q' = rq_flags q"

section \<open>Lemmas on transfers\<close>

lemma io_call_ok:
  assumes "io_ok io" "0 < n"
  obtains r io' where "io_call io n = (Inr r, io')" "0 < r" "r \<le> n" "io_ok io'"
  using assms by (cases "(io, n)" rule: io_call.cases) (auto simp: io_ok_def)

lemma length_disk_write:
  "off \<le> length disk \<Longrightarrow> length (disk_write off b disk) = max (length disk) (off + length b)"
  by (simp add: disk_write_def)

lemma disk_write_Nil [simp]: "off \<le> length disk \<Longrightarrow> disk_write off [] disk = disk"
  by (simp add: disk_write_def overwrite_def)

lemma disk_write_fits:
  "off + length b \<le> length disk \<Longrightarrow> disk_write off b disk = overwrite off b disk"
  by (simp add: disk_write_def)

lemma disk_write_append:
  assumes "off \<le> length disk"
  shows "disk_write (off + length b) c (disk_write off b disk) = disk_write off (b @ c) disk"
  using assms by (simp add: disk_write_def overwrite_def min_def replicate_add [symmetric] ac_simps)

lemma full_pwrite_ok:
  assumes "io_ok io" "off \<le> length disk"
  shows "\<exists>io'. full_pwrite io disk buf off = (None, disk_write off buf disk, io') \<and> io_ok io'"
  using assms
proof (induction io disk buf off rule: full_pwrite.induct)
  case (1 io disk buf off)
  show ?case
  proof (cases "buf = []")
    case True
    with 1 show ?thesis by (simp add: full_pwrite.simps)
  next
    case False
    have "0 < min (length buf) SSIZE_MAX" using False by (simp add: SSIZE_MAX_def)
    then obtain r io' where r: "io_call io (min (length buf) SSIZE_MAX) = (Inr r, io')"
      "0 < r" "r \<le> min (length buf) SSIZE_MAX" and io': "io_ok io'"
      using io_call_ok [OF 1(2)] by blast
    have len: "length (take r buf) = r" using r(3) by simp
    have le: "off + r \<le> length (disk_write off (take r buf) disk)"
      using 1(3) len by (simp add: length_disk_write)
    have eq: "disk_write (off + r) (drop r buf) (disk_write off (take r buf) disk) = disk_write off buf disk"
      using disk_write_append [OF 1(3), of "take r buf" "drop r buf"] len by simp
    show ?thesis
      using 1(1) [OF False refl r(1) [symmetric] refl _ io' le] r eq False
      by (simp add: full_pwrite.simps [of io disk buf off] Let_def)
  qed
qed

lemma full_pread_ok:
  assumes "io_ok io" "off + sz \<le> length disk"
  shows "\<exists>io'. full_pread io disk sz off = (Inr (take sz (drop off disk)), io') \<and> io_ok io'"
  using assms
proof (induction io disk sz off rule: full_pread.induct)
  case (1 io disk sz off)
  show ?case
  proof (cases "sz = 0")
    case True
    with 1 show ?thesis by (simp add: full_pread.simps)
  next
    case False
    let ?m = "min (min sz SSIZE_MAX) (length disk - off)"
    have "0 < ?m" using False 1(3) by (simp add: SSIZE_MAX_def)
    then obtain r io' where r: "io_call io ?m = (Inr r, io')" "0 < r" "r \<le> ?m" and io': "io_ok io'"
      using io_call_ok [OF 1(2)] by blast
    have le: "off + r + (sz - r) \<le> length disk" using 1(3) r(3) by simp
    have eq: "take r (drop off disk) @ take (sz - r) (drop (off + r) disk) = take sz (drop off disk)"
      using r(3) by (metis add.commute drop_drop le_add_diff_inverse min.bounded_iff take_add)
    show ?thesis
      using 1(1) [OF False refl r(1) [symmetric] refl _ io' le] r eq False
      by (auto simp: full_pread.simps [of io disk sz off] Let_def)
  qed
qed

section \<open>Lemmas on the file\<close>

lemma length_htonl [simp]: "length (htonl n) = 4"
  by (simp add: htonl_def)

lemma length_fh_state [simp]: "length (fh_state h n) = 8"
  by (simp add: fh_state_def)

lemma length_fh_magic [simp]: "length fh_magic = 14"
  by (simp add: fh_magic_def)

lemma ntohl_htonl:
  assumes "n \<le> UINT32_MAX"
  shows "ntohl (htonl n) = n"
proof -
  have div: "n div 65536 = n div 256 div 256" "n div 16777216 = n div 256 div 256 div 256"
    by (simp_all only: div_mult2_eq [symmetric]) simp_all
  have small: "n div 256 div 256 div 256 < 256"
    using assms by (simp add: UINT32_MAX_def div_mult2_eq [symmetric])
  have "ntohl (htonl n) = n div 256 div 256 div 256 * 16777216 + n div 256 div 256 mod 256 * 65536
      + n div 256 mod 256 * 256 + n mod 256"
    using small by (simp add: ntohl_def htonl_def div)
  moreover have "a * 16777216 + b * 65536 + c * 256 + d = ((a * 256 + b) * 256 + c) * 256 + d"
    for a b c d :: nat by simp
  ultimately show ?thesis by (simp only: div_mult_mod_eq)
qed

lemma block_fits: "k < num \<Longrightarrow> Suc k * e + e \<le> (num + 1) * (e :: nat)"
  by (metis Suc_eq_plus1 Suc_leI Suc_le_mono add.commute mult_Suc mult_le_mono1)

lemma block_overwrite_same:
  assumes "k * e + length b \<le> length disk" "length b \<le> e"
  shows "block e (overwrite (k * e) b disk) k = b @ take (e - length b) (drop (k * e + length b) disk)"
  using assms by (simp add: block_def window_overwrite_start)

lemma block_overwrite_other:
  assumes "k * e + length b \<le> length disk" "length b \<le> e" "m \<noteq> k"
  shows "block e (overwrite (k * e) b disk) m = block e disk m"
proof -
  have "k * e + e \<le> m * e \<or> m * e + e \<le> k * e"
    using assms(3) by (metis add.commute linorder_neqE_nat mult_Suc mult_le_mono1 Suc_leI)
  with assms show ?thesis
    unfolding block_def by (intro window_overwrite_disjoint) auto
qed

lemma disk_entries_append:
  assumes "disk_entries num e head xs disk" "length xs < num" "is_cstr s" "length s < e"
  shows "disk_entries num e head (xs @ [s])
           (overwrite (Suc ((head + length xs) mod num) * e) (s @ [NUL]) disk)"
proof -
  let ?k = "Suc ((head + length xs) mod num)"
  have "?k * e + e \<le> length disk"
    using block_fits [of "(head + length xs) mod num" num e] assms(1,2) by (simp add: disk_entries_def)
  then have fit: "?k * e + length (s @ [NUL]) \<le> length disk" and short: "length (s @ [NUL]) \<le> e"
    using assms(4) by auto
  have "Suc ((head + j) mod num) \<noteq> ?k" if "j < length xs" for j
    using mod_add_left_inj [of j num "length xs" head] that assms(2) by auto
  with assms show ?thesis
    unfolding disk_entries_def
    by (auto simp: less_Suc_eq nth_append block_overwrite_same [OF fit short]
        block_overwrite_other [OF fit short] length_overwrite [OF fit] simp del: mult_Suc)
qed

lemma disk_entries_drop:
  "disk_entries num e head (x # xs) disk \<Longrightarrow> disk_entries num e (Suc head mod num) xs disk"
  by (fastforce simp: disk_entries_def mod_simps)

lemma disk_header_append:
  assumes "length disk = (num + 1) * e" "k < num" "length b \<le> e" "32 \<le> e"
  shows "disk_static n e' (overwrite (Suc k * e) b disk) = disk_static n e' disk"
    and "disk_state h l (overwrite (Suc k * e) b disk) = disk_state h l disk"
proof -
  have fit: "Suc k * e + length b \<le> length disk"
    using block_fits [OF assms(2), of e] assms by simp
  have "24 \<le> Suc k * e" "32 \<le> Suc k * e" using assms(4) by auto
  then show "disk_static n e' (overwrite (Suc k * e) b disk) = disk_static n e' disk"
    and "disk_state h l (overwrite (Suc k * e) b disk) = disk_state h l disk"
    using window_overwrite_disjoint [OF fit, of 0 24] window_overwrite_disjoint [OF fit, of 24 8]
    by (simp_all add: disk_static_def disk_state_def offsetof_fh_state_def del: mult_Suc)
qed

lemma disk_state_write:
  assumes "disk_entries num e head xs disk" "32 \<le> e"
  shows "disk_entries num e head xs (overwrite offsetof_fh_state (fh_state h l) disk)"
    and "disk_static n e' (overwrite offsetof_fh_state (fh_state h l) disk) = disk_static n e' disk"
    and "disk_state h l (overwrite offsetof_fh_state (fh_state h l) disk)"
proof -
  have len: "offsetof_fh_state + length (fh_state h l) \<le> length disk"
    using assms by (simp add: disk_entries_def offsetof_fh_state_def)
  have "block e (overwrite offsetof_fh_state (fh_state h l) disk) (Suc k) = block e disk (Suc k)" for k
    unfolding block_def using assms(2)
    by (intro window_overwrite_disjoint [OF len]) (simp add: offsetof_fh_state_def)
  with assms len show "disk_entries num e head xs (overwrite offsetof_fh_state (fh_state h l) disk)"
    by (simp add: disk_entries_def)
  show "disk_static n e' (overwrite offsetof_fh_state (fh_state h l) disk) = disk_static n e' disk"
    using window_overwrite_disjoint [OF len, of 0 offsetof_fh_state] by (simp add: disk_static_def)
  show "disk_state h l (overwrite offsetof_fh_state (fh_state h l) disk)"
    using window_overwrite_start [OF len, of 8] by (simp add: disk_state_def)
qed

section \<open>Lemmas on the operations\<close>

lemma sys_call_ok [simp]: "world_ok w \<Longrightarrow> sys_call w = (None, w)"
  by (simp add: world_ok_def sys_call_def)

lemma q_pwrite_ok:
  assumes "world_ok w" "off + length b \<le> length (w_data w ino)"
  obtains w' where "q_pwrite ino b off w = (None, w')" "world_ok w'"
    "w_data w' = (w_data w)(ino := overwrite off b (w_data w ino))"
    "w_dir w' = w_dir w" "w_fresh w' = w_fresh w"
proof -
  obtain io' where "full_pwrite (w_io w) (w_data w ino) b off =
      (None, overwrite off b (w_data w ino), io')" "io_ok io'"
    using full_pwrite_ok [of "w_io w" off "w_data w ino" b] assms
    by (auto simp: world_ok_def disk_write_fits)
  with assms(1) that show thesis by (auto simp: q_pwrite_def world_ok_def)
qed

lemma q_pread_ok:
  assumes "world_ok w" "off + sz \<le> length (w_data w ino)"
  obtains w' where "q_pread ino sz off w = (Inr (take sz (drop off (w_data w ino))), w')" "world_ok w'"
    "w_data w' = w_data w" "w_dir w' = w_dir w" "w_fresh w' = w_fresh w"
proof -
  obtain io' where "full_pread (w_io w) (w_data w ino) sz off =
      (Inr (take sz (drop off (w_data w ino))), io')" "io_ok io'"
    using full_pread_ok [of "w_io w" off sz "w_data w ino"] assms
    by (auto simp: world_ok_def)
  with assms(1) that show thesis by (auto simp: q_pread_def world_ok_def)
qed

lemma q_sync_ok [simp]: "world_ok w \<Longrightarrow> q_sync q w = (None, w)"
  by (simp add: q_sync_def)

lemma rq_sizesD:
  assumes "rq_sizes q xs"
  shows "32 \<le> rq_entry_size q" "0 < rq_num_entries q" "rq_num_entries q \<le> UINT32_MAX"
    "rq_entry_size q \<le> UINT32_MAX" "rq_queue_head q < rq_num_entries q"
    "rq_queue_length q = length xs" "length xs \<le> rq_num_entries q"
  using assms by (auto simp: rq_sizes_def q_sizes_ok_def sizeof_file_header_def)

lemma sync_fh_state_ok:
  assumes "world_ok w" "rq_core q w xs"
  shows "\<exists>w'. sync_fh_state q w = (None, w') \<and> rq_holds q w' xs \<and> rq_frame q w w'"
proof (cases "rq_fd q")
  case None
  with assms show ?thesis
    by (simp add: sync_fh_state_def rq_holds_def rq_core_def rq_disk_def rq_synced_def rq_frame_def)
next
  case (Some ino)
  note size = rq_sizesD [of q xs]
  have sz: "rq_sizes q xs" and disk: "rq_disk q w xs" using assms(2) by (simp_all add: rq_core_def)
  let ?b = "fh_state (rq_queue_head q) (rq_queue_length q)"
  have ent: "disk_entries (rq_num_entries q) (rq_entry_size q) (rq_queue_head q) xs (w_data w ino)"
    using disk Some by (simp add: rq_disk_def)
  have "offsetof_fh_state + length ?b \<le> length (w_data w ino)"
    using ent size(1) [OF sz] by (simp add: disk_entries_def offsetof_fh_state_def)
  then obtain w' where w': "q_pwrite ino ?b offsetof_fh_state w = (None, w')" "world_ok w'"
    "w_data w' = (w_data w)(ino := overwrite offsetof_fh_state ?b (w_data w ino))"
    "w_dir w' = w_dir w" "w_fresh w' = w_fresh w"
    by (rule q_pwrite_ok [OF assms(1)])
  from disk_state_write [OF ent size(1) [OF sz]] w' assms Some
  show ?thesis
    by (simp add: sync_fh_state_def rq_holds_def rq_core_def rq_disk_def rq_synced_def rq_frame_def)
qed

lemma mem_get_window:
  assumes "rq_sizes q xs" "rq_mem q xs" "j < rq_num_entries q"
  obtains v where "mem_get q ((rq_queue_head q + j) mod rq_num_entries q) = Some v"
    "slot_ok (rq_fd q \<noteq> None) xs j v"
proof (cases "rq_memory q")
  case None
  with assms that show thesis by (auto simp: mem_get_def rq_sizes_def slot_ok_def)
next
  case (Some mem)
  then have "rq_num_entries q \<le> length mem"
    using assms(2) by (simp add: rq_mem_def)
  then have "(rq_queue_head q + j) mod rq_num_entries q < length mem"
    using assms(3) mod_less_divisor [of "rq_num_entries q" "rq_queue_head q + j"] by linarith
  with that assms(2,3) Some show thesis
    by (auto simp: rq_mem_def mem_get_def)
qed

lemma rq_mem_append:
  assumes "rq_mem q xs" "length xs < rq_num_entries q"
  shows "rq_mem (mem_set ((rq_queue_head q + length xs) mod rq_num_entries q) (Some s) q
           \<lparr>rq_queue_length := n\<rparr>) (xs @ [s])"
  using assms
  by (auto simp: rq_mem_def mem_set_def slot_ok_def nth_append nth_update_ring less_Suc_eq
      split: option.splits)

lemma rq_mem_cache:
  assumes "rq_mem q xs" "j < length xs" "rq_sizes q xs"
  shows "rq_mem (mem_set ((rq_queue_head q + j) mod rq_num_entries q) (Some (xs ! j)) q) xs"
  using assms rq_sizesD [OF assms(3)]
  by (auto simp: rq_mem_def mem_set_def slot_ok_def nth_update_ring split: option.splits)

lemma rq_mem_drop:
  assumes "rq_mem q (x # xs)" "rq_sizes q (x # xs)"
  shows "rq_mem (mem_set (rq_queue_head q) None q
           \<lparr>rq_queue_head := Suc (rq_queue_head q) mod rq_num_entries q, rq_queue_length := n\<rparr>) xs"
proof (cases "rq_memory q")
  case None
  then show ?thesis by (simp add: rq_mem_def mem_set_def)
next
  case (Some mem)
  let ?n = "rq_num_entries q" and ?h = "rq_queue_head q"
  note sizes = rq_sizesD [OF assms(2)]
  have len: "?n \<le> length mem"
    and old: "\<And>j. j < ?n \<Longrightarrow> slot_ok (rq_fd q \<noteq> None) (x # xs) j (mem ! ((?h + j) mod ?n))"
    using assms(1) Some by (simp_all add: rq_mem_def)
  have "slot_ok (rq_fd q \<noteq> None) xs j (mem[?h := None] ! ((Suc ?h mod ?n + j) mod ?n))" if j: "j < ?n" for j
  proof (cases "Suc j = ?n")
    case True
    then have "(Suc ?h mod ?n + j) mod ?n = (?h + ?n) mod ?n"
      by (simp add: mod_simps flip: True)
    then have "(Suc ?h mod ?n + j) mod ?n = ?h"
      using sizes by simp
    with True sizes len show ?thesis by (simp add: slot_ok_def)
  next
    case False
    then have lt: "Suc j < ?n" using j by simp
    have "(Suc ?h mod ?n + j) mod ?n = (?h + Suc j) mod ?n" by (simp add: mod_simps)
    moreover have "mem[?h := None] ! ((?h + Suc j) mod ?n) = mem ! ((?h + Suc j) mod ?n)"
      using nth_update_ring [of 0 ?n "Suc j" mem ?h None] lt len sizes by simp
    ultimately show ?thesis using old [OF lt] by (auto simp: slot_ok_def split: if_splits)
  qed
  with Some len show ?thesis by (simp add: rq_mem_def mem_set_def)
qed

lemma rq_sameI [simp]: "rq_same q (mem_set i v q)"
  by (simp add: rq_same_def mem_set_def)

lemma rq_same_trans: "rq_same q q' \<Longrightarrow> rq_same q' q'' \<Longrightarrow> rq_same q q''"
  by (simp add: rq_same_def)

lemma rq_frame_trans:
  "rq_frame q w w' \<Longrightarrow> rq_frame q' w' w'' \<Longrightarrow> rq_fd q' = rq_fd q \<Longrightarrow> rq_frame q w w''"
  by (simp add: rq_frame_def)

lemma rq_frame_refl: "world_ok w \<Longrightarrow> rq_frame q w w"
  by (simp add: rq_frame_def)

lemma q_append_no_sync_ok:
  assumes "world_ok w" "rq_core q w xs" "length xs < rq_num_entries q"
    "length (cstr s) < rq_entry_size q"
  shows "\<exists>q' w'. q_append_no_sync_fh_state q s w = Some (None, q', w') \<and>
           rq_core q' w' (xs @ [cstr s]) \<and> rq_frame q w w' \<and> rq_same q q'"
proof -
  let ?i = "(rq_queue_head q + length xs) mod rq_num_entries q"
  let ?q = "mem_set ?i (Some (cstr s)) q\<lparr>rq_queue_length := rq_queue_length q + 1\<rparr>"
  have sz: "rq_sizes q xs" and mem: "rq_mem q xs" and disk: "rq_disk q w xs"
    using assms(2) by (simp_all add: rq_core_def)
  note sizes = rq_sizesD [OF sz]
  have get: "mem_get q ?i = Some None"
    by (rule mem_get_window [OF sz mem assms(3)]) (simp add: slot_ok_def)
  have new: "rq_sizes ?q (xs @ [cstr s])" "rq_mem ?q (xs @ [cstr s])" "rq_same q ?q"
    using sz assms(3,4) rq_mem_append [OF mem assms(3)]
    by (auto simp: rq_sizes_def mem_set_def rq_same_def)
  show ?thesis
  proof (cases "rq_fd q")
    case None
    then have "rq_disk ?q w (xs @ [cstr s])" by (simp add: rq_disk_def mem_set_def)
    with new None get sizes assms show ?thesis
      by (simp add: q_append_no_sync_fh_state_def rq_core_def rq_frame_refl split: if_splits)
  next
    case (Some ino)
    let ?d = "w_data w ino"
    have ent: "disk_entries (rq_num_entries q) (rq_entry_size q) (rq_queue_head q) xs ?d"
      and stat: "disk_static (rq_num_entries q) (rq_entry_size q) ?d"
      using disk Some by (simp_all add: rq_disk_def)
    have len: "length ?d = (rq_num_entries q + 1) * rq_entry_size q"
      using ent by (simp add: disk_entries_def)
    have i: "?i < rq_num_entries q" using assms(3) by (intro mod_less_divisor) auto
    have "entry_offset q ?i + length (cstr s @ [NUL]) \<le> length ?d"
      using block_fits [OF i, of "rq_entry_size q"] len assms(4) by (simp add: entry_offset_def)
    then obtain w' where w': "q_pwrite ino (cstr s @ [NUL]) (entry_offset q ?i) w = (None, w')"
      "world_ok w'" "w_data w' = (w_data w)(ino := overwrite (entry_offset q ?i) (cstr s @ [NUL]) ?d)"
      "w_dir w' = w_dir w" "w_fresh w' = w_fresh w"
      by (rule q_pwrite_ok [OF assms(1)])
    have off: "entry_offset q ?i = Suc ?i * rq_entry_size q" by (simp add: entry_offset_def)
    have "rq_disk ?q w' (xs @ [cstr s])"
      using disk_entries_append [OF ent assms(3) _ assms(4)]
        disk_header_append(1) [OF len i, of "cstr s @ [NUL]"] assms(4) sizes stat w'(3) Some off
      by (simp add: rq_disk_def mem_set_def)
    moreover have "rq_frame q w w'" using w' Some by (simp add: rq_frame_def)
    ultimately show ?thesis
      using new Some get sizes assms w'(1)
      by (simp add: q_append_no_sync_fh_state_def rq_core_def)
  qed
qed

lemma q_append_ok:
  assumes "world_ok w" "rq_core q w xs" "length xs < rq_num_entries q"
    "length (cstr s) < rq_entry_size q"
  shows "\<exists>q' w'. q_append q s w = Some (None, q', w') \<and>
           rq_holds q' w' (xs @ [cstr s]) \<and> rq_frame q w w' \<and> rq_same q q'"
proof -
  obtain q' w' where 1: "q_append_no_sync_fh_state q s w = Some (None, q', w')"
    "rq_core q' w' (xs @ [cstr s])" "rq_frame q w w'" "rq_same q q'"
    using q_append_no_sync_ok [OF assms] by blast
  then have "world_ok w'" by (simp add: rq_frame_def)
  then obtain w'' where "sync_fh_state q' w' = (None, w'')" "rq_holds q' w'' (xs @ [cstr s])"
    "rq_frame q' w' w''"
    using sync_fh_state_ok [OF _ 1(2)] by blast
  with 1 show ?thesis
    by (auto simp: q_append_def rq_same_def elim: rq_frame_trans)
qed

lemma q_peek_empty: "rq_core q w [] \<Longrightarrow> q_peek q n w = Some ((0, Inr None), q, w)"
  by (simp add: q_peek_def rq_core_def rq_sizes_def)

lemma q_peek_ok:
  assumes "world_ok w" "rq_core q w (x # xs)" "length x < n"
  shows "\<exists>q' w'. q_peek q n w = Some ((int_of_size (length x + 1), Inr (Some x)), q', w') \<and> rq_core q' w' (x # xs) \<and>
           rq_frame q w w' \<and> rq_same q q' \<and> w_data w' = w_data w \<and>
           rq_queue_head q' = rq_queue_head q \<and> rq_queue_length q' = rq_queue_length q"
proof -
  have sz: "rq_sizes q (x # xs)" and mem: "rq_mem q (x # xs)" and disk: "rq_disk q w (x # xs)"
    using assms(2) by (simp_all add: rq_core_def)
  note sizes = rq_sizesD [OF sz]
  have head: "(rq_queue_head q + 0) mod rq_num_entries q = rq_queue_head q" using sizes by simp
  obtain v where get: "mem_get q (rq_queue_head q) = Some v" "v = Some x \<or> v = None \<and> rq_fd q \<noteq> None"
    by (rule mem_get_window [OF sz mem, of 0]) (use head sizes in \<open>auto simp: slot_ok_def\<close>)
  show ?thesis
  proof (cases v)
    case (Some y)
    with get sizes assms show ?thesis
      by (simp add: q_peek_def rq_frame_refl rq_same_def)
  next
    case None
    then obtain ino where fd: "rq_fd q = Some ino" using get(2) by auto
    let ?d = "w_data w ino"
    have ent: "disk_entries (rq_num_entries q) (rq_entry_size q) (rq_queue_head q) (x # xs) ?d"
      using disk fd by (simp add: rq_disk_def)
    then have blk: "NUL \<in> set (block (rq_entry_size q) ?d (Suc (rq_queue_head q)))"
      "cstr (block (rq_entry_size q) ?d (Suc (rq_queue_head q))) = x"
      using head by (auto simp: disk_entries_def)
    have "entry_offset q (rq_queue_head q) + rq_entry_size q \<le> length ?d"
      using block_fits [OF sizes(5), of "rq_entry_size q"] ent
      by (simp add: entry_offset_def disk_entries_def)
    then obtain w' where w': "q_pread ino (rq_entry_size q) (entry_offset q (rq_queue_head q)) w =
        (Inr (take (rq_entry_size q) (drop (entry_offset q (rq_queue_head q)) ?d)), w')" "world_ok w'"
      "w_data w' = w_data w" "w_dir w' = w_dir w" "w_fresh w' = w_fresh w"
      by (rule q_pread_ok [OF assms(1)])
    moreover have "take (rq_entry_size q) (drop (entry_offset q (rq_queue_head q)) ?d)
        = block (rq_entry_size q) ?d (Suc (rq_queue_head q))"
      by (simp add: block_def entry_offset_def)
    ultimately have "q_peek q n w = Some ((int_of_size (length x + 1), Inr (Some x)), mem_set (rq_queue_head q) (Some x) q, w')"
      using get None fd blk sizes assms(3) by (simp add: q_peek_def)
    moreover have "rq_core (mem_set (rq_queue_head q) (Some x) q) w' (x # xs)"
      using sz disk rq_mem_cache [OF mem _ sz, of 0] head w'(3) fd
      by (simp add: rq_core_def rq_sizes_def rq_disk_def mem_set_def)
    ultimately show ?thesis using w' by (auto simp: rq_frame_def mem_set_def rq_same_def)
  qed
qed

lemma q_drop_mem_ok:
  assumes "rq_core q w (x # xs)"
  shows "\<exists>q'. q_drop_head_memory_only q = Some (None, q') \<and> rq_core q' w xs \<and> rq_same q q'"
proof -
  have sz: "rq_sizes q (x # xs)" and mem: "rq_mem q (x # xs)" and disk: "rq_disk q w (x # xs)"
    using assms by (simp_all add: rq_core_def)
  note sizes = rq_sizesD [OF sz]
  let ?h = "rq_queue_head q" and ?n = "rq_num_entries q"
  let ?q = "mem_set ?h None q\<lparr>rq_queue_head := Suc ?h mod ?n, rq_queue_length := rq_queue_length q - 1\<rparr>"
  obtain v where get: "mem_get q ?h = Some v"
    by (rule mem_get_window [OF sz mem, of 0]) (use sizes in auto)
  have "q_drop_head_memory_only q = Some (None, ?q)"
    using sizes get Suc_mod_wrap [OF sizes(5)] by (simp add: q_drop_head_memory_only_def Let_def)
  moreover have "rq_sizes ?q xs" using sz by (auto simp: rq_sizes_def mem_set_def)
  moreover have "rq_disk ?q w xs"
    using disk by (auto simp: rq_disk_def mem_set_def split: option.splits intro: disk_entries_drop)
  ultimately show ?thesis
    using rq_mem_drop [OF mem sz] by (simp add: rq_core_def rq_same_def mem_set_def)
qed

lemma q_drop_head_ok:
  assumes "world_ok w" "rq_core q w (x # xs)"
  shows "\<exists>q' w'. q_drop_head q w = Some (None, q', w') \<and> rq_holds q' w' xs \<and>
           rq_frame q w w' \<and> rq_same q q'"
proof -
  obtain q' where 1: "q_drop_head_memory_only q = Some (None, q')" "rq_core q' w xs" "rq_same q q'"
    using q_drop_mem_ok [OF assms(2)] by blast
  moreover obtain w' where "sync_fh_state q' w = (None, w')" "rq_holds q' w' xs" "rq_frame q' w w'"
    using sync_fh_state_ok [OF assms(1) 1(2)] by blast
  ultimately show ?thesis
    by (auto simp: q_drop_head_def rq_same_def rq_frame_def)
qed

section \<open>A first-in first-out queue\<close>

text \<open>The entry at position \<open>j\<close>: from the memory copy, or else from the file.\<close>

definition rq_entry :: "rqueue \<times> rq_world \<Rightarrow> nat \<Rightarrow> string" where
  "rq_entry s j =
     (let q = fst s; i = (rq_queue_head q + j) mod rq_num_entries q in
      case mem_get q i of
        Some (Some x) \<Rightarrow> x
      | _ \<Rightarrow> (case rq_fd q of
            None \<Rightarrow> []
          | Some ino \<Rightarrow> cstr (block (rq_entry_size q) (w_data (snd s) ino) (Suc i))))"

definition rq_contents :: "rqueue \<times> rq_world \<Rightarrow> string list" where
  "rq_contents s = map (rq_entry s) [0..<rq_queue_length (fst s)]"

definition rq_inv :: "rqueue \<times> rq_world \<Rightarrow> bool" where
  "rq_inv s \<longleftrightarrow> world_ok (snd s) \<and> rq_holds (fst s) (snd s) (rq_contents s)"

definition rq_fits :: "rqueue \<times> rq_world \<Rightarrow> string \<Rightarrow> bool" where
  "rq_fits s x \<longleftrightarrow> is_cstr x \<and> length x < rq_entry_size (fst s)"

definition rq_cap :: "rqueue \<times> rq_world \<Rightarrow> nat" where
  "rq_cap s = rq_num_entries (fst s)"

text \<open>A client that appends, and one that peeks with a large enough buffer and drops what it got.\<close>

definition try_append :: "string \<Rightarrow> rqueue \<times> rq_world \<Rightarrow> (rqueue \<times> rq_world) option" where
  "try_append x s =
     (if \<not> is_cstr x then None
      else (case q_append (fst s) x (snd s) of Some (None, s') \<Rightarrow> Some s' | _ \<Rightarrow> None))"

definition try_take :: "rqueue \<times> rq_world \<Rightarrow> (string \<times> rqueue \<times> rq_world) option" where
  "try_take s =
     (case q_peek (fst s) (rq_entry_size (fst s)) (snd s) of
        Some ((r, Inr (Some x)), q, w) \<Rightarrow>
          (case q_drop_head q w of Some (None, s') \<Rightarrow> Some (x, s') | _ \<Rightarrow> None)
      | _ \<Rightarrow> None)"

lemma rq_contents_eq:
  assumes "rq_core q w xs"
  shows "rq_contents (q, w) = xs"
proof (rule nth_equalityI)
  have sz: "rq_sizes q xs" and mem: "rq_mem q xs" and disk: "rq_disk q w xs"
    using assms by (simp_all add: rq_core_def)
  note sizes = rq_sizesD [OF sz]
  show "length (rq_contents (q, w)) = length xs" using sizes by (simp add: rq_contents_def)
  fix j assume "j < length (rq_contents (q, w))"
  then have j: "j < length xs" using sizes by (simp add: rq_contents_def)
  then have jn: "j < rq_num_entries q" using sizes by simp
  obtain v where v: "mem_get q ((rq_queue_head q + j) mod rq_num_entries q) = Some v"
    "slot_ok (rq_fd q \<noteq> None) xs j v"
    by (rule mem_get_window [OF sz mem jn])
  have "rq_entry (q, w) j = xs ! j"
    using v j disk by (auto simp: rq_entry_def slot_ok_def rq_disk_def disk_entries_def)
  then show "rq_contents (q, w) ! j = xs ! j" using j sizes by (simp add: rq_contents_def)
qed

lemma rq_holds_core: "rq_holds q w xs \<Longrightarrow> rq_core q w xs"
  by (simp add: rq_holds_def)

lemma rq_invI: "world_ok w \<Longrightarrow> rq_holds q w xs \<Longrightarrow> rq_inv (q, w) \<and> rq_contents (q, w) = xs"
  using rq_contents_eq [OF rq_holds_core] by (simp add: rq_inv_def)

lemma q_append_full:
  "rq_core q w xs \<Longrightarrow> length xs = rq_num_entries q \<Longrightarrow> q_append q s w = Some (Some ENOSPC, q, w)"
  by (simp add: q_append_def q_append_no_sync_fh_state_def rq_core_def rq_sizes_def)

lemma q_append_too_long:
  "rq_core q w xs \<Longrightarrow> length xs < rq_num_entries q \<Longrightarrow> rq_entry_size q \<le> length (cstr s) \<Longrightarrow>
     q_append q s w = Some (Some EINVAL, q, w)"
  by (auto simp: q_append_def q_append_no_sync_fh_state_def rq_core_def rq_sizes_def)

lemma try_append_Some:
  assumes "rq_inv s" "try_append x s = Some s'"
  shows "rq_inv s' \<and> rq_contents s' = rq_contents s @ [x] \<and> rq_cap s' = rq_cap s"
proof -
  obtain q w where s: "s = (q, w)" by (cases s)
  then have w: "world_ok w" and core: "rq_core q w (rq_contents s)"
    using assms(1) by (simp_all add: rq_inv_def rq_holds_def)
  have x: "is_cstr x" using assms(2) by (simp add: try_append_def split: if_splits)
  have "length (rq_contents s) \<le> rq_num_entries q"
    using core by (simp add: rq_core_def rq_sizes_def)
  with assms(2) q_append_full [OF core, of x] s
  have room: "length (rq_contents s) < rq_num_entries q"
    by (cases "length (rq_contents s) = rq_num_entries q") (auto simp: try_append_def split: if_splits)
  have short: "length (cstr x) < rq_entry_size q"
    using q_append_too_long [OF core room, of x] assms(2) s
    by (cases "length (cstr x) < rq_entry_size q") (auto simp: try_append_def split: if_splits)
  obtain q' w' where "q_append q x w = Some (None, q', w')" "rq_holds q' w' (rq_contents s @ [cstr x])"
    "rq_frame q w w'" "rq_same q q'"
    using q_append_ok [OF w core room short] by blast
  with assms(2) s x rq_invI [of w' q' "rq_contents s @ [cstr x]"] show ?thesis
    by (auto simp: try_append_def cstr_id rq_frame_def rq_same_def rq_cap_def)
qed

lemma try_append_room:
  assumes "rq_inv s" "length (rq_contents s) < rq_cap s" "rq_fits s x"
  shows "try_append x s \<noteq> None"
proof -
  obtain q w where s: "s = (q, w)" by (cases s)
  then have "world_ok w" "rq_core q w (rq_contents s)"
    using assms(1) by (simp_all add: rq_inv_def rq_holds_def)
  then show ?thesis
    using q_append_ok [of w q "rq_contents s" x] assms(2,3) s
    by (auto simp: try_append_def rq_fits_def rq_cap_def cstr_id)
qed

lemma try_take_cases:
  assumes "rq_inv s" "rq_contents s = x # xs"
  shows "\<exists>s'. try_take s = Some (x, s') \<and> rq_inv s' \<and> rq_contents s' = xs \<and> rq_cap s' = rq_cap s"
proof -
  obtain q w where s: "s = (q, w)" by (cases s)
  then have w: "world_ok w" and core: "rq_core q w (x # xs)"
    using assms by (simp_all add: rq_inv_def rq_holds_def)
  have "length x < rq_entry_size q" using core by (simp add: rq_core_def rq_sizes_def)
  from q_peek_ok [OF w core this] obtain q' w' where
    p: "q_peek q (rq_entry_size q) w = Some ((int_of_size (length x + 1), Inr (Some x)), q', w')" "rq_core q' w' (x # xs)"
    "rq_frame q w w'" "rq_same q q'" by blast
  then have "world_ok w'" by (simp add: rq_frame_def)
  from q_drop_head_ok [OF this p(2)] obtain q'' w'' where
    "q_drop_head q' w' = Some (None, q'', w'')" "rq_holds q'' w'' xs" "rq_frame q' w' w''" "rq_same q' q''"
    by blast
  with p s rq_invI [of w'' q'' xs] show ?thesis
    by (auto simp: try_take_def rq_frame_def rq_same_def rq_cap_def)
qed

lemma try_take_empty:
  assumes "rq_inv s" "rq_contents s = []"
  shows "try_take s = None"
proof -
  obtain q w where s: "s = (q, w)" by (cases s)
  then have "rq_core q w []" using assms by (simp add: rq_inv_def rq_holds_def)
  with s show ?thesis by (simp add: try_take_def q_peek_empty)
qed

interpretation rq: bounded_fifo rq_inv rq_contents rq_cap rq_fits try_append try_take
proof (unfold_locales, goal_cases)
  case (1 s)
  then show ?case by (simp add: rq_inv_def rq_holds_def rq_core_def rq_sizes_def rq_cap_def)
next
  case (2 s x)
  then show ?case
    using q_append_full [of "fst s" "snd s" "rq_contents s" x]
    by (simp add: rq_inv_def rq_holds_def try_append_def rq_cap_def)
next
  case (3 s x s')
  then show ?case by (rule try_append_Some)
next
  case (4 s x)
  then show ?case by (rule try_append_room)
next
  case (5 s)
  then show ?case by (rule try_take_empty)
next
  case (6 s x s')
  show ?case
  proof (cases "rq_contents s")
    case Nil
    with 6 try_take_empty show ?thesis by simp
  next
    case (Cons y ys)
    from try_take_cases [OF 6(1) Cons] 6(2) Cons show ?thesis by auto
  qed
next
  case (7 s)
  then show ?case by (cases "rq_contents s") (auto dest: try_take_cases)
qed

section \<open>Failed transfers\<close>

text \<open>Whatever the transfers do, a write inside the file replaces some prefix of its range.\<close>

lemma full_pwrite_any:
  assumes "off + length buf \<le> length disk"
  shows "\<exists>k \<le> length buf. fst (snd (full_pwrite io disk buf off)) = overwrite off (take k buf) disk"
  using assms
proof (induction io disk buf off rule: full_pwrite.induct)
  case (1 io disk buf off)
  obtain r io' where call: "io_call io (min (length buf) SSIZE_MAX) = (r, io')" by (cases "io_call io (min (length buf) SSIZE_MAX)")
  show ?case
  proof (cases "buf = [] \<or> (\<exists>e. r = Inl e) \<or> r = Inr 0")
    case True
    with call 1(2) show ?thesis
      by (intro exI [of _ 0]) (auto simp: full_pwrite.simps [of io disk buf off] overwrite_def)
  next
    case False
    then obtain n where n: "r = Inr n" "0 < n" "buf \<noteq> []" by (cases r) auto
    have le: "n \<le> length buf"
      using call n(1) by (cases "(io, min (length buf) SSIZE_MAX)" rule: io_call.cases) auto
    have w: "disk_write off (take n buf) disk = overwrite off (take n buf) disk"
      using 1(2) le by (intro disk_write_fits) simp
    have len: "length (overwrite off (take n buf) disk) = length disk"
      using 1(2) le by (intro length_overwrite) simp
    have "\<exists>k \<le> length (drop n buf).
        fst (snd (full_pwrite io' (disk_write off (take n buf) disk) (drop n buf) (off + n)))
        = overwrite (off + n) (take k (drop n buf)) (disk_write off (take n buf) disk)"
      by (rule 1(1) [OF n(3) refl call [symmetric] n(1)]) (use n(2) le 1(2) w len in auto)
    then obtain k where k: "k \<le> length buf - n"
      "fst (snd (full_pwrite io disk buf off))
        = overwrite (off + n) (take k (drop n buf)) (overwrite off (take n buf) disk)"
      using n call w by (auto simp: full_pwrite.simps [of io disk buf off])
    have fit: "disk_write (off + length b) c (disk_write off b disk) = disk_write off (b @ c) disk" for b c
      using 1(2) by (intro disk_write_append) simp
    have "overwrite (off + n) (take k (drop n buf)) (overwrite off (take n buf) disk)
        = overwrite off (take (n + k) buf) disk"
      using fit [of "take n buf" "take k (drop n buf)"] w len le k(1) 1(2)
      by (simp add: disk_write_fits take_add)
    with k le show ?thesis by (intro exI [of _ "n + k"]) auto
  qed
qed

text \<open>An append that fails before the header is written leaves every entry in place: what was
  written lies outside the part of the ring in use.\<close>

lemma disk_entries_partial:
  assumes "disk_entries num e head xs disk" "length xs < num" "length b \<le> e"
  shows "disk_entries num e head xs (overwrite (Suc ((head + length xs) mod num) * e) b disk)"
proof -
  let ?k = "Suc ((head + length xs) mod num)"
  have "?k * e + e \<le> length disk"
    using block_fits [of "(head + length xs) mod num" num e] assms(1,2) by (simp add: disk_entries_def)
  then have fit: "?k * e + length b \<le> length disk" using assms(3) by simp
  have "Suc ((head + j) mod num) \<noteq> ?k" if "j < length xs" for j
    using mod_add_left_inj [of j num "length xs" head] that assms(2) by auto
  with assms show ?thesis
    unfolding disk_entries_def
    by (auto simp: block_overwrite_other [OF fit assms(3)] length_overwrite [OF fit] simp del: mult_Suc)
qed

lemma q_append_no_sync_error:
  assumes "rq_holds q w xs" "q_append_no_sync_fh_state q s w = Some (Some e, q', w')"
  shows "q' = q \<and> rq_holds q w' xs"
proof -
  have sz: "rq_sizes q xs" using assms(1) by (simp add: rq_holds_def rq_core_def)
  note sizes = rq_sizesD [OF sz]
  have sys: "rq_holds q (snd (sys_call w)) xs"
    using assms(1) by (auto simp: rq_holds_def rq_core_def rq_disk_def rq_synced_def sys_call_def
        split: list.splits option.splits)
  let ?i = "(rq_queue_head q + length xs) mod rq_num_entries q"
  have pw: "rq_holds q (snd (q_pwrite ino (cstr s @ [NUL]) (entry_offset q ?i) w)) xs"
    if fd: "rq_fd q = Some ino" and room: "length xs < rq_num_entries q"
      and short: "length (cstr s) < rq_entry_size q" and holds: "rq_holds q w xs" for ino and w :: rq_world
  proof -
    let ?d = "w_data w ino"
    have ent: "disk_entries (rq_num_entries q) (rq_entry_size q) (rq_queue_head q) xs ?d"
      using holds fd by (simp add: rq_holds_def rq_core_def rq_disk_def)
    have len: "length ?d = (rq_num_entries q + 1) * rq_entry_size q"
      using ent by (simp add: disk_entries_def)
    have i: "?i < rq_num_entries q" using room by (intro mod_less_divisor) auto
    have off: "entry_offset q ?i = Suc ?i * rq_entry_size q" by (simp add: entry_offset_def)
    have "entry_offset q ?i + length (cstr s @ [NUL]) \<le> length ?d"
      using block_fits [OF i, of "rq_entry_size q"] len short by (simp add: entry_offset_def)
    from full_pwrite_any [OF this, of "w_io w"] obtain k where
      "fst (snd (full_pwrite (w_io w) ?d (cstr s @ [NUL]) (entry_offset q ?i)))
         = overwrite (Suc ?i * rq_entry_size q) (take k (cstr s @ [NUL])) ?d"
      unfolding off by blast
    moreover have b: "length (take k (cstr s @ [NUL])) \<le> rq_entry_size q" using short by simp
    ultimately show ?thesis
      using holds fd disk_entries_partial [OF ent room b] disk_header_append [OF len i b sizes(1)]
      by (auto simp: q_pwrite_def rq_holds_def rq_core_def rq_disk_def rq_synced_def off split: prod.splits)
  qed
  show ?thesis
  proof (cases "length xs = rq_num_entries q \<or> rq_entry_size q \<le> length (cstr s)")
    case True
    with assms sizes show ?thesis
      by (auto simp: q_append_no_sync_fh_state_def split: if_splits)
  next
    case False
    define w1 where "w1 = (if rq_memory q = None then w else snd (sys_call w))"
    have "length xs < rq_num_entries q" "length (cstr s) < rq_entry_size q"
      using False sizes by auto
    note pw1 = pw [OF _ this]
    have h1: "rq_holds q w1 xs" using assms(1) sys by (simp add: w1_def)
    from assms(2) False sizes have "q' = q \<and> (w' = w \<or> w' = w1 \<or>
        (\<exists>ino. rq_fd q = Some ino \<and> w' = snd (q_pwrite ino (cstr s @ [NUL]) (entry_offset q ?i) w1)))"
      by (auto simp: q_append_no_sync_fh_state_def Let_def w1_def split: if_splits option.splits prod.splits)
    with assms(1) h1 pw1 [OF _ h1] show ?thesis by auto
  qed
qed

section \<open>Opening a file\<close>

lemma word_or_eq_0: "(a :: u32) OR b = 0 \<longleftrightarrow> a = 0 \<and> b = 0"
  by (metis or.right_neutral or_eq_0_iff)

lemma has_flag_or: "has_flag (a OR b) f \<longleftrightarrow> has_flag a f \<or> has_flag b f"
  by (auto simp: has_flag_def bit.conj_disj_distrib2 word_or_eq_0)

lemma has_flag_in_either: "has_flag fl (Q_IN_MEMORY OR Q_IN_FILE) \<longleftrightarrow> has_flag fl Q_IN_MEMORY \<or> has_flag fl Q_IN_FILE"
  by (auto simp: has_flag_def bit.conj_disj_distrib word_or_eq_0)

lemma length_file_header [simp]: "length (file_header n e h l) = 32"
  by (simp add: file_header_def)

lemma file_header_fields:
  "take 14 (file_header n e h l) = fh_magic"
  "char_at (file_header n e h l) 14 = FH_VERSION_0"
  "char_at (file_header n e h l) 15 = NUL"
  "take 4 (drop 16 (file_header n e h l)) = htonl n"
  "take 4 (drop 20 (file_header n e h l)) = htonl e"
  "take 4 (drop 24 (file_header n e h l)) = htonl h"
  "take 4 (drop 28 (file_header n e h l)) = htonl l"
  by (simp_all add: file_header_def fh_state_def fh_magic_def)

lemma disk_header:
  assumes "disk_static n e d" "disk_state h l d"
  shows "take 32 d = file_header n e h l"
proof -
  have "take (24 + 8) d = take 24 d @ take 8 (drop 24 d)" by (rule take_add)
  with assms show ?thesis
    by (simp add: disk_static_def disk_state_def offsetof_fh_state_def file_header_def)
qed

text \<open>The part of \<open>rq_holds\<close> that lives in the file, for a queue that is not open.\<close>

definition file_holds :: "nat \<Rightarrow> nat \<Rightarrow> nat \<Rightarrow> string list \<Rightarrow> string \<Rightarrow> bool" where
  "file_holds num e head xs disk \<longleftrightarrow>
     q_sizes_ok num e \<and> num < UINT32_MAX \<and> head < num \<and> length xs \<le> num \<and>
     (\<forall>x \<in> set xs. is_cstr x \<and> length x < e) \<and>
     disk_entries num e head xs disk \<and> disk_static num e disk \<and> disk_state head (length xs) disk"

definition same_files :: "rq_world \<Rightarrow> rq_world \<Rightarrow> bool" where
  "same_files w w' \<longleftrightarrow>
     w_dir w' = w_dir w \<and> w_fresh w' = w_fresh w \<and> w_data w' = w_data w \<and> world_ok w'"

lemma rq_holds_file:
  assumes "rq_holds q w xs" "rq_fd q = Some ino" "rq_num_entries q < UINT32_MAX"
  shows "file_holds (rq_num_entries q) (rq_entry_size q) (rq_queue_head q) xs (w_data w ino)"
  using assms
  by (auto simp: rq_holds_def rq_core_def rq_sizes_def rq_disk_def rq_synced_def file_holds_def)

lemma q_check_header_ok:
  assumes "world_ok w" "file_holds num e head xs (w_data w ino)" "rq_entry_size q = e"
  shows "\<exists>w'. q_check_header q ino w = (Inr (file_header num e head (length xs)), w') \<and> same_files w w'"
proof -
  let ?d = "w_data w ino"
  have sz: "32 \<le> e" "num < UINT32_MAX" "num \<le> SIZE_MAX div e - 1" "length ?d = (num + 1) * e"
    using assms(2) by (auto simp: file_holds_def q_sizes_ok_def disk_entries_def sizeof_file_header_def)
  then have "0 + sizeof_file_header \<le> length ?d" by (simp add: sizeof_file_header_def)
  then obtain w' where w': "q_pread ino sizeof_file_header 0 w =
      (Inr (take sizeof_file_header (drop 0 ?d)), w')" "world_ok w'" "w_data w' = w_data w"
    "w_dir w' = w_dir w" "w_fresh w' = w_fresh w"
    by (rule q_pread_ok [OF assms(1)])
  have "take sizeof_file_header ?d = file_header num e head (length xs)"
    using assms(2) disk_header by (simp add: file_holds_def sizeof_file_header_def)
  moreover have "(num + 1) mod 2 ^ 32 = num + 1"
    using sz(2) by (intro mod_less) (simp add: UINT32_MAX_def)
  ultimately show ?thesis
    using w' sz assms(3)
    by (simp add: q_check_header_def file_header_fields ntohl_htonl same_files_def)
qed

lemma q_open_file_existing:
  assumes "world_ok w" "w_dir w path = Some ino" "\<not> (has_flag (rq_flags q) Q_CREAT \<and> has_flag (rq_flags q) Q_EXCL)"
    "file_holds num (rq_entry_size q) head xs (w_data w ino)"
  shows "\<exists>w'. q_open_file q path w =
      (None, q\<lparr>rq_fd := Some ino, rq_num_entries := num, rq_queue_head := head,
              rq_queue_length := length xs\<rparr>, w') \<and> same_files w w'"
proof -
  let ?q = "q\<lparr>rq_fd := Some ino\<rparr>"
  have "rq_entry_size ?q = rq_entry_size q" by simp
  from q_check_header_ok [OF assms(1,4) this] obtain w' where
    w': "q_check_header ?q ino w = (Inr (file_header num (rq_entry_size q) head (length xs)), w')"
      "same_files w w'" by blast
  have "w_data w ino \<noteq> []" "num \<le> UINT32_MAX" "head < num" "length xs \<le> num"
    using assms(4) by (auto simp: file_holds_def disk_entries_def q_sizes_ok_def)
  with w' assms(1-3) show ?thesis
    by (simp add: q_open_file_def sys_open_def file_header_fields ntohl_htonl Let_def)
qed

definition new_file :: "nat \<Rightarrow> nat \<Rightarrow> string" where
  "new_file num e = file_header num e 0 0 @ replicate ((num + 1) * e - 32) NUL"

lemma file_holds_new:
  assumes "q_sizes_ok num e" "num < UINT32_MAX"
  shows "file_holds num e 0 [] (new_file num e)"
proof -
  have "32 \<le> e" "0 < num" using assms by (auto simp: q_sizes_ok_def sizeof_file_header_def)
  with assms show ?thesis
    by (simp add: file_holds_def new_file_def disk_entries_def disk_static_def disk_state_def
        file_header_def offsetof_fh_state_def)
qed

text \<open>What creating the file \<open>path\<close> does to the system.\<close>

definition file_created :: "string \<Rightarrow> string \<Rightarrow> rq_world \<Rightarrow> rq_world \<Rightarrow> bool" where
  "file_created path disk w w' \<longleftrightarrow>
     w_dir w' = (w_dir w)(path \<mapsto> w_fresh w) \<and> w_fresh w' = Suc (w_fresh w) \<and>
     w_data w' = (w_data w)(w_fresh w := disk) \<and> world_ok w'"

lemma q_open_file_new:
  assumes "world_ok w" "w_dir w path = None" "has_flag (rq_flags q) Q_CREAT"
    "q_sizes_ok (rq_num_entries q) (rq_entry_size q)"
  shows "\<exists>w'. q_open_file q path w =
      (None, q\<lparr>rq_fd := Some (w_fresh w), rq_queue_head := 0, rq_queue_length := 0\<rparr>, w') \<and>
      file_created path (new_file (rq_num_entries q) (rq_entry_size q)) w w'"
proof -
  let ?q = "q\<lparr>rq_fd := Some (w_fresh w)\<rparr>" and ?fh = "file_header (rq_num_entries q) (rq_entry_size q) 0 0"
  let ?w = "w\<lparr>w_dir := (w_dir w)(path \<mapsto> w_fresh w), w_data := (w_data w)(w_fresh w := []),
              w_fresh := Suc (w_fresh w)\<rparr>"
  have ok: "world_ok ?w" using assms(1) by (simp add: world_ok_def)
  obtain io' where "full_pwrite (w_io ?w) [] ?fh 0 = (None, ?fh, io')" "io_ok io'"
    using full_pwrite_ok [of "w_io ?w" 0 "[]" ?fh] assms(1)
    by (auto simp: world_ok_def disk_write_def overwrite_def)
  then have pw: "q_pwrite (w_fresh w) ?fh 0 ?w =
      (None, ?w\<lparr>w_data := (w_data w)(w_fresh w := ?fh), w_io := io'\<rparr>)"
    and ok': "world_ok (?w\<lparr>w_data := (w_data w)(w_fresh w := ?fh), w_io := io'\<rparr>)"
    using assms(1) by (simp_all add: q_pwrite_def world_ok_def)
  have "0 < rq_num_entries q" "rq_num_entries q \<le> UINT32_MAX"
    using assms(4) by (auto simp: q_sizes_ok_def)
  moreover have "world_ok (w\<lparr>w_dir := d, w_fresh := n, w_io := io'\<rparr>)" for d n
    using ok' by (simp add: world_ok_def)
  moreover have "world_ok (w'\<lparr>w_data := d\<rparr>) = world_ok w'" for w' d by (simp add: world_ok_def)
  moreover have "ntohl (htonl 0) = 0" by (simp add: ntohl_htonl)
  ultimately show ?thesis
    using assms(1-3) ok pw ok'
    by (simp add: q_open_file_def sys_open_def q_create_header_def file_header_fields ntohl_htonl
        Let_def file_created_def new_file_def)
qed

text \<open>The queue record right after the allocations of \<open>q_open_no_resize\<close>.\<close>

definition empty_queue :: "u32 \<Rightarrow> nat \<Rightarrow> nat \<Rightarrow> rqueue" where
  "empty_queue fl num e =
     \<lparr>rq_flags = fl, rq_fd = None,
      rq_memory = (if has_flag fl Q_IN_MEMORY then Some (replicate num None) else None),
      rq_num_entries = num, rq_entry_size = e, rq_queue_head = 0, rq_queue_length = 0\<rparr>"

lemma q_open_no_resize_ok:
  assumes "world_ok w" "q_sizes_ok num e" "has_flag fl Q_IN_MEMORY \<or> has_flag fl Q_IN_FILE"
  shows "q_open_no_resize fl path num e w =
     (if has_flag fl Q_IN_FILE then
        (case q_open_file (empty_queue fl num e) path w of
           (Some e, _, w3) \<Rightarrow> (Inl e, w3)
         | (None, q2, w3) \<Rightarrow> (Inr q2, w3))
      else (Inr (empty_queue fl num e), w))"
  using assms by (auto simp: q_open_no_resize_def has_flag_in_either empty_queue_def Let_def)

lemma opened_holds:
  assumes "file_holds num e head xs (w_data w ino)" "has_flag fl Q_IN_MEMORY \<longrightarrow> num \<le> n"
  shows "rq_holds (empty_queue fl n e\<lparr>rq_fd := Some ino, rq_num_entries := num, rq_queue_head := head,
              rq_queue_length := length xs\<rparr>) w xs"
proof -
  have "(head + j) mod num < num" for j
    using assms(1) by (intro mod_less_divisor) (auto simp: file_holds_def)
  then have "replicate n None ! ((head + j) mod num) = (None :: string option)" if "num \<le> n" for j
    using that by (intro nth_replicate) (meson less_le_trans)
  with assms show ?thesis
    by (auto simp: file_holds_def rq_holds_def rq_core_def rq_sizes_def rq_mem_def rq_disk_def
        rq_synced_def empty_queue_def slot_ok_def)
qed

lemma q_open_existing:
  assumes "world_ok w" "w_dir w path = Some ino" "file_holds num e head xs (w_data w ino)"
    "has_flag fl Q_IN_FILE" "\<not> (has_flag fl Q_CREAT \<and> has_flag fl Q_EXCL)" "q_sizes_ok n e"
  shows "\<exists>w'. q_open_no_resize fl path n e w =
      (Inr (empty_queue fl n e\<lparr>rq_fd := Some ino, rq_num_entries := num, rq_queue_head := head,
              rq_queue_length := length xs\<rparr>), w') \<and> same_files w w'"
proof -
  have "rq_flags (empty_queue fl n e) = fl" "rq_entry_size (empty_queue fl n e) = e"
    by (simp_all add: empty_queue_def)
  then obtain w' where "q_open_file (empty_queue fl n e) path w = (None, empty_queue fl n e
      \<lparr>rq_fd := Some ino, rq_num_entries := num, rq_queue_head := head, rq_queue_length := length xs\<rparr>, w')"
    "same_files w w'"
    using q_open_file_existing [of w path ino "empty_queue fl n e" num head xs] assms by auto
  then show ?thesis using assms(1,4,6) by (simp add: q_open_no_resize_ok)
qed

lemma q_open_new:
  assumes "world_ok w" "w_dir w path = None" "has_flag fl Q_IN_FILE" "has_flag fl Q_CREAT"
    "q_sizes_ok n e" "n < UINT32_MAX"
  shows "\<exists>q w'. q_open_no_resize fl path n e w = (Inr q, w') \<and> rq_holds q w' [] \<and>
      rq_fd q = Some (w_fresh w) \<and> rq_num_entries q = n \<and> rq_entry_size q = e \<and> rq_flags q = fl \<and>
      file_created path (new_file n e) w w'"
proof -
  have fields: "rq_flags (empty_queue fl n e) = fl" "rq_entry_size (empty_queue fl n e) = e"
    "rq_num_entries (empty_queue fl n e) = n"
    by (simp_all add: empty_queue_def)
  obtain w' where w': "q_open_file (empty_queue fl n e) path w = (None, empty_queue fl n e
      \<lparr>rq_fd := Some (w_fresh w), rq_queue_head := 0, rq_queue_length := 0\<rparr>, w')"
    "file_created path (new_file n e) w w'"
    using q_open_file_new [of w path "empty_queue fl n e"] assms fields by auto
  have "file_holds n e 0 [] (w_data w' (w_fresh w))"
    using w'(2) file_holds_new [OF assms(5,6)] by (simp add: file_created_def)
  from opened_holds [OF this, of fl n]
  have "rq_holds (empty_queue fl n e\<lparr>rq_fd := Some (w_fresh w), rq_queue_head := 0, rq_queue_length := 0\<rparr>) w' []"
    by (simp add: empty_queue_def)
  with w' assms(1,3,5) fields show ?thesis by (simp add: q_open_no_resize_ok)
qed

lemma rq_core_cong:
  "(\<And>i. rq_fd q = Some i \<Longrightarrow> w_data w' i = w_data w i) \<Longrightarrow> rq_core q w' xs = rq_core q w xs"
  by (auto simp: rq_core_def rq_disk_def split: option.splits)

lemma rq_synced_cong:
  "(\<And>i. rq_fd q = Some i \<Longrightarrow> w_data w' i = w_data w i) \<Longrightarrow> rq_synced q w' = rq_synced q w"
  by (auto simp: rq_synced_def split: option.splits)

lemma q_close_ok: "rq_core q w xs \<Longrightarrow> q_close q = Some ()"
  by (auto simp: rq_core_def rq_mem_def q_close_def split: option.splits)

definition rq_apart :: "rqueue \<Rightarrow> rqueue \<Rightarrow> bool" where
  "rq_apart q q2 \<longleftrightarrow> (\<forall>i. rq_fd q = Some i \<longrightarrow> rq_fd q2 \<noteq> Some i)"

lemma int_of_size_pos: "0 < n \<Longrightarrow> n < 2 ^ 31 \<Longrightarrow> 0 < int_of_size n"
  by (simp add: int_of_size_def signed_of_nat signed_take_bit_int_eq_self)

lemma q_migrate_ok:
  assumes "world_ok w" "rq_core q w xs" "rq_core q2 w ys" "rq_apart q q2"
    "rq_entry_size q2 = rq_entry_size q" "length ys + length xs \<le> rq_num_entries q2"
    "rq_entry_size q < 2 ^ 31"
  shows "\<exists>q' q2' w'. q_migrate q q2 (rq_entry_size q) w = Some (None, q', q2', w') \<and>
      rq_core q' w' [] \<and> rq_core q2' w' (ys @ xs) \<and> rq_same q2 q2' \<and> rq_same q q' \<and>
      world_ok w' \<and> w_dir w' = w_dir w \<and> w_fresh w' = w_fresh w"
  using assms
proof (induction xs arbitrary: q q2 w ys)
  case Nil
  then show ?case by (simp add: q_migrate.simps q_peek_empty rq_same_def)
next
  case (Cons x xs)
  have x: "is_cstr x" "length x < rq_entry_size q"
    using Cons.prems(2) by (auto simp: rq_core_def rq_sizes_def)
  obtain q' w' where p: "q_peek q (rq_entry_size q) w = Some ((int_of_size (length x + 1), Inr (Some x)), q', w')"
    "rq_core q' w' (x # xs)" "rq_frame q w w'" "rq_same q q'" "w_data w' = w_data w"
    using q_peek_ok [OF Cons.prems(1,2) x(2)] by blast
  have w': "world_ok w'" using p(3) by (simp add: rq_frame_def)
  have "rq_core q2 w' ys" using Cons.prems(3) rq_core_cong [of q2 w' w] p(5) by simp
  moreover have "length ys < rq_num_entries q2" using Cons.prems(6) by simp
  moreover have "length (cstr x) < rq_entry_size q2" using x Cons.prems(5) by (simp add: cstr_id)
  ultimately obtain q2' w'' where a: "q_append_no_sync_fh_state q2 x w' = Some (None, q2', w'')"
    "rq_core q2' w'' (ys @ [x])" "rq_frame q2 w' w''" "rq_same q2 q2'"
    using q_append_no_sync_ok [OF w', of q2 ys x] x(1) by (auto simp: cstr_id)
  obtain q'' where d: "q_drop_head_memory_only q' = Some (None, q'')" "rq_core q'' w' xs" "rq_same q' q''"
    using q_drop_mem_ok [OF p(2)] by blast
  have fd: "rq_fd q'' = rq_fd q" "rq_fd q2' = rq_fd q2" using p d a by (simp_all add: rq_same_def)
  have "rq_core q'' w'' xs"
    using d(2) rq_core_cong [of q'' w'' w'] a(3) Cons.prems(4) fd by (auto simp: rq_frame_def rq_apart_def)
  moreover have "world_ok w''" "rq_apart q'' q2'" "rq_entry_size q2' = rq_entry_size q''"
    "length (ys @ [x]) + length xs \<le> rq_num_entries q2'" "rq_entry_size q'' = rq_entry_size q"
    using a p d Cons.prems fd by (auto simp: rq_frame_def rq_same_def rq_apart_def)
  ultimately obtain q3 q4 w3 where
    "q_migrate q'' q2' (rq_entry_size q) w'' = Some (None, q3, q4, w3)" "rq_core q3 w3 []"
    "rq_core q4 w3 ((ys @ [x]) @ xs)" "rq_same q2' q4" "rq_same q'' q3" "world_ok w3"
    "w_dir w3 = w_dir w''" "w_fresh w3 = w_fresh w''"
    using Cons.IH [of w'' q'' q2' "ys @ [x]"] a(2) Cons.prems(7) by auto
  moreover have "0 < int_of_size (length x + 1)" using int_of_size_pos [of "length x + 1"] x(2) Cons.prems(7) by simp
  ultimately show ?case using p a d
    by (auto simp: q_migrate.simps [of q q2] rq_frame_def rq_same_def)
qed

text \<open>Every file the directory names was created before.\<close>

definition world_wf :: "rq_world \<Rightarrow> bool" where
  "world_wf w \<longleftrightarrow> world_ok w \<and> (\<forall>p i. w_dir w p = Some i \<longrightarrow> i < w_fresh w)"

lemma q_resize_ok:
  assumes "world_ok w" "rq_core q w xs" "rq_fd q = Some ino" "ino < w_fresh w" "w_dir w tmp = None"
    "tmp \<noteq> path" "has_flag fl Q_IN_FILE" "q_sizes_ok n (rq_entry_size q)" "n < UINT32_MAX" "length xs \<le> n"
    "rq_entry_size q < 2 ^ 31"
  shows "\<exists>q' w'. q_resize tmp q fl path n (rq_entry_size q) w = Some (Inr q', w') \<and>
      rq_holds q' w' xs \<and> rq_num_entries q' = n \<and> rq_fd q' = Some (w_fresh w) \<and>
      world_ok w' \<and> w_dir w' = (w_dir w)(path \<mapsto> w_fresh w)"
proof -
  let ?fl = "fl OR Q_CREAT OR Q_EXCL"
  have "has_flag ?fl Q_IN_FILE" "has_flag ?fl Q_CREAT"
    using assms(7) by (simp_all add: has_flag_or) (simp_all add: has_flag_def Q_flags)
  then obtain q2 w1 where o: "q_open_no_resize ?fl tmp n (rq_entry_size q) w = (Inr q2, w1)"
    "rq_holds q2 w1 []" "rq_fd q2 = Some (w_fresh w)" "rq_num_entries q2 = n"
    "rq_entry_size q2 = rq_entry_size q" "file_created tmp (new_file n (rq_entry_size q)) w w1"
    using q_open_new [OF assms(1,5) _ _ assms(8,9)] by blast
  have core: "rq_core q w1 xs"
    using assms(2,3,4) rq_core_cong [of q w1 w] o(6) by (simp add: file_created_def)
  have "world_ok w1" "rq_apart q q2" "rq_core q2 w1 []"
    using o assms(3,4) by (simp_all add: file_created_def rq_apart_def rq_holds_def)
  then obtain q' q2' w2 where m: "q_migrate q q2 (rq_entry_size q) w1 = Some (None, q', q2', w2)"
    "rq_core q' w2 []" "rq_core q2' w2 xs" "rq_same q2 q2'" "world_ok w2" "w_dir w2 = w_dir w1"
    using q_migrate_ok [of w1 q xs q2 "[]"] core o(4,5) assms(10,11) by auto
  obtain w3 where s: "sync_fh_state q2' w2 = (None, w3)" "rq_holds q2' w3 xs" "rq_frame q2' w2 w3"
    using sync_fh_state_ok [OF m(5,3)] by blast
  let ?w = "w3\<lparr>w_dir := (w_dir w3)(path := w_dir w3 tmp, tmp := None)\<rparr>"
  have "q_close q' = Some ()" by (rule q_close_ok [OF m(2)])
  moreover have "world_ok w3" using s(3) by (simp add: rq_frame_def)
  moreover have "rq_holds q2' ?w xs"
    using s(2) rq_core_cong [of q2' ?w w3] rq_synced_cong [of q2' ?w w3] by (simp add: rq_holds_def)
  moreover have "w_dir ?w = (w_dir w)(path \<mapsto> w_fresh w)"
    using s(3) m(6) o(6) assms(5,6) by (auto simp: rq_frame_def file_created_def fun_eq_iff)
  ultimately show ?thesis
    using o m s by (auto simp: q_resize_def sys_rename_def rq_same_def world_ok_def)
qed

lemma q_close_None:
  "q_close q = None \<longleftrightarrow> (\<exists>mem. rq_memory q = Some mem \<and> length mem < rq_num_entries q)"
  by (auto simp: q_close_def not_le split: option.splits)

lemma q_close_None_mem_set [simp]: "q_close (mem_set i v q) = None \<longleftrightarrow> q_close q = None"
  by (auto simp: q_close_None mem_set_def)

lemma q_close_None_fields [simp]:
  "q_close (q\<lparr>rq_queue_head := h, rq_queue_length := l\<rparr>) = None \<longleftrightarrow> q_close q = None"
  by (simp add: q_close_None)

lemma q_peek_close: "q_peek q n w = Some (r, q', w') \<Longrightarrow> q_close q' = None \<longleftrightarrow> q_close q = None"
  by (auto simp: q_peek_def Let_def split: if_splits option.splits sum.splits prod.splits)

lemma q_drop_mem_close:
  "q_drop_head_memory_only q = Some (r, q') \<Longrightarrow> q_close q' = None \<longleftrightarrow> q_close q = None"
  by (auto simp: q_drop_head_memory_only_def Let_def split: if_splits option.splits)

lemma q_migrate_close:
  "q_migrate q q2 n w = Some (r, q', q2', w') \<Longrightarrow> q_close q' = None \<longleftrightarrow> q_close q = None"
proof (induction q q2 n w rule: q_migrate.induct)
  case (1 q q2 n w)
  note eq = 1(2) [unfolded q_migrate.simps [of q q2 n w]]
  obtain r1 res q1 w1 where p: "q_peek q n w = Some ((r1, res), q1, w1)"
    using eq by (cases "q_peek q n w") auto
  then have c1: "q_close q1 = None \<longleftrightarrow> q_close q = None" by (rule q_peek_close)
  show ?case
  proof (cases "0 < r1 \<and> (\<exists>b. res = Inr b)")
    case False
    with eq p c1 show ?thesis by (auto split: sum.splits option.splits if_splits)
  next
    case True
    then obtain b where r1: "\<not> r1 = 0" "\<not> r1 < 0" "res = Inr b" by auto
    obtain r2 q3 w2 where a: "q_append_no_sync_fh_state q2 (case b of Some s \<Rightarrow> s | None \<Rightarrow> []) w1 = Some (r2, q3, w2)"
      using eq p r1 by (cases "q_append_no_sync_fh_state q2 (case b of Some s \<Rightarrow> s | None \<Rightarrow> []) w1") auto
    show ?thesis
    proof (cases r2)
      case (Some e)
      with eq p r1 a c1 show ?thesis by auto
    next
      case None
      then obtain r3 q4 where d: "q_drop_head_memory_only q1 = Some (r3, q4)"
        using eq p r1 a by (cases "q_drop_head_memory_only q1") auto
      then have "q_close q4 = None \<longleftrightarrow> q_close q1 = None" by (rule q_drop_mem_close)
      with eq p r1 a d None c1 1(1) [OF p refl refl refl r1 a refl None refl d refl]
      show ?thesis by (cases r3) auto
    qed
  qed
qed

lemma q_open_fail_oob:
  "q_close q = None \<Longrightarrow> q_open_fail q e w = None"
  "q_close q = None \<Longrightarrow> q_open_fail2 q q2 tmp e w = None"
  by (auto simp: q_open_fail_def q_open_fail2_def split: option.splits)

lemma q_resize_oob:
  "q_close q = None \<Longrightarrow> q_resize tmp q fl path n e w = None"
  by (auto simp: q_resize_def q_open_fail_oob dest: q_migrate_close
      split: option.splits prod.splits sum.splits)

section \<open>Properties\<close>

text \<open>C2: For every sequence of appends and takes on a queue kept in memory, in a file or in both,
  on a system where calls succeed and transfers make progress (in pieces of any size), the entries
  taken followed by the entries left are exactly the entries held before followed by those
  accepted, in order; the queue stays consistent and keeps its capacity.\<close>

theorem remote_queue_fifo:
  assumes "rq_inv s" and "rq.run ops s = (ins, outs, t)"
  shows "rq_inv t \<and> rq_contents s @ ins = outs @ rq_contents t \<and> rq_cap t = rq_cap s"
  using rq.run_order [OF assms] .

text \<open>C17: The file is a faithful copy: opening it again, with the same number of entries and entry
  size, yields a consistent queue that holds the same entries in the same order.\<close>

theorem remote_queue_reopen:
  assumes "world_ok w" "w_dir w path = Some ino" "rq_holds q w xs" "rq_fd q = Some ino"
    "rq_num_entries q < UINT32_MAX" "has_flag fl Q_IN_FILE"
    "\<not> (has_flag fl Q_CREAT \<and> has_flag fl Q_EXCL)"
  shows "\<exists>q' w'. q_open suffix fl path (rq_num_entries q) (rq_entry_size q) w = Some (Inr q', w') \<and>
           rq_holds q' w' xs \<and> rq_contents (q', w') = xs \<and> rq_inv (q', w')"
proof -
  have fh: "file_holds (rq_num_entries q) (rq_entry_size q) (rq_queue_head q) xs (w_data w ino)"
    by (rule rq_holds_file [OF assms(3-5)])
  then have "q_sizes_ok (rq_num_entries q) (rq_entry_size q)" by (simp add: file_holds_def)
  from q_open_existing [OF assms(1,2) fh assms(6,7) this] obtain w' where
    o: "q_open_no_resize fl path (rq_num_entries q) (rq_entry_size q) w =
      (Inr (empty_queue fl (rq_num_entries q) (rq_entry_size q)\<lparr>rq_fd := Some ino,
        rq_num_entries := rq_num_entries q, rq_queue_head := rq_queue_head q,
        rq_queue_length := length xs\<rparr>), w')" "same_files w w'" by blast
  then have "rq_holds (empty_queue fl (rq_num_entries q) (rq_entry_size q)\<lparr>rq_fd := Some ino,
        rq_num_entries := rq_num_entries q, rq_queue_head := rq_queue_head q,
        rq_queue_length := length xs\<rparr>) w' xs" "world_ok w'"
    using opened_holds [of _ _ _ xs w' ino fl] fh by (simp_all add: same_files_def)
  with o rq_invI show ?thesis by (simp add: q_open_def)
qed

text \<open>C21: Opening with \<open>Q_RESIZE\<close> and another number of entries moves every entry, in order, into a
  new file of that size, which takes the place of the old one under its name; the temporary name is
  gone. This needs entries smaller than 2 GiB, room for them and, when a memory copy is kept, a number
  of entries that is not smaller than that of the file.\<close>

theorem remote_queue_resize:
  assumes "world_wf w" "w_dir w path = Some ino" "rq_holds q w xs" "rq_fd q = Some ino"
    "rq_num_entries q < UINT32_MAX" "has_flag fl Q_IN_FILE" "has_flag fl Q_RESIZE"
    "\<not> (has_flag fl Q_CREAT \<and> has_flag fl Q_EXCL)" "w_dir w (path @ suffix) = None"
    "q_sizes_ok n (rq_entry_size q)" "n < UINT32_MAX" "n \<noteq> rq_num_entries q" "length xs \<le> n"
    "has_flag fl Q_IN_MEMORY \<longrightarrow> rq_num_entries q \<le> n" "rq_entry_size q < 2 ^ 31"
  shows "\<exists>q' w'. q_open suffix fl path n (rq_entry_size q) w = Some (Inr q', w') \<and>
           rq_holds q' w' xs \<and> rq_num_entries q' = n \<and> world_ok w' \<and>
           w_dir w' = (w_dir w)(path := rq_fd q')"
proof -
  have ok: "world_ok w" "ino < w_fresh w" using assms(1,2) by (simp_all add: world_wf_def)
  have fh: "file_holds (rq_num_entries q) (rq_entry_size q) (rq_queue_head q) xs (w_data w ino)"
    by (rule rq_holds_file [OF assms(3-5)])
  let ?q = "empty_queue fl n (rq_entry_size q)\<lparr>rq_fd := Some ino,
        rq_num_entries := rq_num_entries q, rq_queue_head := rq_queue_head q,
        rq_queue_length := length xs\<rparr>"
  obtain w' where o: "q_open_no_resize fl path n (rq_entry_size q) w = (Inr ?q, w')" "same_files w w'"
    using q_open_existing [OF ok(1) assms(2) fh assms(6,8,10)] by blast
  have q: "rq_fd ?q = Some ino" "rq_flags ?q = fl" "rq_entry_size ?q = rq_entry_size q"
    "rq_num_entries ?q = rq_num_entries q" "rq_queue_length ?q = length xs"
    by (simp_all add: empty_queue_def)
  have "rq_core ?q w' xs" "world_ok w'" "w_dir w' (path @ suffix) = None" "ino < w_fresh w'"
    "path @ suffix \<noteq> path"
    using opened_holds [of _ _ _ xs w' ino fl n] fh o(2) assms(2,9,14) ok
    by (auto simp: same_files_def rq_holds_def)
  with q_resize_ok [of w' ?q xs ino "path @ suffix" path fl n] q assms(6,10,11,13,15) obtain q' w'' where
    "q_resize (path @ suffix) ?q fl path n (rq_entry_size q) w' = Some (Inr q', w'')"
    "rq_holds q' w'' xs" "rq_num_entries q' = n" "rq_fd q' = Some (w_fresh w')" "world_ok w''"
    "w_dir w'' = (w_dir w')(path \<mapsto> w_fresh w')" by auto
  with o q assms(7,9,12,13) show ?thesis
    by (simp add: q_open_def same_files_def)
qed

text \<open>C23: An append that fails before it reaches the file header, for whatever reason (a full queue, an
  entry too long, no memory, a failed or partial write), leaves the queue as it was, in memory and
  in the file, for every behaviour of the system calls.\<close>

theorem remote_queue_append_atomic:
  assumes "rq_holds q w xs" "q_append_no_sync_fh_state q s w = Some (Some e, q', w')"
  shows "q' = q \<and> rq_holds q w' xs \<and> rq_contents (q', w') = xs"
  using q_append_no_sync_error [OF assms] rq_contents_eq [OF rq_holds_core] by blast

text \<open>C24: The memory copy is allocated for the number of entries the caller asks for, and
  \<open>num_entries\<close> is then taken from the file. When the file has more entries, every way out of
  \<open>q_open\<close> accesses the array out of its bounds: a smaller size can never be applied to a queue
  that is kept both in memory and in a file.\<close>

theorem remote_queue_shrink_oob:
  assumes "world_ok w" "w_dir w path = Some ino" "rq_holds q w xs" "rq_fd q = Some ino"
    "rq_num_entries q < UINT32_MAX" "has_flag fl Q_IN_FILE" "has_flag fl Q_IN_MEMORY"
    "\<not> (has_flag fl Q_CREAT \<and> has_flag fl Q_EXCL)"
    "q_sizes_ok n (rq_entry_size q)" "n < rq_num_entries q"
  shows "q_open suffix fl path n (rq_entry_size q) w = None"
proof -
  have fh: "file_holds (rq_num_entries q) (rq_entry_size q) (rq_queue_head q) xs (w_data w ino)"
    by (rule rq_holds_file [OF assms(3-5)])
  let ?q = "empty_queue fl n (rq_entry_size q)\<lparr>rq_fd := Some ino,
        rq_num_entries := rq_num_entries q, rq_queue_head := rq_queue_head q,
        rq_queue_length := length xs\<rparr>"
  obtain w' where o: "q_open_no_resize fl path n (rq_entry_size q) w = (Inr ?q, w')" "same_files w w'"
    using q_open_existing [OF assms(1,2) fh assms(6,8,9)] by blast
  have "q_close ?q = None" "rq_num_entries ?q \<noteq> n"
    using assms(7,10) by (simp_all add: q_close_None empty_queue_def)
  then show ?thesis
    using o by (simp add: q_open_def q_open_fail_oob q_resize_oob split: option.splits prod.splits)
qed

section \<open>Witnesses\<close>

text \<open>An empty queue of four entries of 32 bytes in the file \<open>q\<close>, on a system that moves a few
  bytes at a time.\<close>

definition demo_world :: rq_world where
  "demo_world = \<lparr>w_dir = [''q'' \<mapsto> 0], w_data = (\<lambda>_. new_file 4 32), w_fresh = 1, w_sys = [],
                 w_io = [Inr 5, Inr 1, Inr 100]\<rparr>"

definition demo_queue :: rqueue where
  "demo_queue = empty_queue Q_IN_FILE 4 32\<lparr>rq_fd := Some 0\<rparr>"

lemma demo_sizes: "q_sizes_ok 4 32" "q_sizes_ok 2 32"
  by (simp_all add: q_sizes_ok_def UINT32_MAX_def SIZE_MAX_def sizeof_file_header_def
      sizeof_queue_def sizeof_pointer_def)

lemma demo_holds: "rq_holds demo_queue demo_world []" "world_ok demo_world"
proof -
  have "file_holds 4 32 0 [] (w_data demo_world 0)"
    using file_holds_new [OF demo_sizes(1)] by (simp add: UINT32_MAX_def demo_world_def)
  from opened_holds [OF this, of Q_IN_FILE 4] show "rq_holds demo_queue demo_world []"
    by (simp add: demo_queue_def empty_queue_def)
  show "world_ok demo_world" by (simp add: demo_world_def world_ok_def io_ok_def)
qed

lemma demo_fields: "rq_num_entries demo_queue = 4" "rq_entry_size demo_queue = 32"
  "rq_fd demo_queue = Some 0" "w_dir demo_world = [''q'' \<mapsto> 0]"
  by (simp_all add: demo_queue_def demo_world_def empty_queue_def)

lemma demo_flags: "has_flag Q_IN_FILE Q_IN_FILE" "\<not> has_flag Q_IN_FILE Q_CREAT" "\<not> has_flag Q_IN_FILE Q_IN_MEMORY"
  "has_flag (Q_IN_FILE OR Q_RESIZE) Q_IN_FILE" "has_flag (Q_IN_FILE OR Q_RESIZE) Q_RESIZE"
  "\<not> has_flag (Q_IN_FILE OR Q_RESIZE) Q_CREAT" "\<not> has_flag (Q_IN_FILE OR Q_RESIZE) Q_IN_MEMORY"
  "has_flag (Q_IN_FILE OR Q_IN_MEMORY) Q_IN_FILE" "has_flag (Q_IN_FILE OR Q_IN_MEMORY) Q_IN_MEMORY"
  "\<not> has_flag (Q_IN_FILE OR Q_IN_MEMORY) Q_CREAT"
  by (simp_all add: has_flag_or) (simp_all add: has_flag_def Q_flags)

theorem remote_queue_fifo_witness:
  "\<exists>ins outs t. rq.run [Push ''a'', Pop] (demo_queue, demo_world) = (ins, outs, t) \<and> rq_inv t \<and>
     ins = outs @ rq_contents t \<and> rq_cap t = 4"
proof -
  obtain ins outs t where run: "rq.run [Push ''a'', Pop] (demo_queue, demo_world) = (ins, outs, t)"
    by (cases "rq.run [Push ''a'', Pop] (demo_queue, demo_world)")
  have "rq_inv (demo_queue, demo_world)" "rq_contents (demo_queue, demo_world) = []"
    using rq_invI [OF demo_holds(2,1)] by simp_all
  with remote_queue_fifo [OF _ run] run show ?thesis
    by (simp add: rq_cap_def demo_fields)
qed

lemma demo_append:
  "\<exists>q w. q_append demo_queue ''a'' demo_world = Some (None, q, w) \<and> rq_holds q w [''a''] \<and>
     rq_frame demo_queue demo_world w \<and> rq_same demo_queue q"
  using q_append_ok [OF demo_holds(2) rq_holds_core [OF demo_holds(1)], of "''a''"] by (simp add: demo_fields cstr_def)

theorem remote_queue_reopen_witness:
  "\<exists>q w q' w'. q_append demo_queue ''a'' demo_world = Some (None, q, w) \<and>
     q_open ''.123456'' Q_IN_FILE ''q'' 4 32 w = Some (Inr q', w') \<and> rq_holds q' w' [''a''] \<and>
     rq_contents (q', w') = [''a''] \<and> rq_inv (q', w')"
proof -
  obtain q w where a: "q_append demo_queue ''a'' demo_world = Some (None, q, w)" "rq_holds q w [''a'']"
    "rq_frame demo_queue demo_world w" "rq_same demo_queue q" using demo_append by blast
  then have "world_ok w" "w_dir w = [''q'' \<mapsto> 0]" "rq_fd q = Some 0" "rq_num_entries q = 4" "rq_entry_size q = 32"
    by (simp_all add: rq_frame_def rq_same_def demo_fields)
  with remote_queue_reopen [OF _ _ a(2), of "''q''" 0 Q_IN_FILE "''.123456''"] a(1)
  show ?thesis by (simp add: demo_flags UINT32_MAX_def)
qed

theorem remote_queue_resize_witness:
  "\<exists>q w q' w'. q_append demo_queue ''a'' demo_world = Some (None, q, w) \<and>
     q_open ''.123456'' (Q_IN_FILE OR Q_RESIZE) ''q'' 2 32 w = Some (Inr q', w') \<and>
     rq_holds q' w' [''a''] \<and> rq_num_entries q' = 2 \<and> world_ok w' \<and> w_dir w' = (w_dir w)(''q'' := rq_fd q')"
proof -
  obtain q w where a: "q_append demo_queue ''a'' demo_world = Some (None, q, w)" "rq_holds q w [''a'']"
    "rq_frame demo_queue demo_world w" "rq_same demo_queue q" using demo_append by blast
  then have f: "world_ok w" "w_dir w = [''q'' \<mapsto> 0]" "rq_fd q = Some 0" "rq_num_entries q = 4" "rq_entry_size q = 32"
    by (simp_all add: rq_frame_def rq_same_def demo_fields)
  have "world_wf w" using a(3) f(1,2) by (simp add: world_wf_def rq_frame_def demo_world_def)
  from remote_queue_resize [OF this _ a(2), of "''q''" 0 "Q_IN_FILE OR Q_RESIZE" "''.123456''" 2] f a(1)
  show ?thesis by (simp add: demo_flags demo_sizes UINT32_MAX_def)
qed

text \<open>An entry of 2 GiB or more, which the checks of \<open>q_open\<close> allow, stops the move although nothing failed:
  \<open>q_peek\<close> copies it and returns a negative size.\<close>

lemma q_migrate_large_entry:
  assumes "world_ok w" "rq_core q w (x # xs)" "length x + 1 \<in> {2 ^ 31 ..< 2 ^ 32}"
  shows "\<exists>q' w'. q_migrate q q2 (rq_entry_size q) w = Some (Some EOTHER, q', q2, w')"
proof -
  have "(int (length x + 1) + 2 ^ 31) mod 2 ^ 32 = int (length x + 1) + 2 ^ 31 - 2 ^ 32"
    using assms(3) by (subst mod_pos_geq) (simp_all add: mod_pos_pos_trivial)
  then have "int_of_size (length x + 1) < 0"
    using assms(3) unfolding int_of_size_def signed_of_nat
    by (simp add: signed_take_bit_eq_take_bit_shift take_bit_eq_mod add.commute)
  moreover have "length x < rq_entry_size q" using assms(2) by (simp add: rq_core_def rq_sizes_def)
  then obtain q' w' where "q_peek q (rq_entry_size q) w = Some ((int_of_size (length x + 1), Inr (Some x)), q', w')"
    using q_peek_ok [OF assms(1,2)] by blast
  ultimately show ?thesis by (simp add: q_migrate.simps [of q q2])
qed

theorem remote_queue_append_atomic_witness:
  "\<exists>w'. q_append_no_sync_fh_state demo_queue ''ab'' (demo_world\<lparr>w_io := [Inr 1, Inl EIO]\<rparr>) =
          Some (Some EIO, demo_queue, w') \<and>
        rq_holds demo_queue w' [] \<and> rq_contents (demo_queue, w') = []"
proof -
  let ?w = "demo_world\<lparr>w_io := [Inr 1, Inl EIO]\<rparr>"
  have holds: "rq_holds demo_queue ?w []"
    using demo_holds(1) rq_core_cong [of demo_queue ?w demo_world] rq_synced_cong [of demo_queue ?w demo_world]
    by (simp add: rq_holds_def)
  have "full_pwrite [Inr 1, Inl EIO] d (''ab'' @ [NUL]) k = (Some EIO, disk_write k ''a'' d, [])" for d k
    by (subst full_pwrite.simps, simp add: SSIZE_MAX_def) (subst full_pwrite.simps, simp)
  then have "\<exists>w'. q_append_no_sync_fh_state demo_queue ''ab'' ?w = Some (Some EIO, demo_queue, w')"
    by (simp add: q_append_no_sync_fh_state_def demo_queue_def empty_queue_def demo_flags mem_get_def
        q_pwrite_def cstr_def Let_def demo_world_def)
  with remote_queue_append_atomic [OF holds] show ?thesis by blast
qed

theorem remote_queue_shrink_oob_witness:
  "q_open ''.123456'' (Q_IN_FILE OR Q_IN_MEMORY) ''q'' 2 32 demo_world = None"
  using remote_queue_shrink_oob [OF demo_holds(2) _ demo_holds(1),
      of "''q''" 0 "Q_IN_FILE OR Q_IN_MEMORY" 2 "''.123456''"]
  by (simp add: demo_fields demo_flags demo_sizes UINT32_MAX_def)

end
