(* ===== verification/Nvlist.thy ===== *)
theory Nvlist
  imports Audit_Prelude
begin

text \<open>
  The name/value list of a record, \<open>auparse/nvlist.c\<close>, \<open>auparse/nvlist.h\<close> and the types of
  \<open>auparse/rnode.h\<close>.

  The linked list is the sequence of its nodes, the cursor \<open>cur\<close> the index of a node or nothing
  (a NULL pointer). A field may lack its name (the pointer is NULL). Following a NULL pointer is
  \<open>None\<close>. The interpretation of a field is done by
  \<open>auparse/interpret.c\<close>; it is an argument of the operation that uses it.
\<close>

section \<open>Data\<close>

record nvnode =
  nv_name :: "string option"
  nv_val :: "string option"
  nv_interp_val :: "string option"
  nv_item :: u32

record nvlist =
  nodes :: "nvnode list"
  cur :: "nat option"
  cnt :: u32

record rnode =
  r_record :: string
  r_interp :: "string option"
  r_cwd :: "string option"
  r_type :: int
  r_machine :: int
  r_syscall :: int
  r_a0 :: nat
  r_a1 :: nat
  r_nv :: nvlist
  r_item :: nat
  r_list_idx :: int
  r_line_number :: nat

text \<open>The time stamp, serial number and host of an event.\<close>

record au_event =
  e_sec :: int
  e_milli :: nat
  e_serial :: nat
  e_host :: "string option"

section \<open>Operations\<close>

definition nvlist_create :: nvlist where
  "nvlist_create = \<lparr>nodes = [], cur = None, cnt = 0\<rparr>"

definition nvlist_get_cnt :: "nvlist \<Rightarrow> u32" where
  "nvlist_get_cnt l = cnt l"

definition nvlist_first :: "nvlist \<Rightarrow> nvlist" where
  "nvlist_first l = l\<lparr>cur := (if nodes l = [] then None else Some 0)\<rparr>"

definition nvlist_last :: "nvlist \<Rightarrow> nvlist" where
  "nvlist_last l = (if nodes l = [] then l else l\<lparr>cur := Some (length (nodes l) - 1)\<rparr>)"

definition succ_index :: "nvlist \<Rightarrow> nat \<Rightarrow> nat option" where
  "succ_index l i = (if Suc i < length (nodes l) then Some (Suc i) else None)"

definition nvlist_next :: "nvlist \<Rightarrow> nvlist" where
  "nvlist_next l = (case cur l of None \<Rightarrow> l | Some i \<Rightarrow> l\<lparr>cur := succ_index l i\<rparr>)"

definition nvlist_get_cur :: "nvlist \<Rightarrow> nvnode option" where
  "nvlist_get_cur l = map_option (\<lambda>i. nodes l ! i) (cur l)"

definition nvlist_get_cur_name :: "nvlist \<Rightarrow> string option" where
  "nvlist_get_cur_name l = Option.bind (nvlist_get_cur l) nv_name"

definition nvlist_get_cur_val :: "nvlist \<Rightarrow> string option" where
  "nvlist_get_cur_val l = Option.bind (nvlist_get_cur l) nv_val"

definition nvlist_get_cur_val_interp :: "nvlist \<Rightarrow> string option" where
  "nvlist_get_cur_val_interp l = Option.bind (nvlist_get_cur l) nv_interp_val"

text \<open>\<open>node->next = newnode\<close> makes the new node the last one: what followed \<open>node\<close> is lost.\<close>

definition link_after :: "nat \<Rightarrow> nvnode \<Rightarrow> nvlist \<Rightarrow> nvlist" where
  "link_after i n l = l\<lparr>nodes := take (Suc i) (nodes l) @ [n]\<rparr>"

definition nvlist_append :: "bool \<Rightarrow> nvlist \<Rightarrow> nvnode \<Rightarrow> nvlist ub" where
  "nvlist_append mem_ok l node =
     (if \<not> mem_ok then None
      else
        let newnode = \<lparr>nv_name = nv_name node, nv_val = nv_val node, nv_interp_val = None, nv_item = cnt l\<rparr> in
        let linked =
          (if nodes l = [] then Some (l\<lparr>nodes := [newnode]\<rparr>)
           else (case cur l of
               None \<Rightarrow> None
             | Some i \<Rightarrow>
                 if cnt l = nv_item (nodes l ! i) + 1 then Some (link_after i newnode l)
                 else Some (link_after (length (nodes l) - 1) newnode (nvlist_last l))))
        in map_option (\<lambda>l'. l'\<lparr>cur := Some (length (nodes l') - 1), cnt := cnt l + 1\<rparr>) linked)"

definition nvlist_interp_fixup :: "nvlist \<Rightarrow> nvlist" where
  "nvlist_interp_fixup l =
     (case cur l of
        None \<Rightarrow> l
      | Some i \<Rightarrow> l\<lparr>nodes := (nodes l)[i := (nodes l ! i)
                     \<lparr>nv_interp_val := nv_val (nodes l ! i), nv_val := None\<rparr>]\<rparr>)"

text \<open>The index of the first node from \<open>i\<close> on that satisfies \<open>P\<close>: the loop of
  \<open>nvlist_goto_rec\<close>. The loop of \<open>nvlist_find_name\<close> compares the name of every node it passes, and
  comparing NULL is undefined.\<close>

fun search_from :: "(nvnode \<Rightarrow> bool) \<Rightarrow> nvnode list \<Rightarrow> nat \<Rightarrow> nat option" where
  "search_from P [] i = None"
| "search_from P (n # ns) i = (if P n then Some i else search_from P ns (Suc i))"

definition nvlist_goto_rec :: "nvlist \<Rightarrow> u32 \<Rightarrow> bool \<times> nvlist" where
  "nvlist_goto_rec l i =
     (case search_from (\<lambda>n. nv_item n = i) (nodes l) 0 of
        None \<Rightarrow> (False, l)
      | Some k \<Rightarrow> (True, l\<lparr>cur := Some k\<rparr>))"

fun find_from :: "string \<Rightarrow> nvnode list \<Rightarrow> nat \<Rightarrow> nat option ub" where
  "find_from name [] i = Some None"
| "find_from name (n # ns) i =
     (case nv_name n of
        None \<Rightarrow> None
      | Some m \<Rightarrow> if m = name then Some (Some i) else find_from name ns (Suc i))"

definition nvlist_find_name :: "nvlist \<Rightarrow> string \<Rightarrow> (bool \<times> nvlist) ub" where
  "nvlist_find_name l name =
     (case cur l of
        None \<Rightarrow> Some (False, l)
      | Some i \<Rightarrow>
          map_option (\<lambda>found. case found of None \<Rightarrow> (False, l) | Some k \<Rightarrow> (True, l\<lparr>cur := Some k\<rparr>))
            (find_from name (drop i (nodes l)) i))"

text \<open>
  \<open>nvlist_interp_cur_val\<close>: the cached interpretation, or the one \<open>interpret\<close> computes, which
  stores it in the node.
\<close>

definition nvlist_interp_cur_val ::
    "(rnode \<Rightarrow> nvnode \<Rightarrow> string option) \<Rightarrow> rnode \<Rightarrow> (string option \<times> rnode) ub" where
  "nvlist_interp_cur_val interpret r =
     (let l = r_nv r in
      case cur l of
        None \<Rightarrow> None
      | Some i \<Rightarrow>
          let n = nodes l ! i in
          (case nv_interp_val n of
             Some v \<Rightarrow> Some (Some v, r)
           | None \<Rightarrow>
               let out = interpret r n in
               Some (out, r\<lparr>r_nv := l\<lparr>nodes := (nodes l)[i := n\<lparr>nv_interp_val := out\<rparr>]\<rparr>\<rparr>)))"

definition nvlist_clear :: "nvlist \<Rightarrow> nvlist" where
  "nvlist_clear l = (if nodes l = [] then l else nvlist_create)"

section \<open>Well-formed lists\<close>

text \<open>Every node carries its position, the counter is the length, the cursor is a node or NULL.\<close>

definition nv_wf :: "nvlist \<Rightarrow> bool" where
  "nv_wf l \<longleftrightarrow>
     length (nodes l) < 2 ^ 32 \<and> cnt l = of_nat (length (nodes l)) \<and>
     (\<forall>i < length (nodes l). nv_item (nodes l ! i) = of_nat i) \<and>
     (\<forall>i. cur l = Some i \<longrightarrow> i < length (nodes l))"

lemma of_nat_u32_eq:
  "a < 2 ^ 32 \<Longrightarrow> b < 2 ^ 32 \<Longrightarrow> (of_nat a :: u32) = of_nat b \<longleftrightarrow> a = b"
  by (simp add: word_of_nat_eq_iff take_bit_nat_eq_self)

lemma nv_wf_create [simp]: "nv_wf nvlist_create"
  by (simp add: nv_wf_def nvlist_create_def)

lemma nv_wf_moves:
  assumes "nv_wf l"
  shows "nv_wf (nvlist_first l)" "nv_wf (nvlist_last l)" "nv_wf (nvlist_next l)" "nv_wf (nvlist_clear l)"
    "nv_wf (nvlist_interp_fixup l)"
  using assms
  by (auto simp: nv_wf_def nvlist_first_def nvlist_last_def nvlist_next_def nvlist_clear_def succ_index_def
      nvlist_interp_fixup_def nth_list_update nvlist_create_def split: option.splits if_splits)

lemma search_from_Some:
  "search_from P ns i = Some k \<Longrightarrow>
     \<exists>j < length ns. k = i + j \<and> P (ns ! j) \<and> (\<forall>m < j. \<not> P (ns ! m))"
proof (induction P ns i rule: search_from.induct)
  case (2 P n ns i)
  show ?case
  proof (cases "P n")
    case False
    with 2 obtain j where "j < length ns" "k = Suc i + j" "P (ns ! j)" "\<forall>m < j. \<not> P (ns ! m)"
      by auto
    with False show ?thesis
      by (intro exI [of _ "Suc j"]) (auto simp: less_Suc_eq_0_disj)
  qed (use 2 in auto)
qed simp

lemma search_from_None: "search_from P ns i = None \<longleftrightarrow> (\<forall>n \<in> set ns. \<not> P n)"
  by (induction P ns i rule: search_from.induct) auto

lemma search_from_unique:
  "j < length ns \<Longrightarrow> P (ns ! j) \<Longrightarrow> (\<And>m. m < j \<Longrightarrow> \<not> P (ns ! m)) \<Longrightarrow> search_from P ns i = Some (i + j)"
proof (induction P ns i arbitrary: j rule: search_from.induct)
  case (2 P n ns i)
  show ?case
  proof (cases j)
    case (Suc k)
    have "\<not> P n" using 2(4) [of 0] Suc by simp
    moreover have "search_from P ns (Suc i) = Some (Suc i + k)"
      using 2(1) [OF \<open>\<not> P n\<close>, of k] 2(2,3) 2(4) [of "Suc m" for m] Suc by simp
    ultimately show ?thesis using Suc by simp
  qed (use 2 in simp)
qed simp

lemma find_from_named:
  "\<forall>n \<in> set ns. nv_name n \<noteq> None \<Longrightarrow> find_from name ns i = Some (search_from (\<lambda>n. nv_name n = Some name) ns i)"
  by (induction name ns i rule: find_from.induct) auto

lemma find_from_cases:
  "case find_from name ns i of
     None \<Rightarrow> \<exists>j < length ns. nv_name (ns ! j) = None \<and> Some name \<notin> nv_name ` set (take j ns)
   | Some None \<Rightarrow> Some name \<notin> nv_name ` set ns
   | Some (Some k) \<Rightarrow> \<exists>j < length ns. k = i + j \<and> nv_name (ns ! j) = Some name \<and> Some name \<notin> nv_name ` set (take j ns)"
proof (induction name ns i rule: find_from.induct)
  case (2 name n ns i)
  show ?case
  proof (cases "nv_name n")
    case None
    then show ?thesis by force
  next
    case (Some m)
    show ?thesis
    proof (cases "m = name")
      case False
      from 2 [OF Some this] Some False show ?thesis
        by (force split: option.splits intro: exI [where x = "Suc j" for j])
    qed (use Some in force)
  qed
qed simp

lemma nvlist_append_wf:
  assumes "nv_wf l" "nodes l = [] \<or> cur l \<noteq> None" "length (nodes l) + 1 < 2 ^ 32"
  shows "\<exists>l'. nvlist_append True l node = Some l' \<and> nv_wf l' \<and>
           nodes l' = nodes l @ [\<lparr>nv_name = nv_name node, nv_val = nv_val node, nv_interp_val = None,
                                  nv_item = of_nat (length (nodes l))\<rparr>] \<and>
           cur l' = Some (length (nodes l))"
proof (cases "nodes l = []")
  case True
  with assms show ?thesis by (simp add: nvlist_append_def nv_wf_def Let_def)
next
  case False
  then obtain i where i: "cur l = Some i" using assms(2) by auto
  then have less: "i < length (nodes l)" "nv_item (nodes l ! i) = of_nat i" "cnt l = of_nat (length (nodes l))"
    using assms(1) by (auto simp: nv_wf_def)
  have "cnt l = nv_item (nodes l ! i) + 1 \<longleftrightarrow> length (nodes l) = Suc i"
    using of_nat_u32_eq [of "length (nodes l)" "Suc i"] less assms(1) by (simp add: nv_wf_def add.commute)
  then show ?thesis
    using False i less assms
    by (auto simp: nvlist_append_def nv_wf_def Let_def link_after_def nvlist_last_def nth_append less_Suc_eq)
qed

section \<open>Properties\<close>

text \<open>Appending to a well-formed list whose cursor is on a node puts the pair behind all others,
  numbers it with its position, moves the cursor to it and keeps the list well-formed. It is
  undefined exactly when memory is exhausted or the cursor of a non-empty list has run off its
  end.\<close>

theorem nvlist_append_correct:
  assumes "nv_wf l" "length (nodes l) + 1 < 2 ^ 32"
  shows "case nvlist_append mem_ok l node of
           None \<Rightarrow> \<not> mem_ok \<or> (nodes l \<noteq> [] \<and> cur l = None)
         | Some l' \<Rightarrow> nv_wf l' \<and> cur l' = Some (length (nodes l)) \<and>
             nodes l' = nodes l @ [\<lparr>nv_name = nv_name node, nv_val = nv_val node, nv_interp_val = None,
                                    nv_item = of_nat (length (nodes l))\<rparr>]"
proof (cases "mem_ok \<and> (nodes l = [] \<or> cur l \<noteq> None)")
  case True
  then show ?thesis using nvlist_append_wf [OF assms(1) _ assms(2), of node] by auto
next
  case False
  then show ?thesis by (auto simp: nvlist_append_def Let_def)
qed

theorem nvlist_append_correct_witness:
  "case nvlist_append True nvlist_create \<lparr>nv_name = Some ''uid'', nv_val = Some ''0'', nv_interp_val = None, nv_item = 7\<rparr> of
     None \<Rightarrow> False
   | Some l' \<Rightarrow> nv_wf l' \<and> cur l' = Some 0 \<and>
       nodes l' = [\<lparr>nv_name = Some ''uid'', nv_val = Some ''0'', nv_interp_val = None, nv_item = 0\<rparr>]"
  using nvlist_append_correct [OF nv_wf_create, of True
      "\<lparr>nv_name = Some ''uid'', nv_val = Some ''0'', nv_interp_val = None, nv_item = 7\<rparr>"]
  by (simp add: nvlist_create_def split: option.splits)

text \<open>On a well-formed list \<open>nvlist_find_name\<close> from the start finds the first field of that name
  when there is one and moves the cursor to it, and reports failure otherwise, unless a field without
  a name stands before the first match: that is undefined. \<open>nvlist_goto_rec\<close>
  reaches every position below the length, and only those.\<close>

theorem nvlist_search_correct:
  assumes "nv_wf l"
  shows "(case nvlist_find_name (nvlist_first l) name of
            None \<Rightarrow> \<exists>j < length (nodes l). nv_name (nodes l ! j) = None \<and> Some name \<notin> nv_name ` set (take j (nodes l))
          | Some (True, l') \<Rightarrow> \<exists>k < length (nodes l). l' = l\<lparr>cur := Some k\<rparr> \<and> nv_name (nodes l ! k) = Some name
                            \<and> Some name \<notin> nv_name ` set (take k (nodes l))
          | Some (False, l') \<Rightarrow> l' = nvlist_first l \<and> Some name \<notin> nv_name ` set (nodes l)) \<and>
         (i < length (nodes l) \<longrightarrow> nvlist_goto_rec l (of_nat i) = (True, l\<lparr>cur := Some i\<rparr>))"
proof (intro conjI impI)
  have "cur (nvlist_first l) = (if nodes l = [] then None else Some 0)" "nodes (nvlist_first l) = nodes l"
    by (simp_all add: nvlist_first_def)
  then show "case nvlist_find_name (nvlist_first l) name of
            None \<Rightarrow> \<exists>j < length (nodes l). nv_name (nodes l ! j) = None \<and> Some name \<notin> nv_name ` set (take j (nodes l))
          | Some (True, l') \<Rightarrow> \<exists>k < length (nodes l). l' = l\<lparr>cur := Some k\<rparr> \<and> nv_name (nodes l ! k) = Some name
                            \<and> Some name \<notin> nv_name ` set (take k (nodes l))
          | Some (False, l') \<Rightarrow> l' = nvlist_first l \<and> Some name \<notin> nv_name ` set (nodes l)"
    using find_from_cases [where name = name and ns = "nodes l" and i = 0]
    by (auto simp: nvlist_find_name_def nvlist_first_def split: option.splits)
  assume i: "i < length (nodes l)"
  have "search_from (\<lambda>n. nv_item n = of_nat i) (nodes l) 0 = Some (0 + i)"
    using assms i by (intro search_from_unique) (auto simp: nv_wf_def of_nat_u32_eq)
  then show "nvlist_goto_rec l (of_nat i) = (True, l\<lparr>cur := Some i\<rparr>)"
    by (simp add: nvlist_goto_rec_def)
qed

definition demo_nvlist :: nvlist where
  "demo_nvlist =
     \<lparr>nodes = [\<lparr>nv_name = Some ''pid'', nv_val = Some ''1'', nv_interp_val = None, nv_item = 0\<rparr>,
               \<lparr>nv_name = Some ''uid'', nv_val = Some ''0'', nv_interp_val = None, nv_item = 1\<rparr>],
      cur = Some 1, cnt = 2\<rparr>"

lemma demo_nvlist_wf: "nv_wf demo_nvlist"
  by (auto simp: demo_nvlist_def nv_wf_def less_Suc_eq)

theorem nvlist_search_correct_witness:
  "nvlist_find_name (nvlist_first demo_nvlist) ''uid'' = Some (True, demo_nvlist\<lparr>cur := Some 1\<rparr>) \<and>
   nvlist_goto_rec demo_nvlist 1 = (True, demo_nvlist\<lparr>cur := Some 1\<rparr>)"
proof -
  have "nvlist_goto_rec demo_nvlist (of_nat 1) = (True, demo_nvlist\<lparr>cur := Some 1\<rparr>)"
    using nvlist_search_correct [OF demo_nvlist_wf, of "''uid''" 1] by (simp add: demo_nvlist_def)
  then show ?thesis by (simp add: nvlist_find_name_def nvlist_first_def demo_nvlist_def)
qed

end
