(* ===== verification/Lookup_Table.thy ===== *)
theory Lookup_Table
  imports Audit_Prelude
begin

text \<open>
  The translations between names and numbers of \<open>lib/lookup_table.c\<close>.

  The search functions \<open>*_s2i\<close> and \<open>*_i2s\<close> are generated by the build from the tables under
  \<open>lib/\<close>; they are the fields of the record \<open>gen_tables\<close>, together with the configuration
  switches. Everything the file does around them is modelled: the forms \<open>UNKNOWN[n]\<close> and plain
  numbers of record types, the sign of error names, the choice of the table by machine, and the
  table of ELF architectures.
\<close>

section \<open>Generated tables\<close>

datatype syscall_table = I386_table | X86_64_table | PPC_table | S390X_table | S390_table
  | ARM_table | AARCH64_table

record gen_tables =
  field_s2i :: "string \<Rightarrow> int option"
  field_i2s :: "int \<Rightarrow> string option"
  syscall_s2i :: "syscall_table \<Rightarrow> string \<Rightarrow> int option"
  syscall_i2s :: "syscall_table \<Rightarrow> int \<Rightarrow> string option"
  flag_s2i :: "string \<Rightarrow> int option"
  flag_i2s :: "int \<Rightarrow> string option"
  action_s2i :: "string \<Rightarrow> int option"
  action_i2s :: "int \<Rightarrow> string option"
  msg_type_s2i :: "string \<Rightarrow> int option"
  msg_type_i2s :: "int \<Rightarrow> string option"
  machine_s2i :: "string \<Rightarrow> int option"
  machine_i2s :: "int \<Rightarrow> string option"
  op_i2s :: "int \<Rightarrow> string option"
  err_s2i :: "string \<Rightarrow> int option"
  err_i2s :: "int \<Rightarrow> string option"
  ftype_s2i :: "string \<Rightarrow> int option"
  ftype_i2s :: "int \<Rightarrow> string option"
  fstype_s2i :: "string \<Rightarrow> int option"
  fstype_i2s :: "int \<Rightarrow> string option"
  with_arm :: bool
  with_aarch64 :: bool
  arch_value :: "string \<Rightarrow> u32"

definition MACH_X86 :: int where "MACH_X86 = 0"
definition MACH_86_64 :: int where "MACH_86_64 = 1"
definition MACH_PPC64 :: int where "MACH_PPC64 = 3"
definition MACH_PPC :: int where "MACH_PPC = 4"
definition MACH_S390X :: int where "MACH_S390X = 5"
definition MACH_S390 :: int where "MACH_S390 = 6"
definition MACH_ARM :: int where "MACH_ARM = 8"
definition MACH_AARCH64 :: int where "MACH_AARCH64 = 9"
definition MACH_PPC64LE :: int where "MACH_PPC64LE = 10"

lemmas MACH_defs = MACH_X86_def MACH_86_64_def MACH_PPC64_def MACH_PPC_def MACH_S390X_def
  MACH_S390_def MACH_ARM_def MACH_AARCH64_def MACH_PPC64LE_def

text \<open>The result of a search by name: the number, or -1.\<close>

definition found_or_minus1 :: "int option \<Rightarrow> int" where
  "found_or_minus1 r = (case r of Some v \<Rightarrow> v | None \<Rightarrow> - 1)"

section \<open>Translations\<close>

definition audit_name_to_field :: "gen_tables \<Rightarrow> string \<Rightarrow> int" where
  "audit_name_to_field T s = found_or_minus1 (field_s2i T s)"

definition audit_field_to_name :: "gen_tables \<Rightarrow> int \<Rightarrow> string option" where
  "audit_field_to_name T i = field_i2s T i"

text \<open>The table a machine uses.\<close>

definition machine_table :: "gen_tables \<Rightarrow> int \<Rightarrow> syscall_table option" where
  "machine_table T machine =
     (if machine = MACH_X86 then Some I386_table
      else if machine = MACH_86_64 then Some X86_64_table
      else if machine = MACH_PPC64 \<or> machine = MACH_PPC64LE \<or> machine = MACH_PPC then Some PPC_table
      else if machine = MACH_S390X then Some S390X_table
      else if machine = MACH_S390 then Some S390_table
      else if with_arm T \<and> machine = MACH_ARM then Some ARM_table
      else if with_aarch64 T \<and> machine = MACH_AARCH64 then Some AARCH64_table
      else None)"

definition audit_name_to_syscall :: "gen_tables \<Rightarrow> string \<Rightarrow> int \<Rightarrow> int" where
  "audit_name_to_syscall T sc machine =
     (case machine_table T machine of
        None \<Rightarrow> - 1
      | Some tab \<Rightarrow> found_or_minus1 (syscall_s2i T tab sc))"

definition audit_syscall_to_name :: "gen_tables \<Rightarrow> int \<Rightarrow> int \<Rightarrow> string option" where
  "audit_syscall_to_name T sc machine =
     (case machine_table T machine of
        None \<Rightarrow> None
      | Some tab \<Rightarrow> syscall_i2s T tab sc)"

definition audit_name_to_flag :: "gen_tables \<Rightarrow> string \<Rightarrow> int" where
  "audit_name_to_flag T s = found_or_minus1 (flag_s2i T s)"

definition audit_flag_to_name :: "gen_tables \<Rightarrow> int \<Rightarrow> string option" where
  "audit_flag_to_name T i = flag_i2s T i"

definition audit_name_to_action :: "gen_tables \<Rightarrow> string \<Rightarrow> int" where
  "audit_name_to_action T s = found_or_minus1 (action_s2i T s)"

definition audit_action_to_name :: "gen_tables \<Rightarrow> int \<Rightarrow> string option" where
  "audit_action_to_name T i = action_i2s T i"

text \<open>
  \<open>audit_name_to_msg_type\<close>: a name of the table, \<open>UNKNOWN[n]\<close> of which at most seven characters of
  \<open>n\<close> are kept, or a string that starts with a digit. The \<open>long\<close> result is returned as an \<open>int\<close>.
\<close>

definition audit_name_to_msg_type :: "gen_tables \<Rightarrow> string \<Rightarrow> int" where
  "audit_name_to_msg_type T msg_type =
     (case msg_type_s2i T msg_type of
        Some rc \<Rightarrow> rc
      | None \<Rightarrow>
          if take 8 msg_type = ''UNKNOWN['' then
            let rest = drop 8 msg_type in
            if CHR '']'' \<notin> set rest then - 1
            else
              let buf = take 7 (takeWhile (\<lambda>c. c \<noteq> CHR '']'') rest) in
              to_int32 (strtol buf)
          else if isdigit (peek msg_type) then to_int32 (strtol msg_type)
          else - 1)"

definition audit_msg_type_to_name :: "gen_tables \<Rightarrow> int \<Rightarrow> string option" where
  "audit_msg_type_to_name T i = msg_type_i2s T i"

definition audit_name_to_machine :: "gen_tables \<Rightarrow> string \<Rightarrow> int" where
  "audit_name_to_machine T s = found_or_minus1 (machine_s2i T s)"

definition audit_machine_to_name :: "gen_tables \<Rightarrow> int \<Rightarrow> string option" where
  "audit_machine_to_name T i = machine_i2s T i"

text \<open>\<open>elftab\<close>. The values of the \<open>AUDIT_ARCH_*\<close> constants come from the kernel's headers.\<close>

definition elftab :: "gen_tables \<Rightarrow> (int \<times> u32) list" where
  "elftab T =
     [(MACH_X86, arch_value T ''AUDIT_ARCH_I386''),
      (MACH_86_64, arch_value T ''AUDIT_ARCH_X86_64''),
      (MACH_PPC64, arch_value T ''AUDIT_ARCH_PPC64''),
      (MACH_PPC64LE, arch_value T ''AUDIT_ARCH_PPC64LE''),
      (MACH_PPC, arch_value T ''AUDIT_ARCH_PPC''),
      (MACH_S390X, arch_value T ''AUDIT_ARCH_S390X''),
      (MACH_S390, arch_value T ''AUDIT_ARCH_S390'')]
     @ (if with_arm T then [(MACH_ARM, arch_value T ''AUDIT_ARCH_ARM'')] else [])
     @ (if with_aarch64 T then [(MACH_AARCH64, arch_value T ''AUDIT_ARCH_AARCH64'')] else [])"

fun elf_search :: "int \<Rightarrow> (int \<times> u32) list \<Rightarrow> u32" where
  "elf_search machine [] = 0"
| "elf_search machine ((key, lvalue) # tab) = (if key = machine then lvalue else elf_search machine tab)"

fun machine_search :: "u32 \<Rightarrow> (int \<times> u32) list \<Rightarrow> int" where
  "machine_search elf [] = - 1"
| "machine_search elf ((key, lvalue) # tab) = (if lvalue = elf then key else machine_search elf tab)"

definition audit_machine_to_elf :: "gen_tables \<Rightarrow> int \<Rightarrow> u32" where
  "audit_machine_to_elf T machine = elf_search machine (elftab T)"

definition audit_elf_to_machine :: "gen_tables \<Rightarrow> u32 \<Rightarrow> int" where
  "audit_elf_to_machine T elf = machine_search elf (elftab T)"

definition audit_operator_to_symbol :: "gen_tables \<Rightarrow> int \<Rightarrow> string option" where
  "audit_operator_to_symbol T i = op_i2s T i"

definition audit_name_to_errno :: "gen_tables \<Rightarrow> string \<Rightarrow> int" where
  "audit_name_to_errno T error =
     (let neg = (peek error = CHR ''-'');
          name = (if neg then tl error else error);
          rc = (case err_s2i T name of None \<Rightarrow> 0 | Some v \<Rightarrow> v)
      in rc * (if neg then - 1 else 1))"

definition audit_errno_to_name :: "gen_tables \<Rightarrow> int \<Rightarrow> string option" where
  "audit_errno_to_name T error = (if error < 0 then None else err_i2s T error)"

definition audit_name_to_ftype :: "gen_tables \<Rightarrow> string \<Rightarrow> int" where
  "audit_name_to_ftype T s = found_or_minus1 (ftype_s2i T s)"

definition audit_ftype_to_name :: "gen_tables \<Rightarrow> int \<Rightarrow> string option" where
  "audit_ftype_to_name T i = ftype_i2s T i"

definition audit_name_to_fstype :: "gen_tables \<Rightarrow> string \<Rightarrow> int" where
  "audit_name_to_fstype T s = found_or_minus1 (fstype_s2i T s)"

definition audit_fstype_to_name :: "gen_tables \<Rightarrow> int \<Rightarrow> string option" where
  "audit_fstype_to_name T i = fstype_i2s T i"

section \<open>Lemmas\<close>

lemma machine_search_elf:
  assumes "distinct (map snd tab)" "machine \<in> fst ` set tab"
  shows "machine_search (elf_search machine tab) tab = machine"
  using assms
proof (induction tab)
  case (Cons kv tab)
  obtain k v where kv: "kv = (k, v)" by (cases kv)
  show ?case
  proof (cases "k = machine")
    case False
    then have m: "machine \<in> fst ` set tab" using Cons.prems(2) kv by auto
    then have "elf_search machine tab \<in> snd ` set tab"
      by (induction machine tab rule: elf_search.induct) auto
    then have "elf_search machine tab \<noteq> v" using Cons.prems(1) kv by auto
    with False Cons m kv show ?thesis by auto
  qed (simp add: kv)
qed simp

lemma length_show_nat: "n < 10 ^ Suc k \<Longrightarrow> length (show_nat n) \<le> Suc k"
proof (induction k arbitrary: n)
  case 0
  then show ?case by (simp add: show_nat.simps)
next
  case (Suc k)
  have "n div 10 < 10 ^ Suc k" using Suc.prems by (simp add: less_mult_imp_div_less)
  then have "length (show_nat (n div 10)) \<le> Suc k" by (rule Suc.IH)
  then show ?case by (subst show_nat.simps) simp
qed

lemma show_nat_no_bracket: "CHR '']'' \<notin> set (show_nat n)"
  using show_nat_digits [of n] by (auto simp: isdigit_def)

section \<open>Properties\<close>

text \<open>A record type that has no name is still recovered from the form \<open>UNKNOWN[n]\<close> the library
  prints for it, and from its decimal number, for every number of at most seven digits; any other
  string that is neither in the table nor starts with a digit gives -1.\<close>

theorem audit_name_to_msg_type_numbers:
  assumes "\<And>s. s \<notin> dom_names \<Longrightarrow> msg_type_s2i T s = None" "n < 10 ^ 7"
    "''UNKNOWN['' @ show_nat n @ '']'' \<notin> dom_names" "show_nat n \<notin> dom_names"
  shows "audit_name_to_msg_type T (''UNKNOWN['' @ show_nat n @ '']'') = int n
    \<and> audit_name_to_msg_type T (show_nat n) = int n
    \<and> (s \<notin> dom_names \<longrightarrow> \<not> isdigit (peek s) \<longrightarrow> take 8 s \<noteq> ''UNKNOWN['' \<longrightarrow> audit_name_to_msg_type T s = - 1)"
proof -
  have tw: "takeWhile (\<lambda>c. c \<noteq> CHR '']'') (show_nat n @ '']'') = show_nat n"
    using show_nat_no_bracket [of n] by (auto simp: takeWhile_append)
  have "length (show_nat n) \<le> 7" using length_show_nat [of n 6] assms(2) by simp
  then have tk: "take 7 (show_nat n) = show_nat n" by simp
  have num: "to_int32 (strtol (show_nat n)) = int n"
    using strtol_show [of n "[]"] to_int32_id [of "int n"] assms(2) by simp
  obtain c cs where c: "show_nat n = c # cs" "isdigit c" by (rule show_nat_first)
  then have "take 8 (show_nat n) \<noteq> ''UNKNOWN[''" by (auto simp: isdigit_def)
  then show ?thesis
    using assms c tw tk num by (simp add: audit_name_to_msg_type_def Let_def)
qed

definition sample_tables :: gen_tables where
  "sample_tables = \<lparr>field_s2i = Map.empty, field_i2s = Map.empty, syscall_s2i = (\<lambda>_. Map.empty),
     syscall_i2s = (\<lambda>_. Map.empty), flag_s2i = Map.empty, flag_i2s = Map.empty,
     action_s2i = Map.empty, action_i2s = Map.empty, msg_type_s2i = [''SYSCALL'' \<mapsto> 1300],
     msg_type_i2s = [1300 \<mapsto> ''SYSCALL''], machine_s2i = Map.empty, machine_i2s = Map.empty,
     op_i2s = Map.empty, err_s2i = [''EPERM'' \<mapsto> 1], err_i2s = [1 \<mapsto> ''EPERM''],
     ftype_s2i = Map.empty, ftype_i2s = Map.empty, fstype_s2i = Map.empty, fstype_i2s = Map.empty,
     with_arm = False, with_aarch64 = False,
     arch_value = (\<lambda>s. if s = ''AUDIT_ARCH_I386'' then 0x40000003
        else if s = ''AUDIT_ARCH_X86_64'' then 0xC000003E else if s = ''AUDIT_ARCH_PPC64'' then 0x80000015
        else if s = ''AUDIT_ARCH_PPC64LE'' then 0xC0000015 else if s = ''AUDIT_ARCH_PPC'' then 20
        else if s = ''AUDIT_ARCH_S390X'' then 0x80000016 else 22)\<rparr>"

theorem audit_name_to_msg_type_numbers_witness:
  "audit_name_to_msg_type sample_tables (''UNKNOWN['' @ show_nat 1999 @ '']'') = 1999
   \<and> audit_name_to_msg_type sample_tables (show_nat 1999) = 1999 \<and> audit_name_to_msg_type sample_tables ''foo'' = - 1"
proof -
  have "show_nat 1999 = ''1999''"
    by code_simp
  then show ?thesis
    using audit_name_to_msg_type_numbers [of "{''SYSCALL''}" sample_tables 1999 "''foo''"]
    by (simp add: sample_tables_def isdigit_def)
qed

text \<open>The ELF architecture of a machine in the table leads back to the machine, provided the
  kernel's architecture constants differ from each other; a machine that is not in the table has
  architecture 0.\<close>

theorem audit_elf_roundtrip:
  assumes "distinct (map snd (elftab T))"
  shows "if machine \<in> fst ` set (elftab T)
         then audit_elf_to_machine T (audit_machine_to_elf T machine) = machine
         else audit_machine_to_elf T machine = 0"
proof -
  have "elf_search machine tab = 0" if "machine \<notin> fst ` set tab" for tab
    using that by (induction machine tab rule: elf_search.induct) auto
  with machine_search_elf [OF assms] show ?thesis
    by (simp add: audit_elf_to_machine_def audit_machine_to_elf_def)
qed

theorem audit_elf_roundtrip_witness:
  "audit_elf_to_machine sample_tables (audit_machine_to_elf sample_tables MACH_PPC64LE) = MACH_PPC64LE"
  using audit_elf_roundtrip [of sample_tables MACH_PPC64LE]
  by (simp add: elftab_def sample_tables_def MACH_defs)

end
