(* ===== verification/Expr_Lexer.thy ===== *)
theory Expr_Lexer
  imports Audit_Prelude
begin

text \<open>
  The lexical analyser of the search expressions, \<open>lex\<close> and its helpers in
  \<open>auparse/expression.c\<close>, with the types of \<open>auparse/expression.h\<close> it uses.

  A pointer into the expression is the suffix of the string it points to. The outcome of the
  coming allocations is the list \<open>p_allocs\<close> (all succeed once it is used up). A failed step
  is a value of \<open>parse_error\<close>: one constructor for each message, with the text the message quotes,
  and \<open>Undefined_behaviour\<close> for a write outside the allocated buffer or a read behind the end of the
  expression.
\<close>

section \<open>Tokens\<close>

datatype eo = EO_NOT | EO_AND | EO_OR | EO_RAW_EQ | EO_RAW_NE | EO_INTERPRETED_EQ | EO_INTERPRETED_NE
  | EO_VALUE_EQ | EO_VALUE_NE | EO_VALUE_LT | EO_VALUE_LE | EO_VALUE_GT | EO_VALUE_GE
  | EO_FIELD_EXISTS | EO_REGEXP_MATCHES

datatype token_type = T_EO eo | T_LEFT_PAREN | T_RIGHT_PAREN | T_STRING | T_REGEXP | T_FIELD_ESCAPE
  | T_UNKNOWN | T_EOF

datatype parse_error =
    Out_of_memory
  | Terminating_delimiter_missing
  | Unknown_escape_sequence char
  | Delimited_string_too_long
  | Token_too_long
  | Invalid_timestamp_value string
  | Timestamp_overflow string
  | Invalid_record_type string
  | Error_converting_number string
  | Regexp_expected string
  | Invalid_regexp string
  | Field_name_expected
  | Unknown_escaped_field_name string
  | Value_expected string
  | Field_does_not_support_value_comparison string
  | Operator_expected string
  | Right_paren_expected string
  | Unexpected_token string
  | Empty_expression
  | Unexpected_trailing_token string
  | Undefined_behaviour
  | Abort

record parsing =
  p_token :: token_type
  p_token_start :: string
  p_token_len :: nat
  p_token_value :: "string option"
  p_src :: string
  p_allocs :: "bool list"

text \<open>The text of the current token, \<open>%.*s\<close> in the messages.\<close>

definition token_text :: "parsing \<Rightarrow> string" where
  "token_text p = take (p_token_len p) (p_token_start p)"

definition INT_MAX :: nat where
  "INT_MAX = 2 ^ 31 - 1"

abbreviation "backslash \<equiv> CHR 0x5C"
abbreviation "quote \<equiv> CHR 0x22"

section \<open>Allocation\<close>

text \<open>\<open>parser_malloc\<close>, and \<open>parser_realloc\<close> to a size that is not 0: whether the call succeeds, and
  the outcomes left.\<close>

definition parser_malloc :: "bool list \<Rightarrow> bool \<times> bool list" where
  "parser_malloc al = (case al of [] \<Rightarrow> (True, []) | b # bs \<Rightarrow> (b, bs))"

section \<open>Delimited strings\<close>

text \<open>
  The loop over the characters of a delimited string. \<open>buf_size\<close> is the size of the buffer,
  \<open>buf\<close> the \<open>dest\<close> characters stored so far. The result is the string and what follows the closing
  delimiter.
\<close>

definition lex_escape :: "char \<Rightarrow> string \<Rightarrow> parse_error + (char \<times> string)" where
  "lex_escape delimiter src =
     (case src of
        [] \<Rightarrow> Inl Terminating_delimiter_missing
      | c # s \<Rightarrow>
          if c = backslash then
            (case s of
               [] \<Rightarrow> Inl (Unknown_escape_sequence NUL)
             | c' # s' \<Rightarrow> if c' \<noteq> backslash \<and> c' \<noteq> delimiter then Inl (Unknown_escape_sequence c')
                         else Inr (c', s'))
          else Inr (c, s))"

definition grow_buffer :: "nat \<Rightarrow> nat \<Rightarrow> bool list \<Rightarrow> parse_error + (nat \<times> bool list)" where
  "grow_buffer dest buf_size al =
     (if dest + 1 \<ge> buf_size then
        if buf_size > SIZE_MAX div 2 then Inl Delimited_string_too_long
        else (case parser_malloc al of
            (True, al') \<Rightarrow> Inr (buf_size * 2, al')
          | (False, _) \<Rightarrow> Inl Out_of_memory)
      else Inr (buf_size, al))"

lemma lex_escape_shorter: "lex_escape d src = Inr (c, s) \<Longrightarrow> length s < length src"
  by (auto simp: lex_escape_def split: list.splits if_splits)

function lex_delimited ::
    "char \<Rightarrow> bool list \<Rightarrow> nat \<Rightarrow> string \<Rightarrow> string \<Rightarrow> parse_error + (string \<times> string \<times> bool list)" where
  "lex_delimited delimiter al buf_size buf src =
     (if src \<noteq> [] \<and> hd src = delimiter then
        if length buf < buf_size then Inr (buf, tl src, al) else Inl Undefined_behaviour
      else
        (case lex_escape delimiter src of
           Inl e \<Rightarrow> Inl e
         | Inr (c, s) \<Rightarrow>
             (case grow_buffer (length buf) buf_size al of
                Inl e \<Rightarrow> Inl e
              | Inr (buf_size', al') \<Rightarrow>
                  if length buf < buf_size' then lex_delimited delimiter al' buf_size' (buf @ [c]) s
                  else Inl Undefined_behaviour)))"
  by pat_completeness auto
termination
  by (relation "measure (\<lambda>(_, _, _, _, src). length src)") (auto dest: lex_escape_shorter)

declare lex_delimited.simps [simp del]

section \<open>The lexer\<close>

definition is_blank :: "char \<Rightarrow> bool" where
  "is_blank c \<longleftrightarrow> c = CHR '' '' \<or> c = CHR 0x09 \<or> c = CHR 0x0A"

definition is_unquoted_string_char :: "char \<Rightarrow> bool" where
  "is_unquoted_string_char c \<longleftrightarrow>
     (let n = of_char c :: nat in
      97 \<le> n \<and> n \<le> 122 \<or> 65 \<le> n \<and> n \<le> 90 \<or> 48 \<le> n \<and> n \<le> 57 \<or> c = CHR ''_'' \<or> c = CHR ''-'')"

type_synonym lexeme = "token_type \<times> string option \<times> string \<times> bool list"

text \<open>The label \<open>unquoted_string\<close>: the first character is taken as it is.\<close>

definition lex_unquoted :: "bool list \<Rightarrow> string \<Rightarrow> parse_error + lexeme" where
  "lex_unquoted al s =
     (let text = hd s # takeWhile is_unquoted_string_char (tl s);
          rest = dropWhile is_unquoted_string_char (tl s)
      in (case parser_malloc al of
            (True, al') \<Rightarrow> Inr (T_STRING, Some text, rest, al')
          | (False, _) \<Rightarrow> Inl Out_of_memory))"

definition lex_quoted :: "bool list \<Rightarrow> char \<Rightarrow> string \<Rightarrow> parse_error + lexeme" where
  "lex_quoted al delimiter s =
     (case parser_malloc al of
        (False, _) \<Rightarrow> Inl Out_of_memory
      | (True, al1) \<Rightarrow>
          (case lex_delimited delimiter al1 8 [] s of
             Inl e \<Rightarrow> Inl e
           | Inr (text, rest, al2) \<Rightarrow>
               (case parser_malloc al2 of
                  (False, _) \<Rightarrow> Inl Out_of_memory
                | (True, al3) \<Rightarrow>
                    Inr (if delimiter = CHR ''/'' then T_REGEXP else T_STRING, Some text, rest, al3))))"

text \<open>A look at the characters behind the first one, from position \<open>i\<close> on: they are compared with \<open>t\<close> up to
  the first difference, and reading behind the terminator of the string is undefined.\<close>

fun looking_at :: "string \<Rightarrow> nat \<Rightarrow> string \<Rightarrow> bool ub" where
  "looking_at s i [] = Some True"
| "looking_at s i (c # t) =
     (if i > length s then None else if char_at s i = c then looking_at s (i + 1) t else Some False)"

text \<open>The token at the start of a string without leading blanks. Moving the pointer behind the terminator
  is undefined as well.\<close>

definition lex_token :: "bool list \<Rightarrow> string \<Rightarrow> parse_error + lexeme" where
  "lex_token al s =
     (let c = peek s;
          simple = (\<lambda>n t. if n \<le> length s then Inr (t, None, drop n s, al) else Inl Undefined_behaviour);
          ahead = (\<lambda>t yes no. case looking_at s 1 t of
                     None \<Rightarrow> Inl Undefined_behaviour | Some b \<Rightarrow> if b then yes else no) in
      if s = [] then simple 0 T_EOF
      else if c = CHR ''!'' then ahead ''=='' (simple 3 (T_EO EO_VALUE_NE)) (simple 1 (T_EO EO_NOT))
      else if c = quote \<or> c = CHR ''/'' then lex_quoted al c (tl s)
      else if c = CHR ''&'' then ahead ''&'' (simple 2 (T_EO EO_AND)) (simple 1 T_UNKNOWN)
      else if c = CHR ''('' then simple 1 T_LEFT_PAREN
      else if c = CHR '')'' then simple 1 T_RIGHT_PAREN
      else if c = CHR ''<'' then ahead ''='' (simple 2 (T_EO EO_VALUE_LE)) (simple 1 (T_EO EO_VALUE_LT))
      else if c = CHR ''='' then ahead ''='' (simple 2 (T_EO EO_VALUE_EQ)) (simple 1 T_UNKNOWN)
      else if c = CHR ''>'' then ahead ''='' (simple 2 (T_EO EO_VALUE_GE)) (simple 1 (T_EO EO_VALUE_GT))
      else if c = backslash then simple 1 T_FIELD_ESCAPE
      else if c = CHR ''|'' then ahead ''|'' (simple 2 (T_EO EO_OR)) (simple 1 T_UNKNOWN)
      else if c = CHR ''i'' then
        ahead ''='' (simple 2 (T_EO EO_INTERPRETED_EQ))
          (ahead ''!='' (simple 3 (T_EO EO_INTERPRETED_NE)) (lex_unquoted al s))
      else if c = CHR ''r'' then
        ahead ''='' (simple 2 (T_EO EO_RAW_EQ))
          (ahead ''!='' (simple 3 (T_EO EO_RAW_NE)) (lex_unquoted al s))
      else if is_unquoted_string_char c then lex_unquoted al s
      else simple 1 T_UNKNOWN)"

definition lex :: "parsing \<Rightarrow> parse_error + parsing" where
  "lex p =
     (let s = dropWhile is_blank (p_src p) in
      case lex_token (p_allocs p) s of
        Inl e \<Rightarrow> Inl e
      | Inr (t, v, rest, al) \<Rightarrow>
          if length s - length rest > INT_MAX then Inl Token_too_long
          else Inr \<lparr>p_token = t, p_token_start = s, p_token_len = length s - length rest,
                    p_token_value = v, p_src = rest, p_allocs = al\<rparr>)"

section \<open>No read leaves the input\<close>

lemma looking_at_one:
  "s \<noteq> [] \<Longrightarrow> looking_at s 1 [a] = Some (char_at s 1 = a)"
  by (cases s) auto

lemma looking_at_two:
  "s \<noteq> [] \<Longrightarrow> a \<noteq> NUL \<Longrightarrow> looking_at s 1 [a, b] = Some (char_at s 1 = a \<and> char_at s 2 = b)"
  by (cases s) (auto simp: char_at_def)

lemma char_at_length: "char_at s i \<noteq> NUL \<Longrightarrow> Suc i \<le> length s"
  by (simp add: char_at_def split: if_splits)

text \<open>The token without the tests for undefined reads: none of them ever fails.\<close>

lemma lex_token_eq:
  "lex_token al s =
     (let c = peek s; c1 = char_at s 1; c2 = char_at s 2;
          simple = (\<lambda>n t. Inr (t, None, drop n s, al)) in
      if s = [] then simple 0 T_EOF
      else if c = CHR ''!'' then
        if c1 = CHR ''='' \<and> c2 = CHR ''='' then simple 3 (T_EO EO_VALUE_NE) else simple 1 (T_EO EO_NOT)
      else if c = quote \<or> c = CHR ''/'' then lex_quoted al c (tl s)
      else if c = CHR ''&'' then
        if c1 = CHR ''&'' then simple 2 (T_EO EO_AND) else simple 1 T_UNKNOWN
      else if c = CHR ''('' then simple 1 T_LEFT_PAREN
      else if c = CHR '')'' then simple 1 T_RIGHT_PAREN
      else if c = CHR ''<'' then
        if c1 = CHR ''='' then simple 2 (T_EO EO_VALUE_LE) else simple 1 (T_EO EO_VALUE_LT)
      else if c = CHR ''='' then
        if c1 = CHR ''='' then simple 2 (T_EO EO_VALUE_EQ) else simple 1 T_UNKNOWN
      else if c = CHR ''>'' then
        if c1 = CHR ''='' then simple 2 (T_EO EO_VALUE_GE) else simple 1 (T_EO EO_VALUE_GT)
      else if c = backslash then simple 1 T_FIELD_ESCAPE
      else if c = CHR ''|'' then
        if c1 = CHR ''|'' then simple 2 (T_EO EO_OR) else simple 1 T_UNKNOWN
      else if c = CHR ''i'' then
        if c1 = CHR ''='' then simple 2 (T_EO EO_INTERPRETED_EQ)
        else if c1 = CHR ''!'' \<and> c2 = CHR ''='' then simple 3 (T_EO EO_INTERPRETED_NE)
        else lex_unquoted al s
      else if c = CHR ''r'' then
        if c1 = CHR ''='' then simple 2 (T_EO EO_RAW_EQ)
        else if c1 = CHR ''!'' \<and> c2 = CHR ''='' then simple 3 (T_EO EO_RAW_NE)
        else lex_unquoted al s
      else if is_unquoted_string_char c then lex_unquoted al s
      else simple 1 T_UNKNOWN)"
proof (cases "s = []")
  case True
  then show ?thesis by (simp add: lex_token_def)
next
  case False
  then have l: "Suc 0 \<le> length s" by (cases s) auto
  have two: "char_at s 1 = a \<Longrightarrow> a \<noteq> NUL \<Longrightarrow> 2 \<le> length s"
    and three: "char_at s 2 = a \<Longrightarrow> a \<noteq> NUL \<Longrightarrow> 3 \<le> length s" for a
    using char_at_length [of s 1] char_at_length [of s 2] by auto
  have looks: "looking_at s 1 ''=='' = Some (char_at s 1 = CHR ''='' \<and> char_at s 2 = CHR ''='')"
    "looking_at s 1 ''!='' = Some (char_at s 1 = CHR ''!'' \<and> char_at s 2 = CHR ''='')"
    by (rule looking_at_two [OF False]; simp)+
  show ?thesis
    unfolding lex_token_def Let_def looking_at_one [OF False] looks
    using False l two three by simp
qed

section \<open>Every token is a piece of the input\<close>

lemma lex_delimited_shorter:
  "lex_delimited d al n buf src = Inr (text, rest, al') \<Longrightarrow> length rest < length src"
proof (induction d al n buf src rule: lex_delimited.induct)
  case (1 d al n buf src)
  note eq = 1(2) [unfolded lex_delimited.simps [of d al n buf src]]
  show ?case
  proof (cases "src \<noteq> [] \<and> hd src = d")
    case True
    then show ?thesis using eq by (auto split: if_splits)
  next
    case False
    obtain c s where c: "lex_escape d src = Inr (c, s)"
      using eq False by (cases "lex_escape d src") auto
    obtain n' al2 where g: "grow_buffer (length buf) n al = Inr (n', al2)"
      using eq False c by (cases "grow_buffer (length buf) n al") auto
    have "length rest < length s"
      using 1(1) [OF False c refl g refl] eq False c g by (auto split: if_splits)
    with lex_escape_shorter [OF c] show ?thesis by simp
  qed
qed

lemma lex_unquoted_shorter:
  "s \<noteq> [] \<Longrightarrow> lex_unquoted al s = Inr (t, v, rest, al') \<Longrightarrow> length rest < length s"
  using length_dropWhile_le [of is_unquoted_string_char "tl s"]
  by (cases s) (auto simp: lex_unquoted_def Let_def split: prod.splits bool.splits)

lemma lex_quoted_shorter:
  "lex_quoted al d s = Inr (t, v, rest, al') \<Longrightarrow> length rest < length s"
  by (auto simp: lex_quoted_def dest: lex_delimited_shorter split: prod.splits bool.splits sum.splits)

lemma lex_token_shorter:
  assumes "lex_token al s = Inr (t, v, rest, al')"
  shows "s = [] \<and> t = T_EOF \<and> rest = [] \<or> length rest < length s \<and> t \<noteq> T_EOF"
proof (cases s)
  case Nil
  then show ?thesis using assms by (simp add: lex_token_eq)
next
  case (Cons c s')
  have "t \<noteq> T_EOF" if "lex_unquoted al s = Inr (t, v, rest, al')"
    using that by (auto simp: lex_unquoted_def Let_def split: prod.splits bool.splits)
  moreover have "t \<noteq> T_EOF" if "lex_quoted al c s' = Inr (t, v, rest, al')"
    using that by (auto simp: lex_quoted_def split: prod.splits bool.splits sum.splits if_splits)
  ultimately show ?thesis
    using assms Cons lex_unquoted_shorter [of s al t v rest al'] lex_quoted_shorter [of al c s' t v rest al']
    by (auto simp: lex_token_eq Let_def split: if_splits)
qed

text \<open>What the parser has left to read: a measure that every token decreases.\<close>

definition unread :: "parsing \<Rightarrow> nat" where
  "unread p = length (p_src p) + (if p_token p = T_EOF then 0 else 1)"

lemma lex_shorter:
  assumes "lex p = Inr p'"
  shows "length (p_src p') \<le> length (p_src p)" "length (p_token_start p') \<le> length (p_src p)"
    "p_token p' \<noteq> T_EOF \<longrightarrow> length (p_src p') < length (p_src p)"
    "unread p' \<le> length (p_src p)"
proof -
  let ?s = "dropWhile is_blank (p_src p)"
  obtain t v rest al where tok: "lex_token (p_allocs p) ?s = Inr (t, v, rest, al)"
    and p': "p_token p' = t" "p_src p' = rest" "p_token_start p' = ?s"
    using assms by (auto simp: lex_def Let_def split: sum.splits if_splits prod.splits)
  have "length ?s \<le> length (p_src p)" by (rule length_dropWhile_le)
  with lex_token_shorter [OF tok] p' show "length (p_src p') \<le> length (p_src p)"
    "length (p_token_start p') \<le> length (p_src p)"
    "p_token p' \<noteq> T_EOF \<longrightarrow> length (p_src p') < length (p_src p)" "unread p' \<le> length (p_src p)"
    by (auto simp: unread_def)
qed

lemma lex_eof: "lex p = Inr p' \<Longrightarrow> p_token p' = T_EOF \<Longrightarrow> unread p' = 0"
  by (auto simp: lex_def Let_def unread_def dest: lex_token_shorter split: sum.splits if_splits prod.splits)

section \<open>No buffer is overrun\<close>

lemma lex_delimited_safe:
  "length buf < n \<Longrightarrow> lex_delimited d al n buf src \<noteq> Inl Undefined_behaviour"
proof (induction d al n buf src rule: lex_delimited.induct)
  case (1 d al n buf src)
  show ?case
  proof (cases "src \<noteq> [] \<and> hd src = d")
    case True
    with 1 show ?thesis by (simp add: lex_delimited.simps [of d al n buf src])
  next
    case False
    show ?thesis
    proof (cases "lex_escape d src")
      case (Inl e)
      then have "e \<noteq> Undefined_behaviour" by (auto simp: lex_escape_def split: list.splits if_splits)
      with Inl False show ?thesis by (auto simp: lex_delimited.simps [of d al n buf src])
    next
      case (Inr cs)
      then obtain c s where c: "lex_escape d src = Inr (c, s)" by (cases cs) auto
      show ?thesis
      proof (cases "grow_buffer (length buf) n al")
        case (Inl e)
        then have "e \<noteq> Undefined_behaviour" by (auto simp: grow_buffer_def split: if_splits prod.splits bool.splits)
        with Inl c False show ?thesis by (auto simp: lex_delimited.simps [of d al n buf src])
      next
        case (Inr na)
        then obtain n' al' where g: "grow_buffer (length buf) n al = Inr (n', al')" by (cases na) auto
        then have "length buf + 1 < n'"
          using 1(2) by (auto simp: grow_buffer_def split: if_splits prod.splits bool.splits)
        with 1(1) [OF False c refl g refl] c g False show ?thesis
          by (auto simp: lex_delimited.simps [of d al n buf src])
      qed
    qed
  qed
qed

lemma lex_safe: "lex p \<noteq> Inl Undefined_behaviour" "lex p \<noteq> Inl Abort"
proof -
  have A: "lex_delimited d al n buf src \<noteq> Inl Abort" for d al n buf src
  proof (induction d al n buf src rule: lex_delimited.induct)
    case (1 d al n buf src)
    then show ?case
      by (subst lex_delimited.simps)
        (auto simp: lex_escape_def grow_buffer_def split: if_splits prod.splits bool.splits sum.splits list.splits)
  qed
  have Q: "lex_quoted al d s \<noteq> Inl Undefined_behaviour" "lex_quoted al d s \<noteq> Inl Abort" for al d s
    using lex_delimited_safe [of "[]" 8] A
    by (auto simp: lex_quoted_def split: prod.splits bool.splits sum.splits)
  have U: "lex_unquoted al s \<noteq> Inl Undefined_behaviour" "lex_unquoted al s \<noteq> Inl Abort" for al s
    by (auto simp: lex_unquoted_def Let_def split: prod.splits bool.splits)
  have T: "lex_token al s \<noteq> Inl Undefined_behaviour" "lex_token al s \<noteq> Inl Abort" for al s
    using Q U by (auto simp: lex_token_eq Let_def)
  show "lex p \<noteq> Inl Undefined_behaviour" "lex p \<noteq> Inl Abort"
    using T by (auto simp: lex_def Let_def split: sum.splits prod.splits)
qed

end
