(* ===== verification/Expr_Parser.thy ===== *)
theory Expr_Parser
  imports Expr_Lexer Lookup_Table
begin

text \<open>
  The recursive-descent parser of the search expressions, \<open>auparse/expression.c\<close> from
  \<open>parse_escaped_field_name\<close> to \<open>expr_parse\<close>, and the functions that create expressions directly.

  A \<open>struct expr\<close> is a value of \<open>expr\<close>: the union members its \<open>op\<close> selects. \<open>virtual_field\<close> is the
  choice between \<open>Field_id\<close> and \<open>Field_name\<close>, \<open>precomputed_value\<close> that between a string and the
  other values. A serial number that is never written stays \<open>None\<close>. The regular expression
  compiler, the classification of field names (\<open>lookup_type\<close>) and the record type table are
  arguments, gathered in \<open>expr_env\<close>.

  The mutually recursive functions take a fuel argument; \<open>None\<close> is running out of it. \<open>expr_parse\<close>
  supplies an amount that is always enough.
\<close>

section \<open>Expressions\<close>

datatype field_id = EF_TIMESTAMP | EF_RECORD_TYPE | EF_TIMESTAMP_EX

datatype field = Field_name string | Field_id field_id

text \<open>\<open>Value_timestamp sec milli serial\<close> is both timestamp members of the union: they share the
  first two fields.\<close>

datatype expr_value =
    Value_string string
  | Value_timestamp int nat "nat option"
  | Value_int int
  | Value_unsigned u32

datatype expr =
    Expr_not expr
  | Expr_binary eo expr expr
  | Expr_compare eo bool field expr_value
  | Expr_field_exists string
  | Expr_regexp string

record expr_env =
  env_tables :: gen_tables
  env_lookup_type :: "string \<Rightarrow> int"
  env_regcomp_error :: "string \<Rightarrow> string option"

definition AUPARSE_TYPE_UID :: int where "AUPARSE_TYPE_UID = 1"
definition AUPARSE_TYPE_GID :: int where "AUPARSE_TYPE_GID = 2"

section \<open>Values\<close>

definition parse_escaped_field_name :: "string \<Rightarrow> field_id option" where
  "parse_escaped_field_name name =
     (if name = ''timestamp'' then Some EF_TIMESTAMP
      else if name = ''record_type'' then Some EF_RECORD_TYPE
      else if name = ''timestamp_ex'' then Some EF_TIMESTAMP_EX
      else None)"

text \<open>One integer conversion of \<open>sscanf\<close>: white space, an optional sign, at least one digit.\<close>

definition scan_conv :: "string \<Rightarrow> (bool \<times> string \<times> string) option" where
  "scan_conv s =
     (let s1 = dropWhile isspace s;
          s2 = (if peek s1 = CHR ''-'' \<or> peek s1 = CHR ''+'' then tl s1 else s1);
          ds = takeWhile isdigit s2
      in if ds = [] then None else Some (peek s1 = CHR ''-'', ds, dropWhile isdigit s2))"

definition conv_uint :: "bool \<Rightarrow> string \<Rightarrow> nat" where
  "conv_uint neg ds = fst (ulong_of neg ds) mod 2 ^ 32"

text \<open>\<open>sscanf (s, "ts:%jd.%u:%u", ...)\<close>: the seconds and milliseconds when both are converted, and
  the serial number when the third conversion succeeds too. With fewer than two conversions both
  calls of the source fail.\<close>

definition sscanf_timestamp :: "string \<Rightarrow> (int \<times> nat \<times> nat option) option" where
  "sscanf_timestamp s =
     (if take 3 s \<noteq> ''ts:'' then None
      else (case scan_conv (drop 3 s) of
          None \<Rightarrow> None
        | Some (neg, ds, r) \<Rightarrow>
            if peek r \<noteq> CHR ''.'' then None
            else (case scan_conv (tl r) of
                None \<Rightarrow> None
              | Some (neg2, ds2, r2) \<Rightarrow>
                  Some (long_of neg ds, conv_uint neg2 ds2,
                    if peek r2 \<noteq> CHR '':'' then None
                    else map_option (\<lambda>(neg3, ds3, _). conv_uint neg3 ds3) (scan_conv (tl r2))))))"

text \<open>The characters \<open>strspn\<close> accepts: \<open>ts:0123456789.\<close>\<close>

definition is_timestamp_char :: "char \<Rightarrow> bool" where
  "is_timestamp_char c \<longleftrightarrow> c \<in> set ''ts:.'' \<or> isdigit c"

text \<open>Conversion to \<open>time_t\<close>.\<close>

definition to_time_t :: "int \<Rightarrow> int" where
  "to_time_t v = (v + 2 ^ 63) mod 2 ^ 64 - 2 ^ 63"

definition parse_timestamp_value :: "parsing \<Rightarrow> parse_error + (expr_value \<times> parsing)" where
  "parse_timestamp_value p =
     (if p_token p \<noteq> T_STRING then Inl Abort
      else (case sscanf_timestamp (p_token_start p) of
          None \<Rightarrow> Inl (Invalid_timestamp_value (token_text p))
        | Some (sec, milli, serial) \<Rightarrow>
            let p' = p\<lparr>p_src := dropWhile is_timestamp_char (p_token_start p)\<rparr> in
            if to_time_t sec \<noteq> sec then Inl (Timestamp_overflow (token_text p))
            else Inr (Value_timestamp (to_time_t sec) milli serial, p')))"

definition parse_record_type_value :: "expr_env \<Rightarrow> parsing \<Rightarrow> parse_error + (expr_value \<times> parsing)" where
  "parse_record_type_value env p =
     (if p_token p \<noteq> T_STRING then Inl Abort
      else
        let type = audit_name_to_msg_type (env_tables env) (the (p_token_value p)) in
        if type < 0 then Inl (Invalid_record_type (token_text p))
        else Inr (Value_int type, p))"

definition parse_unsigned_value :: "parsing \<Rightarrow> parse_error + (expr_value \<times> parsing)" where
  "parse_unsigned_value p =
     (if p_token p \<noteq> T_STRING then Inl Abort
      else
        let (n, erange) = strtoul (the (p_token_value p)) in
        if erange then Inl (Error_converting_number (token_text p))
        else Inr (Value_unsigned (of_nat n), p))"

definition parse_virtual_field_value ::
    "expr_env \<Rightarrow> field_id \<Rightarrow> parsing \<Rightarrow> parse_error + (expr_value \<times> parsing)" where
  "parse_virtual_field_value env fid p =
     (case fid of
        EF_TIMESTAMP \<Rightarrow> parse_timestamp_value p
      | EF_RECORD_TYPE \<Rightarrow> parse_record_type_value env p
      | EF_TIMESTAMP_EX \<Rightarrow> parse_timestamp_value p)"

section \<open>Comparisons\<close>

text \<open>An allocation of the parser, then \<open>lex\<close>.\<close>

definition p_malloc :: "parsing \<Rightarrow> parse_error + parsing" where
  "p_malloc p = (case parser_malloc (p_allocs p) of
      (True, al) \<Rightarrow> Inr (p\<lparr>p_allocs := al\<rparr>)
    | (False, _) \<Rightarrow> Inl Out_of_memory)"

definition then_do :: "parse_error + 'a \<Rightarrow> ('a \<Rightarrow> parse_error + 'b) \<Rightarrow> parse_error + 'b" where
  "then_do r f = (case r of Inl e \<Rightarrow> Inl e | Inr x \<Rightarrow> f x)"

definition parse_comparison_regexp :: "expr_env \<Rightarrow> parsing \<Rightarrow> parse_error + (expr \<times> parsing)" where
  "parse_comparison_regexp env p =
     then_do (lex p) (\<lambda>p1.
       if p_token p1 \<noteq> T_STRING \<and> p_token p1 \<noteq> T_REGEXP then Inl (Regexp_expected (token_text p1))
       else then_do (p_malloc p1) (\<lambda>p2.
         let pattern = the (p_token_value p2) in
         case env_regcomp_error env pattern of
           Some msg \<Rightarrow> then_do (p_malloc p2) (\<lambda>_. Inl (Invalid_regexp msg))
         | None \<Rightarrow> then_do (lex p2) (\<lambda>p3. Inr (Expr_regexp pattern, p3))))"

text \<open>The operand of a comparison: a name, or a virtual field behind the escape. The flag is
  \<open>numeric_field\<close>. \<open>\\regexp\<close> is reported by \<open>None\<close>.\<close>

definition parse_field :: "expr_env \<Rightarrow> parsing \<Rightarrow> parse_error + ((field \<times> bool) option \<times> parsing)" where
  "parse_field env p =
     (if p_token p = T_FIELD_ESCAPE then
        then_do (lex p) (\<lambda>p1.
          if p_token p1 \<noteq> T_STRING then Inl Field_name_expected
          else
            let name = the (p_token_value p1) in
            if name = ''regexp'' then Inr (None, p1)
            else (case parse_escaped_field_name name of
                None \<Rightarrow> Inl (Unknown_escaped_field_name (token_text p1))
              | Some fid \<Rightarrow> Inr (Some (Field_id fid, True), p1)))
      else if p_token p \<noteq> T_STRING then Inl Abort
      else
        let name = the (p_token_value p); type = env_lookup_type env name in
        Inr (Some (Field_name name, type = AUPARSE_TYPE_UID \<or> type = AUPARSE_TYPE_GID),
             p\<lparr>p_token_value := None\<rparr>))"

definition is_string_op :: "token_type \<Rightarrow> bool" where
  "is_string_op t \<longleftrightarrow> t \<in> T_EO ` {EO_RAW_EQ, EO_RAW_NE, EO_INTERPRETED_EQ, EO_INTERPRETED_NE}"

definition is_value_op :: "token_type \<Rightarrow> bool" where
  "is_value_op t \<longleftrightarrow>
     t \<in> T_EO ` {EO_VALUE_EQ, EO_VALUE_NE, EO_VALUE_LT, EO_VALUE_LE, EO_VALUE_GT, EO_VALUE_GE}"

definition token_op :: "token_type \<Rightarrow> eo" where
  "token_op t = (case t of T_EO e \<Rightarrow> e | _ \<Rightarrow> EO_NOT)"

definition parse_comparison_value ::
    "expr_env \<Rightarrow> field \<Rightarrow> bool \<Rightarrow> parsing \<Rightarrow> parse_error + (expr_value \<times> parsing)" where
  "parse_comparison_value env fld numeric_field p =
     (case fld of
        Field_name name \<Rightarrow>
          if \<not> numeric_field then Inl (Field_does_not_support_value_comparison name)
          else parse_unsigned_value p
      | Field_id fid \<Rightarrow> parse_virtual_field_value env fid p)"

definition parse_comparison :: "expr_env \<Rightarrow> parsing \<Rightarrow> parse_error + (expr \<times> parsing)" where
  "parse_comparison env p =
     then_do (p_malloc p) (\<lambda>p0. then_do (parse_field env p0) (\<lambda>(f, p1).
       case f of
         None \<Rightarrow> parse_comparison_regexp env p1
       | Some (fld, numeric_field) \<Rightarrow>
           then_do (lex p1) (\<lambda>p2.
             if is_string_op (p_token p2) then
               then_do (lex p2) (\<lambda>p3.
                 if p_token p3 \<noteq> T_STRING then Inl (Value_expected (token_text p3))
                 else then_do (lex (p3\<lparr>p_token_value := None\<rparr>)) (\<lambda>p4.
                   Inr (Expr_compare (token_op (p_token p2)) numeric_field fld
                          (Value_string (the (p_token_value p3))), p4)))
             else if is_value_op (p_token p2) then
               then_do (lex p2) (\<lambda>p3.
                 if p_token p3 \<noteq> T_STRING then Inl (Value_expected (token_text p3))
                 else then_do (parse_comparison_value env fld numeric_field p3) (\<lambda>(v, p4).
                   then_do (lex p4) (\<lambda>p5.
                     Inr (Expr_compare (token_op (p_token p2)) numeric_field fld v, p5))))
             else Inl (Operator_expected (token_text p2)))))"

section \<open>Primary, and- and or-expressions\<close>

text \<open>Results of the recursive functions: \<open>None\<close> when the fuel runs out.\<close>

type_synonym 'a fueled = "(parse_error + 'a) option"

definition f_then :: "'a fueled \<Rightarrow> ('a \<Rightarrow> 'b fueled) \<Rightarrow> 'b fueled" where
  "f_then r f = (case r of None \<Rightarrow> None | Some (Inl e) \<Rightarrow> Some (Inl e) | Some (Inr x) \<Rightarrow> f x)"

lemma f_then_cong [fundef_cong]:
  "r = r' \<Longrightarrow> (\<And>x. r' = Some (Inr x) \<Longrightarrow> f x = g x) \<Longrightarrow> f_then r f = f_then r' g"
  by (auto simp: f_then_def split: option.splits sum.splits)

fun parse_primary :: "expr_env \<Rightarrow> nat \<Rightarrow> parsing \<Rightarrow> (expr \<times> parsing) fueled"
  and parse_and :: "expr_env \<Rightarrow> nat \<Rightarrow> parsing \<Rightarrow> (expr \<times> parsing) fueled"
  and parse_and_loop :: "expr_env \<Rightarrow> nat \<Rightarrow> expr \<Rightarrow> parsing \<Rightarrow> (expr \<times> parsing) fueled"
  and parse_or :: "expr_env \<Rightarrow> nat \<Rightarrow> parsing \<Rightarrow> (expr \<times> parsing) fueled"
  and parse_or_loop :: "expr_env \<Rightarrow> nat \<Rightarrow> expr \<Rightarrow> parsing \<Rightarrow> (expr \<times> parsing) fueled" where
  "parse_primary env 0 p = None"
| "parse_primary env (Suc n) p =
     (case p_token p of
        T_EO EO_NOT \<Rightarrow>
          f_then (Some (lex p)) (\<lambda>p1. f_then (parse_primary env n p1) (\<lambda>(e, p2).
            f_then (Some (p_malloc p2)) (\<lambda>p3. Some (Inr (Expr_not e, p3)))))
      | T_LEFT_PAREN \<Rightarrow>
          f_then (Some (lex p)) (\<lambda>p1. f_then (parse_or env n p1) (\<lambda>(e, p2).
            if p_token p2 \<noteq> T_RIGHT_PAREN then Some (Inl (Right_paren_expected (token_text p2)))
            else f_then (Some (lex p2)) (\<lambda>p3. Some (Inr (e, p3)))))
      | T_FIELD_ESCAPE \<Rightarrow> Some (parse_comparison env p)
      | T_STRING \<Rightarrow> Some (parse_comparison env p)
      | _ \<Rightarrow> Some (Inl (Unexpected_token (token_text p))))"
| "parse_and env 0 p = None"
| "parse_and env (Suc n) p =
     f_then (parse_primary env n p) (\<lambda>(res, p1). parse_and_loop env n res p1)"
| "parse_and_loop env 0 res p = None"
| "parse_and_loop env (Suc n) res p =
     (if p_token p = T_EO EO_AND then
        f_then (Some (lex p)) (\<lambda>p1. f_then (parse_primary env n p1) (\<lambda>(e2, p2).
          f_then (Some (p_malloc p2)) (\<lambda>p3. parse_and_loop env n (Expr_binary EO_AND res e2) p3)))
      else Some (Inr (res, p)))"
| "parse_or env 0 p = None"
| "parse_or env (Suc n) p =
     f_then (parse_and env n p) (\<lambda>(res, p1). parse_or_loop env n res p1)"
| "parse_or_loop env 0 res p = None"
| "parse_or_loop env (Suc n) res p =
     (if p_token p = T_EO EO_OR then
        f_then (Some (lex p)) (\<lambda>p1. f_then (parse_and env n p1) (\<lambda>(e2, p2).
          f_then (Some (p_malloc p2)) (\<lambda>p3. parse_or_loop env n (Expr_binary EO_OR res e2) p3)))
      else Some (Inr (res, p)))"

definition parse_fuel :: "string \<Rightarrow> nat" where
  "parse_fuel s = 5 * length s + 10"

definition expr_parse :: "expr_env \<Rightarrow> bool list \<Rightarrow> string \<Rightarrow> expr fueled" where
  "expr_parse env allocs s =
     f_then (Some (lex \<lparr>p_token = T_EOF, p_token_start = s, p_token_len = 0, p_token_value = None,
                        p_src = s, p_allocs = allocs\<rparr>)) (\<lambda>p.
       if p_token p = T_EOF then Some (Inl Empty_expression)
       else f_then (parse_or env (parse_fuel s) p) (\<lambda>(res, p').
         if p_token p' \<noteq> T_EOF then Some (Inl (Unexpected_trailing_token (token_text p')))
         else Some (Inr res)))"

section \<open>Creating expressions\<close>

text \<open>\<open>mem\<close> tells which of the allocations succeed; a failed assertion is \<open>Abort\<close>.\<close>

definition expr_create_comparison :: "bool list \<Rightarrow> string \<Rightarrow> eo \<Rightarrow> string \<Rightarrow> parse_error + expr" where
  "expr_create_comparison mem fld op1 val =
     (let (ok1, m1) = parser_malloc mem; (ok2, m2) = parser_malloc m1; (ok3, m3) = parser_malloc m2 in
      if \<not> ok1 then Inl Out_of_memory
      else if \<not> is_string_op (T_EO op1) then Inl Abort
      else if \<not> ok2 \<or> \<not> ok3 then Inl Out_of_memory
      else Inr (Expr_compare op1 False (Field_name fld) (Value_string val)))"

definition expr_create_timestamp_comparison_ex ::
    "bool list \<Rightarrow> eo \<Rightarrow> int \<Rightarrow> nat \<Rightarrow> nat \<Rightarrow> parse_error + expr" where
  "expr_create_timestamp_comparison_ex mem op1 sec milli serial =
     (if \<not> fst (parser_malloc mem) then Inl Out_of_memory
      else if \<not> is_value_op (T_EO op1) \<or> milli \<ge> 1000 then Inl Abort
      else Inr (Expr_compare op1 True (Field_id EF_TIMESTAMP_EX) (Value_timestamp sec milli (Some serial))))"

definition expr_create_timestamp_comparison :: "bool list \<Rightarrow> eo \<Rightarrow> int \<Rightarrow> nat \<Rightarrow> parse_error + expr" where
  "expr_create_timestamp_comparison mem op1 sec milli =
     expr_create_timestamp_comparison_ex mem op1 sec milli 0"

definition expr_create_field_exists :: "bool list \<Rightarrow> string \<Rightarrow> parse_error + expr" where
  "expr_create_field_exists mem fld =
     (let (ok1, m1) = parser_malloc mem; (ok2, m2) = parser_malloc m1 in
      if \<not> ok1 \<or> \<not> ok2 then Inl Out_of_memory else Inr (Expr_field_exists fld))"

definition expr_create_regexp_expression :: "expr_env \<Rightarrow> bool list \<Rightarrow> string \<Rightarrow> parse_error + expr" where
  "expr_create_regexp_expression env mem pattern =
     (let (ok1, m1) = parser_malloc mem; (ok2, m2) = parser_malloc m1 in
      if \<not> ok1 \<or> \<not> ok2 then Inl Out_of_memory
      else (case env_regcomp_error env pattern of
          Some msg \<Rightarrow> Inl (Invalid_regexp msg)
        | None \<Rightarrow> Inr (Expr_regexp pattern)))"

definition expr_create_binary :: "bool list \<Rightarrow> eo \<Rightarrow> expr \<Rightarrow> expr \<Rightarrow> parse_error + expr" where
  "expr_create_binary mem op1 e1 e2 =
     (if \<not> fst (parser_malloc mem) then Inl Out_of_memory
      else if op1 \<noteq> EO_AND \<and> op1 \<noteq> EO_OR then Inl Abort
      else Inr (Expr_binary op1 e1 e2))"

section \<open>Lemmas on sequencing\<close>

lemma then_do_Inr [simp]: "then_do r f = Inr y \<longleftrightarrow> (\<exists>x. r = Inr x \<and> f x = Inr y)"
  by (auto simp: then_do_def split: sum.splits)

lemma then_do_Inl: "then_do r f = Inl e \<longleftrightarrow> r = Inl e \<or> (\<exists>x. r = Inr x \<and> f x = Inl e)"
  by (auto simp: then_do_def split: sum.splits)

lemma then_do_simps [simp]: "then_do (Inr x) f = f x" "then_do (Inl e) f = Inl e"
  by (simp_all add: then_do_def)

lemma f_then_Inr: "f_then r f = Some (Inr y) \<longleftrightarrow> (\<exists>x. r = Some (Inr x) \<and> f x = Some (Inr y))"
  by (auto simp: f_then_def split: option.splits sum.splits)

lemma f_then_Inl:
  "f_then r f = Some (Inl e) \<longleftrightarrow> r = Some (Inl e) \<or> (\<exists>x. r = Some (Inr x) \<and> f x = Some (Inl e))"
  by (auto simp: f_then_def split: option.splits sum.splits)

lemma f_then_None: "f_then r f = None \<longleftrightarrow> r = None \<or> (\<exists>x. r = Some (Inr x) \<and> f x = None)"
  by (auto simp: f_then_def split: option.splits sum.splits)

lemma f_then_simps [simp]: "f_then (Some (Inr x)) f = f x" "f_then (Some (Inl e)) f = Some (Inl e)"
  by (simp_all add: f_then_def)

lemma p_malloc_Inr:
  "p_malloc p = Inr p' \<Longrightarrow> p_token p' = p_token p \<and> p_src p' = p_src p \<and> p_token_start p' = p_token_start p
     \<and> p_token_value p' = p_token_value p \<and> unread p' = unread p"
  by (auto simp: p_malloc_def unread_def split: prod.splits bool.splits)

lemma p_malloc_Inl: "p_malloc p = Inl e \<Longrightarrow> e = Out_of_memory"
  by (auto simp: p_malloc_def split: prod.splits bool.splits)

section \<open>Termination\<close>

lemma unread_src: "length (p_src p) \<le> unread p"
  by (simp add: unread_def)

lemma unread_token: "p_token p \<noteq> T_EOF \<Longrightarrow> unread p = Suc (length (p_src p))"
  by (simp add: unread_def)

lemma parse_comparison_value_src:
  "parse_comparison_value env fld num p = Inr (v, p') \<Longrightarrow>
     length (p_src p') \<le> max (length (p_src p)) (length (p_token_start p))"
  by (auto simp: parse_comparison_value_def parse_unsigned_value_def parse_virtual_field_value_def
      parse_timestamp_value_def parse_record_type_value_def Let_def length_dropWhile_le le_max_iff_disj
      split: field.splits field_id.splits if_splits option.splits prod.splits)

lemma parse_field_src: "parse_field env p = Inr (f, p') \<Longrightarrow> length (p_src p') \<le> length (p_src p)"
  by (auto simp: parse_field_def Let_def dest: lex_shorter(1) split: if_splits option.splits)

lemma parse_comparison_regexp_src:
  "parse_comparison_regexp env p = Inr (e, p') \<Longrightarrow> unread p' \<le> length (p_src p)"
  by (auto simp: parse_comparison_regexp_def Let_def split: if_splits option.splits
      dest!: lex_shorter(4) p_malloc_Inr intro: le_trans [OF _ le_trans [OF unread_src]])

lemma parse_comparison_src:
  assumes "parse_comparison env p = Inr (e, p')"
  shows "unread p' \<le> length (p_src p)"
proof -
  obtain p0 f p1 where p0: "p_malloc p = Inr p0" and f: "parse_field env p0 = Inr (f, p1)"
    using assms by (auto simp: parse_comparison_def)
  have len: "length (p_src p1) \<le> length (p_src p)"
    using parse_field_src [OF f] p_malloc_Inr [OF p0] by simp
  show ?thesis
  proof (cases f)
    case None
    then show ?thesis
      using assms p0 f parse_comparison_regexp_src [of env p1 e p'] len by (simp add: parse_comparison_def)
  next
    case (Some fn)
    then obtain fld num where fn: "f = Some (fld, num)" by (cases fn) auto
    obtain p2 p3 where l: "lex p1 = Inr p2" "lex p2 = Inr p3"
      using assms p0 f fn by (auto simp: parse_comparison_def split: if_splits)
    note short = lex_shorter [OF l(1)] lex_shorter [OF l(2)]
    have "\<exists>p4. lex p4 = Inr p' \<and> length (p_src p4) \<le> max (length (p_src p3)) (length (p_token_start p3))"
      using assms p0 f fn l
      by (auto simp: parse_comparison_def split: if_splits dest!: parse_comparison_value_src)
    then obtain p4 where "lex p4 = Inr p'" "length (p_src p4) \<le> max (length (p_src p3)) (length (p_token_start p3))"
      by blast
    with lex_shorter(4) [of p4 p'] short len show ?thesis by simp
  qed
qed

text \<open>Success always consumes input.\<close>

lemma parse_consumes:
  "parse_primary env n p = Some (Inr (e, p')) \<Longrightarrow> unread p' < unread p"
  "parse_and env n p = Some (Inr (e, p')) \<Longrightarrow> unread p' < unread p"
  "parse_and_loop env n res p = Some (Inr (e, p')) \<Longrightarrow> unread p' \<le> unread p"
  "parse_or env n p = Some (Inr (e, p')) \<Longrightarrow> unread p' < unread p"
  "parse_or_loop env n res p = Some (Inr (e, p')) \<Longrightarrow> unread p' \<le> unread p"
proof (induction env n p and env n p and env n res p and env n p and env n res p
    arbitrary: e p' and e p' and e p' and e p' and e p'
    rule: parse_primary_parse_and_parse_and_loop_parse_or_parse_or_loop.induct)
  case (2 env n p)
  have "p_token p \<noteq> T_EOF" using "2.prems" by (auto split: token_type.splits eo.splits)
  then have up: "unread p = Suc (length (p_src p))" by (rule unread_token)
  consider (neg) "p_token p = T_EO EO_NOT" | (paren) "p_token p = T_LEFT_PAREN"
    | (cmp) "parse_comparison env p = Inr (e, p')"
    using "2.prems" by (auto split: token_type.splits eo.splits)
  then show ?case
  proof cases
    case neg
    then obtain p1 e1 p2 where "lex p = Inr p1" "parse_primary env n p1 = Some (Inr (e1, p2))"
      "p_malloc p2 = Inr p'"
      using "2.prems" by (auto simp: f_then_Inr)
    with "2.IH"(1) [OF neg refl, of p1 e1 p2] up lex_shorter(4) [of p p1] p_malloc_Inr [of p2 p']
    show ?thesis by simp
  next
    case paren
    then obtain p1 e1 p2 where "lex p = Inr p1" "parse_or env n p1 = Some (Inr (e1, p2))" "lex p2 = Inr p'"
      using "2.prems" by (auto simp: f_then_Inr split: if_splits)
    with "2.IH"(2) [OF paren, of p1 e1 p2] up lex_shorter(4) [of p p1] lex_shorter(4) [of p2 p'] unread_src [of p2]
    show ?thesis by simp
  next
    case cmp
    then show ?thesis using parse_comparison_src [OF cmp] up by simp
  qed
next
  case (4 env n p)
  then obtain r p1 where "parse_primary env n p = Some (Inr (r, p1))"
    "parse_and_loop env n r p1 = Some (Inr (e, p'))"
    by (auto simp: f_then_Inr)
  with "4.IH"(1) [of r p1] "4.IH"(2) [of "(r, p1)" r p1 e p'] show ?case by simp
next
  case (6 env n res p)
  show ?case
  proof (cases "p_token p = T_EO EO_AND")
    case True
    then obtain p1 e2 p2 p3 where l: "lex p = Inr p1" "parse_primary env n p1 = Some (Inr (e2, p2))"
      "p_malloc p2 = Inr p3" "parse_and_loop env n (Expr_binary EO_AND res e2) p3 = Some (Inr (e, p'))"
      using "6.prems" by (auto simp: f_then_Inr)
    with "6.IH"(1) [OF True, of p1 e2 p2] "6.IH"(2) [OF True, of p1 "(e2, p2)" e2 p2 p3 e p']
      lex_shorter(4) [OF l(1)] p_malloc_Inr [OF l(3)] unread_src [of p]
    show ?thesis by simp
  qed (use "6.prems" in simp)
next
  case (8 env n p)
  then obtain r p1 where "parse_and env n p = Some (Inr (r, p1))"
    "parse_or_loop env n r p1 = Some (Inr (e, p'))"
    by (auto simp: f_then_Inr)
  with "8.IH"(1) [of r p1] "8.IH"(2) [of "(r, p1)" r p1 e p'] show ?case by simp
next
  case (10 env n res p)
  show ?case
  proof (cases "p_token p = T_EO EO_OR")
    case True
    then obtain p1 e2 p2 p3 where l: "lex p = Inr p1" "parse_and env n p1 = Some (Inr (e2, p2))"
      "p_malloc p2 = Inr p3" "parse_or_loop env n (Expr_binary EO_OR res e2) p3 = Some (Inr (e, p'))"
      using "10.prems" by (auto simp: f_then_Inr)
    with "10.IH"(1) [OF True, of p1 e2 p2] "10.IH"(2) [OF True, of p1 "(e2, p2)" e2 p2 p3 e p']
      lex_shorter(4) [OF l(1)] p_malloc_Inr [OF l(3)] unread_src [of p]
    show ?thesis by simp
  qed (use "10.prems" in simp)
qed simp_all

lemma parse_primary_other:
  "p_token p \<noteq> T_EO EO_NOT \<Longrightarrow> p_token p \<noteq> T_LEFT_PAREN \<Longrightarrow>
     parse_primary env (Suc n) p =
       Some (if p_token p = T_FIELD_ESCAPE \<or> p_token p = T_STRING then parse_comparison env p
             else Inl (Unexpected_token (token_text p)))"
  by (simp split: token_type.splits eo.splits)

text \<open>Fuel proportional to the unread input is enough.\<close>

lemma parse_fuel_enough:
  "5 * unread p + 1 \<le> n \<Longrightarrow> parse_primary env n p \<noteq> None"
  "5 * unread p + 2 \<le> n \<Longrightarrow> parse_and env n p \<noteq> None"
  "5 * unread p + 1 \<le> n \<Longrightarrow> parse_and_loop env n res p \<noteq> None"
  "5 * unread p + 3 \<le> n \<Longrightarrow> parse_or env n p \<noteq> None"
  "5 * unread p + 1 \<le> n \<Longrightarrow> parse_or_loop env n res p \<noteq> None"
proof (induction env n p and env n p and env n res p and env n p and env n res p
    rule: parse_primary_parse_and_parse_and_loop_parse_or_parse_or_loop.induct)
  case (2 env n p)
  consider (neg) "p_token p = T_EO EO_NOT" | (paren) "p_token p = T_LEFT_PAREN"
    | (other) "p_token p \<noteq> T_EO EO_NOT" "p_token p \<noteq> T_LEFT_PAREN" by blast
  then show ?case
  proof cases
    case neg
    have "parse_primary env n p1 \<noteq> None" if "lex p = Inr p1" for p1
      using "2.IH"(1) [OF neg refl, of p1] that lex_shorter(4) [OF that] "2.prems" neg
      by (simp add: unread_token)
    with neg show ?thesis by (auto simp: f_then_None)
  next
    case paren
    have "parse_or env n p1 \<noteq> None" if "lex p = Inr p1" for p1
      using "2.IH"(2) [OF paren, of p1] that lex_shorter(4) [OF that] "2.prems" paren
      by (simp add: unread_token)
    with paren show ?thesis by (auto simp: f_then_None split: if_splits simp del: not_None_eq)
  next
    case other
    then show ?thesis using parse_primary_other [OF other] by simp
  qed
next
  case (4 env n p)
  have "parse_and_loop env n r p1 \<noteq> None" if "parse_primary env n p = Some (Inr (r, p1))" for r p1
    using "4.IH"(2) [of "(r, p1)" r p1] that parse_consumes(1) [OF that] "4.prems" by simp
  with 4 show ?case by (auto simp: f_then_None)
next
  case (6 env n res p)
  show ?case
  proof (cases "p_token p = T_EO EO_AND")
    case True
    have 1: "parse_primary env n p1 \<noteq> None" if "lex p = Inr p1" for p1
      using "6.IH"(1) [OF True, of p1] that lex_shorter(4) [OF that] "6.prems" True by (simp add: unread_token)
    have 2: "parse_and_loop env n (Expr_binary EO_AND res e2) p3 \<noteq> None"
      if "lex p = Inr p1" "parse_primary env n p1 = Some (Inr (e2, p2))" "p_malloc p2 = Inr p3" for p1 e2 p2 p3
      using "6.IH"(2) [OF True, of p1 "(e2, p2)" e2 p2 p3] that lex_shorter(4) [OF that(1)]
        parse_consumes(1) [OF that(2)] p_malloc_Inr [OF that(3)] "6.prems" True by (simp add: unread_token)
    from True 1 2 show ?thesis by (auto simp: f_then_None)
  qed simp
next
  case (8 env n p)
  have "parse_or_loop env n r p1 \<noteq> None" if "parse_and env n p = Some (Inr (r, p1))" for r p1
    using "8.IH"(2) [of "(r, p1)" r p1] that parse_consumes(2) [OF that] "8.prems" by simp
  with 8 show ?case by (auto simp: f_then_None)
next
  case (10 env n res p)
  show ?case
  proof (cases "p_token p = T_EO EO_OR")
    case True
    have 1: "parse_and env n p1 \<noteq> None" if "lex p = Inr p1" for p1
      using "10.IH"(1) [OF True, of p1] that lex_shorter(4) [OF that] "10.prems" True by (simp add: unread_token)
    have 2: "parse_or_loop env n (Expr_binary EO_OR res e2) p3 \<noteq> None"
      if "lex p = Inr p1" "parse_and env n p1 = Some (Inr (e2, p2))" "p_malloc p2 = Inr p3" for p1 e2 p2 p3
      using "10.IH"(2) [OF True, of p1 "(e2, p2)" e2 p2 p3] that lex_shorter(4) [OF that(1)]
        parse_consumes(2) [OF that(2)] p_malloc_Inr [OF that(3)] "10.prems" True by (simp add: unread_token)
    from True 1 2 show ?thesis by (auto simp: f_then_None)
  qed simp
qed simp_all

section \<open>Safety and well-formedness\<close>

definition bad :: "parse_error \<Rightarrow> bool" where
  "bad e \<longleftrightarrow> e = Undefined_behaviour \<or> e = Abort"

text \<open>What the evaluator relies on: the value fits the operator and the field.\<close>

fun compare_wf :: "eo \<Rightarrow> bool \<Rightarrow> field \<Rightarrow> expr_value \<Rightarrow> bool" where
  "compare_wf op1 num fld (Value_string s) \<longleftrightarrow>
     is_string_op (T_EO op1) \<and> (case fld of Field_id _ \<Rightarrow> num | Field_name _ \<Rightarrow> True)"
| "compare_wf op1 num fld (Value_unsigned u) \<longleftrightarrow> is_value_op (T_EO op1) \<and> num \<and> (\<exists>name. fld = Field_name name)"
| "compare_wf op1 num fld (Value_int i) \<longleftrightarrow> is_value_op (T_EO op1) \<and> num \<and> fld = Field_id EF_RECORD_TYPE"
| "compare_wf op1 num fld (Value_timestamp sec milli serial) \<longleftrightarrow>
     is_value_op (T_EO op1) \<and> num \<and> (fld = Field_id EF_TIMESTAMP \<or> fld = Field_id EF_TIMESTAMP_EX)"

fun expr_wf :: "expr \<Rightarrow> bool" where
  "expr_wf (Expr_not e) \<longleftrightarrow> expr_wf e"
| "expr_wf (Expr_binary op1 e1 e2) \<longleftrightarrow> (op1 = EO_AND \<or> op1 = EO_OR) \<and> expr_wf e1 \<and> expr_wf e2"
| "expr_wf (Expr_compare op1 num fld v) \<longleftrightarrow> compare_wf op1 num fld v"
| "expr_wf (Expr_field_exists name) \<longleftrightarrow> True"
| "expr_wf (Expr_regexp pattern) \<longleftrightarrow> True"

lemma lex_not_bad: "lex p = Inl e \<Longrightarrow> \<not> bad e"
  using lex_safe [of p] by (auto simp: bad_def)

lemma p_malloc_not_bad: "p_malloc p = Inl e \<Longrightarrow> \<not> bad e"
  by (auto simp: bad_def dest: p_malloc_Inl)

lemma token_op_T_EO [simp]: "is_string_op t \<or> is_value_op t \<Longrightarrow> T_EO (token_op t) = t"
  by (auto simp: is_string_op_def is_value_op_def token_op_def)

lemma parse_comparison_value_wf:
  assumes "parse_comparison_value env fld num p = Inr (v, p')" "is_value_op t"
    "case fld of Field_id _ \<Rightarrow> num | Field_name _ \<Rightarrow> True"
  shows "compare_wf (token_op t) num fld v"
  using assms
  by (auto simp: parse_comparison_value_def parse_unsigned_value_def parse_virtual_field_value_def
      parse_timestamp_value_def parse_record_type_value_def Let_def
      split: field.splits field_id.splits if_splits option.splits prod.splits)

lemma parse_comparison_value_not_bad:
  "parse_comparison_value env fld num p = Inl e \<Longrightarrow> p_token p = T_STRING \<Longrightarrow> \<not> bad e"
  by (auto simp: parse_comparison_value_def parse_unsigned_value_def parse_virtual_field_value_def
      parse_timestamp_value_def parse_record_type_value_def Let_def bad_def
      split: field.splits field_id.splits if_splits option.splits prod.splits)

lemma parse_field_wf:
  "parse_field env p = Inr (Some (fld, num), p') \<Longrightarrow> case fld of Field_id _ \<Rightarrow> num | Field_name _ \<Rightarrow> True"
  by (auto simp: parse_field_def Let_def split: if_splits option.splits field.splits)

lemma parse_field_not_bad:
  "parse_field env p = Inl e \<Longrightarrow> p_token p = T_FIELD_ESCAPE \<or> p_token p = T_STRING \<Longrightarrow> \<not> bad e"
  by (auto simp: parse_field_def Let_def then_do_Inl dest: lex_not_bad split: if_splits option.splits)
    (simp_all add: bad_def)

lemma parse_comparison_wf:
  assumes "parse_comparison env p = Inr (e, p')"
  shows "expr_wf e"
proof -
  obtain p0 f p1 where p0: "p_malloc p = Inr p0" and f: "parse_field env p0 = Inr (f, p1)"
    using assms by (auto simp: parse_comparison_def)
  show ?thesis
  proof (cases f)
    case None
    with assms p0 f show ?thesis
      by (auto simp: parse_comparison_def parse_comparison_regexp_def Let_def split: if_splits option.splits)
  next
    case (Some fn)
    then obtain fld num where fn: "f = Some (fld, num)" by (cases fn) auto
    note wf = parse_field_wf [OF f [unfolded fn]]
    show ?thesis
      using assms p0 f fn wf
      by (auto simp: parse_comparison_def split: if_splits dest: parse_comparison_value_wf [OF _ _ wf])
  qed
qed

lemma parse_comparison_regexp_not_bad: "parse_comparison_regexp env p = Inl e \<Longrightarrow> \<not> bad e"
  by (auto simp: parse_comparison_regexp_def then_do_Inl Let_def dest: lex_not_bad p_malloc_not_bad
      split: if_splits option.splits) (auto simp: bad_def dest: p_malloc_Inl)

lemma parse_comparison_not_bad:
  assumes "parse_comparison env p = Inl e" "p_token p = T_FIELD_ESCAPE \<or> p_token p = T_STRING"
  shows "\<not> bad e"
proof (cases "p_malloc p")
  case (Inl e')
  with assms show ?thesis by (simp add: parse_comparison_def p_malloc_not_bad)
next
  case (Inr p0)
  then have tok: "p_token p0 = T_FIELD_ESCAPE \<or> p_token p0 = T_STRING"
    using assms(2) p_malloc_Inr by auto
  show ?thesis
  proof (cases "parse_field env p0")
    case (Inl e')
    with assms Inr tok show ?thesis by (simp add: parse_comparison_def parse_field_not_bad)
  next
    case f: (Inr fp)
    with assms Inr show ?thesis
      by (auto simp: parse_comparison_def then_do_Inl bad_def split: if_splits option.splits prod.splits
          dest!: parse_comparison_regexp_not_bad lex_not_bad parse_comparison_value_not_bad)
  qed
qed

lemma parse_wf:
  "parse_primary env n p = Some (Inr (e, p')) \<Longrightarrow> expr_wf e"
  "parse_and env n p = Some (Inr (e, p')) \<Longrightarrow> expr_wf e"
  "parse_and_loop env n res p = Some (Inr (e, p')) \<Longrightarrow> expr_wf res \<Longrightarrow> expr_wf e"
  "parse_or env n p = Some (Inr (e, p')) \<Longrightarrow> expr_wf e"
  "parse_or_loop env n res p = Some (Inr (e, p')) \<Longrightarrow> expr_wf res \<Longrightarrow> expr_wf e"
proof (induction env n p and env n p and env n res p and env n p and env n res p
    arbitrary: e p' and e p' and e p' and e p' and e p'
    rule: parse_primary_parse_and_parse_and_loop_parse_or_parse_or_loop.induct)
  case (2 env n p)
  consider (neg) "p_token p = T_EO EO_NOT" | (paren) "p_token p = T_LEFT_PAREN"
    | (other) "p_token p \<noteq> T_EO EO_NOT" "p_token p \<noteq> T_LEFT_PAREN" by blast
  then show ?case
  proof cases
    case neg
    then show ?thesis using "2.prems" "2.IH"(1) [OF neg refl] by (auto simp: f_then_Inr)
  next
    case paren
    then show ?thesis using "2.prems" "2.IH"(2) [OF paren] by (auto simp: f_then_Inr split: if_splits)
  next
    case other
    show ?thesis using "2.prems" parse_primary_other [OF other, of env n]
      by (auto dest: parse_comparison_wf split: if_splits simp del: parse_primary.simps)
  qed
next
  case (4 env n p)
  then show ?case by (auto simp: f_then_Inr)
next
  case (6 env n res p)
  then show ?case by (auto simp: f_then_Inr split: if_splits)
next
  case (8 env n p)
  then show ?case by (auto simp: f_then_Inr)
next
  case (10 env n res p)
  then show ?case by (auto simp: f_then_Inr split: if_splits)
qed simp_all

lemma parse_not_bad:
  "parse_primary env n p = Some (Inl e) \<Longrightarrow> \<not> bad e"
  "parse_and env n p = Some (Inl e) \<Longrightarrow> \<not> bad e"
  "parse_and_loop env n res p = Some (Inl e) \<Longrightarrow> \<not> bad e"
  "parse_or env n p = Some (Inl e) \<Longrightarrow> \<not> bad e"
  "parse_or_loop env n res p = Some (Inl e) \<Longrightarrow> \<not> bad e"
proof (induction env n p and env n p and env n res p and env n p and env n res p
    arbitrary: e and e and e and e and e
    rule: parse_primary_parse_and_parse_and_loop_parse_or_parse_or_loop.induct)
  case (2 env n p)
  consider (neg) "p_token p = T_EO EO_NOT" | (paren) "p_token p = T_LEFT_PAREN"
    | (other) "p_token p \<noteq> T_EO EO_NOT" "p_token p \<noteq> T_LEFT_PAREN" by blast
  then show ?case
  proof cases
    case neg
    then show ?thesis using "2.prems" "2.IH"(1) [OF neg refl]
      by (auto simp: f_then_Inl dest: lex_not_bad p_malloc_not_bad)
  next
    case paren
    then show ?thesis using "2.prems" "2.IH"(2) [OF paren]
      by (auto simp: f_then_Inl dest: lex_not_bad split: if_splits) (simp add: bad_def)
  next
    case other
    have "(if p_token p = T_FIELD_ESCAPE \<or> p_token p = T_STRING then parse_comparison env p
             else Inl (Unexpected_token (token_text p))) = Inl e"
      using "2.prems" parse_primary_other [OF other, of env n] by (simp del: parse_primary.simps)
    then show ?thesis by (auto dest: parse_comparison_not_bad split: if_splits) (auto simp: bad_def)
  qed
next
  case (4 env n p)
  then show ?case by (auto simp: f_then_Inl)
next
  case (6 env n res p)
  then show ?case by (auto simp: f_then_Inl dest: lex_not_bad p_malloc_not_bad split: if_splits)
next
  case (8 env n p)
  then show ?case by (auto simp: f_then_Inl)
next
  case (10 env n res p)
  then show ?case by (auto simp: f_then_Inl dest: lex_not_bad p_malloc_not_bad split: if_splits)
qed simp_all

lemma expr_parse_cases:
  "case expr_parse env allocs s of
     None \<Rightarrow> False
   | Some (Inl e) \<Rightarrow> e \<noteq> Undefined_behaviour \<and> e \<noteq> Abort
   | Some (Inr e) \<Rightarrow> expr_wf e"
proof (cases "lex \<lparr>p_token = T_EOF, p_token_start = s, p_token_len = 0, p_token_value = None,
                   p_src = s, p_allocs = allocs\<rparr>")
  case (Inl e)
  then show ?thesis using lex_not_bad [OF Inl] by (simp add: expr_parse_def bad_def)
next
  case (Inr p)
  have "unread p \<le> length s" using lex_shorter(4) [OF Inr] by simp
  then have "parse_or env (parse_fuel s) p \<noteq> None"
    by (intro parse_fuel_enough) (simp add: parse_fuel_def)
  then show ?thesis
    using Inr parse_wf(4) [of env "parse_fuel s" p] parse_not_bad(4) [of env "parse_fuel s" p]
    by (auto simp: expr_parse_def bad_def f_then_def split: sum.splits prod.splits)
qed

end
