(* ===== verification/Expr_Print.thy ===== *)
theory Expr_Print
  imports Expr_Parser
begin

text \<open>
  A printer for search expressions, which writes parentheses only where the grammar of
  \<open>auparse/expression.c\<close> needs them, and the proof that the parser reads back what it writes: the
  parser implements the precedence, associativity, quoting and number formats of the grammar.
\<close>

section \<open>Printing\<close>

text \<open>A lexeme: the token, its value, its text, and how much of the text \<open>lex\<close> itself consumes (all
  of it, except for timestamps, which the parser reads from the start of the token).\<close>

type_synonym lexeme_text = "token_type \<times> string option \<times> string \<times> nat"

definition word_text :: "token_type \<Rightarrow> string option \<Rightarrow> string \<Rightarrow> lexeme_text" where
  "word_text t v x = (t, v, x, length x)"

definition escape_char :: "char \<Rightarrow> string" where
  "escape_char c = (if c = backslash \<or> c = quote then [backslash, c] else [c])"

definition quote_string :: "string \<Rightarrow> string" where
  "quote_string s = quote # concat (map escape_char s) @ [quote]"

definition string_text :: "string \<Rightarrow> lexeme_text" where
  "string_text s = word_text T_STRING (Some s) (quote_string s)"

definition plain_text :: "string \<Rightarrow> lexeme_text" where
  "plain_text s = word_text T_STRING (Some s) s"

fun eo_text :: "eo \<Rightarrow> string" where
  "eo_text EO_NOT = ''!''"
| "eo_text EO_AND = ''&&''"
| "eo_text EO_OR = ''||''"
| "eo_text EO_RAW_EQ = ''r=''"
| "eo_text EO_RAW_NE = ''r!=''"
| "eo_text EO_INTERPRETED_EQ = ''i=''"
| "eo_text EO_INTERPRETED_NE = ''i!=''"
| "eo_text EO_VALUE_EQ = ''==''"
| "eo_text EO_VALUE_NE = ''!==''"
| "eo_text EO_VALUE_LT = ''<''"
| "eo_text EO_VALUE_LE = ''<=''"
| "eo_text EO_VALUE_GT = ''>''"
| "eo_text EO_VALUE_GE = ''>=''"
| "eo_text EO_FIELD_EXISTS = []"
| "eo_text EO_REGEXP_MATCHES = []"

definition op_text :: "eo \<Rightarrow> lexeme_text" where
  "op_text e = word_text (T_EO e) None (eo_text e)"

abbreviation "left_paren \<equiv> word_text T_LEFT_PAREN None ''(''"
abbreviation "right_paren \<equiv> word_text T_RIGHT_PAREN None '')''"
abbreviation "field_escape \<equiv> word_text T_FIELD_ESCAPE None [backslash]"

fun field_id_name :: "field_id \<Rightarrow> string" where
  "field_id_name EF_TIMESTAMP = ''timestamp''"
| "field_id_name EF_RECORD_TYPE = ''record_type''"
| "field_id_name EF_TIMESTAMP_EX = ''timestamp_ex''"

fun print_field :: "field \<Rightarrow> lexeme_text list" where
  "print_field (Field_name s) = [string_text s]"
| "print_field (Field_id f) = [field_escape, plain_text (field_id_name f)]"

definition timestamp_text :: "int \<Rightarrow> nat \<Rightarrow> nat option \<Rightarrow> string" where
  "timestamp_text sec milli serial =
     ''ts:'' @ show_nat (nat sec) @ ''.'' @ show_nat milli
     @ (case serial of None \<Rightarrow> [] | Some n \<Rightarrow> '':'' @ show_nat n)"

fun print_value :: "expr_value \<Rightarrow> lexeme_text" where
  "print_value (Value_string s) = string_text s"
| "print_value (Value_timestamp sec milli serial) =
     (T_STRING, Some ''ts'', timestamp_text sec milli serial, 2)"
| "print_value (Value_int i) = plain_text (show_nat (nat i))"
| "print_value (Value_unsigned u) = plain_text (show_nat (unat u))"

text \<open>Level 0 is an or-expression, 1 an and-expression, 2 a primary expression.\<close>

fun print_expr :: "nat \<Rightarrow> expr \<Rightarrow> lexeme_text list" where
  "print_expr level (Expr_not e) = op_text EO_NOT # print_expr 2 e"
| "print_expr level (Expr_binary op1 a b) =
     (if op1 = EO_OR then
        let body = print_expr 0 a @ op_text EO_OR # print_expr 1 b in
        if level = 0 then body else left_paren # body @ [right_paren]
      else
        let body = print_expr 1 a @ op_text EO_AND # print_expr 2 b in
        if level \<le> 1 then body else left_paren # body @ [right_paren])"
| "print_expr level (Expr_compare op1 num fld v) = print_field fld @ [op_text op1, print_value v]"
| "print_expr level (Expr_field_exists s) = []"
| "print_expr level (Expr_regexp s) = [field_escape, plain_text ''regexp'', string_text s]"

definition unlex :: "lexeme_text list \<Rightarrow> string" where
  "unlex ts = concat (map (\<lambda>(t, v, x, n). x @ '' '') ts)"

definition print_string :: "expr \<Rightarrow> string" where
  "print_string e = unlex (print_expr 0 e)"

text \<open>The expressions that have a printed form: what a parse can produce, with numbers in range.\<close>

definition text_ok :: "string \<Rightarrow> bool" where
  "text_ok s \<longleftrightarrow> is_cstr s \<and> length (quote_string s) \<le> INT_MAX"

fun value_printable :: "expr_env \<Rightarrow> expr_value \<Rightarrow> bool" where
  "value_printable env (Value_string s) \<longleftrightarrow> text_ok s"
| "value_printable env (Value_timestamp sec milli serial) \<longleftrightarrow>
     0 \<le> sec \<and> sec < 2 ^ 63 \<and> milli < 2 ^ 32 \<and> (\<forall>n. serial = Some n \<longrightarrow> n < 2 ^ 32)"
| "value_printable env (Value_int i) \<longleftrightarrow>
     0 \<le> i \<and> i < 2 ^ 31 \<and> msg_type_s2i (env_tables env) (show_nat (nat i)) = None"
| "value_printable env (Value_unsigned u) \<longleftrightarrow> True"

fun printable :: "expr_env \<Rightarrow> expr \<Rightarrow> bool" where
  "printable env (Expr_not e) \<longleftrightarrow> printable env e"
| "printable env (Expr_binary op1 a b) \<longleftrightarrow> printable env a \<and> printable env b"
| "printable env (Expr_compare op1 num fld v) \<longleftrightarrow>
     value_printable env v \<and>
     (\<forall>s. fld = Field_name s \<longrightarrow> text_ok s \<and>
        num = (env_lookup_type env s = AUPARSE_TYPE_UID \<or> env_lookup_type env s = AUPARSE_TYPE_GID))"
| "printable env (Expr_field_exists s) \<longleftrightarrow> False"
| "printable env (Expr_regexp s) \<longleftrightarrow> text_ok s \<and> env_regcomp_error env s = None"

section \<open>Lexing one token\<close>

definition token_ok :: "lexeme_text \<Rightarrow> bool" where
  "token_ok k \<longleftrightarrow>
     (case k of (t, v, x, n) \<Rightarrow>
        x \<noteq> [] \<and> \<not> is_blank (hd x) \<and> n \<le> length x \<and> n \<le> INT_MAX \<and>
        (\<forall>rest. lex_token [] (x @ CHR '' '' # rest) = Inr (t, v, drop n (x @ CHR '' '' # rest), [])))"

lemma parser_malloc_Nil [simp]: "parser_malloc [] = (True, [])"
  by (simp add: parser_malloc_def)

lemma lex_delimited_escape:
  "length buf < n \<Longrightarrow> length buf + length s \<le> INT_MAX \<Longrightarrow>
     lex_delimited quote [] n buf (concat (map escape_char s) @ quote # rest) = Inr (buf @ s, rest, [])"
proof (induction s arbitrary: buf n)
  case Nil
  then show ?case by (simp add: lex_delimited.simps)
next
  case (Cons c s)
  define src where "src = concat (map escape_char (c # s)) @ quote # rest"
  have start: "\<not> (src \<noteq> [] \<and> hd src = quote)"
    by (simp add: src_def escape_char_def)
  have esc: "lex_escape quote src = Inr (c, concat (map escape_char s) @ quote # rest)"
    by (simp add: src_def escape_char_def lex_escape_def)
  have "n \<le> SIZE_MAX div 2 \<or> length buf + 1 < n"
    using Cons.prems by (auto simp: INT_MAX_def SIZE_MAX_def)
  then have "grow_buffer (length buf) n [] = Inr (if length buf + 1 \<ge> n then n * 2 else n, [])"
    by (auto simp: grow_buffer_def)
  moreover define n' where "n' = (if length buf + 1 \<ge> n then n * 2 else n)"
  ultimately have n': "grow_buffer (length buf) n [] = Inr (n', [])" "length buf + 1 < n'"
    using Cons.prems(1) by (auto simp: n'_def)
  have "lex_delimited quote [] n' (buf @ [c]) (concat (map escape_char s) @ quote # rest) = Inr ((buf @ [c]) @ s, rest, [])"
    using Cons.IH [of "buf @ [c]" n'] Cons.prems(2) n'(2) by simp
  then have "lex_delimited quote [] n buf src = Inr (buf @ c # s, rest, [])"
    using start esc n' by (simp add: lex_delimited.simps [of quote "[]" n buf src])
  then show ?case by (simp add: src_def)
qed

lemma length_quote_string: "length s + 2 \<le> length (quote_string s)"
proof -
  have "length s \<le> length (concat (map escape_char s))"
    by (induction s) (auto simp: escape_char_def)
  then show ?thesis by (simp add: quote_string_def)
qed

lemma string_text_ok:
  assumes "text_ok s"
  shows "token_ok (string_text s)"
proof -
  have len: "length s \<le> INT_MAX" "length (quote_string s) \<le> INT_MAX"
    using assms length_quote_string [of s] by (auto simp: text_ok_def)
  have "lex_quoted [] quote (concat (map escape_char s) @ quote # rest) = Inr (T_STRING, Some s, rest, [])" for rest
    using lex_delimited_escape [of "[]" 8 s rest] len by (simp add: lex_quoted_def)
  then show ?thesis
    using len
    by (simp add: token_ok_def string_text_def word_text_def quote_string_def lex_token_eq is_blank_def)
qed

lemma not_unquoted_blank [simp]: "\<not> is_unquoted_string_char (CHR '' '')"
  by (simp add: is_unquoted_string_char_def)

lemma lex_unquoted_all:
  assumes "s \<noteq> []" "\<forall>c \<in> set s. is_unquoted_string_char c"
  shows "lex_unquoted [] (s @ CHR '' '' # rest) = Inr (T_STRING, Some s, CHR '' '' # rest, [])"
  using assms by (cases s) (auto simp: lex_unquoted_def takeWhile_append dropWhile_append)

lemma digit_cases:
  assumes "isdigit c"
  shows "c \<noteq> CHR ''!'' \<and> c \<noteq> quote \<and> c \<noteq> CHR ''/'' \<and> c \<noteq> CHR ''&'' \<and> c \<noteq> CHR ''('' \<and> c \<noteq> CHR '')'' \<and>
    c \<noteq> CHR ''<'' \<and> c \<noteq> CHR ''='' \<and> c \<noteq> CHR ''>'' \<and> c \<noteq> backslash \<and> c \<noteq> CHR ''|'' \<and> c \<noteq> CHR ''i'' \<and>
    c \<noteq> CHR ''r'' \<and> \<not> is_blank c \<and> is_unquoted_string_char c"
  using assms by (auto simp: isdigit_def is_blank_def is_unquoted_string_char_def)

lemma number_text_ok:
  assumes "length (show_nat n) \<le> INT_MAX"
  shows "token_ok (plain_text (show_nat n))"
proof -
  obtain c cs where c: "show_nat n = c # cs" "isdigit c" by (rule show_nat_first)
  have all: "\<forall>c \<in> set (show_nat n). is_unquoted_string_char c"
    using show_nat_digits [of n] digit_cases by blast
  have "lex_token [] (show_nat n @ CHR '' '' # rest) = lex_unquoted [] (show_nat n @ CHR '' '' # rest)" for rest
    using digit_cases [OF c(2)] c(1) by (simp add: lex_token_eq Let_def)
  then show ?thesis
    using lex_unquoted_all [OF show_nat_nonempty all] assms digit_cases [OF c(2)] c(1)
    by (simp add: token_ok_def plain_text_def word_text_def)
qed

lemma INT_MAX_ge [simp]: "20 \<le> INT_MAX"
  by (simp add: INT_MAX_def)

lemma name_texts_ok:
  "token_ok (plain_text ''regexp'')" "token_ok (plain_text ''timestamp'')"
  "token_ok (plain_text ''timestamp_ex'')" "token_ok (plain_text ''record_type'')"
  by (simp_all add: token_ok_def plain_text_def word_text_def lex_token_eq is_blank_def lex_unquoted_def
      is_unquoted_string_char_def INT_MAX_def Let_def)

lemma field_id_text_ok: "token_ok (plain_text (field_id_name f))"
  by (cases f) (simp_all add: name_texts_ok)

lemma paren_texts_ok: "token_ok left_paren" "token_ok right_paren" "token_ok field_escape"
  by (simp_all add: token_ok_def word_text_def lex_token_eq is_blank_def INT_MAX_def Let_def)

lemma op_text_ok: "eo_text e \<noteq> [] \<Longrightarrow> token_ok (op_text e)"
  by (cases e) (simp_all add: token_ok_def op_text_def word_text_def lex_token_eq is_blank_def INT_MAX_def Let_def)

lemma timestamp_token_ok: "token_ok (print_value (Value_timestamp sec milli serial))"
  by (simp add: token_ok_def timestamp_text_def lex_token_eq is_blank_def lex_unquoted_def
      is_unquoted_string_char_def INT_MAX_def Let_def)

section \<open>Lexing a sequence of tokens\<close>

text \<open>The parser's state when the first lexeme is the current token and the others are to come.\<close>

fun parser_at :: "lexeme_text list \<Rightarrow> parsing" where
  "parser_at [] = \<lparr>p_token = T_EOF, p_token_start = [], p_token_len = 0, p_token_value = None,
                   p_src = [], p_allocs = []\<rparr>"
| "parser_at ((t, v, x, n) # ts) =
     \<lparr>p_token = t, p_token_start = x @ CHR '' '' # unlex ts, p_token_len = n, p_token_value = v,
      p_src = drop n (x @ CHR '' '' # unlex ts), p_allocs = []\<rparr>"

abbreviation tokens_ok :: "lexeme_text list \<Rightarrow> bool" where
  "tokens_ok ts \<equiv> list_all token_ok ts"

lemma unlex_simps [simp]: "unlex [] = []" "unlex ((t, v, x, n) # ts) = x @ CHR '' '' # unlex ts"
  by (simp_all add: unlex_def)

lemma is_blank_space [simp]: "is_blank (CHR '' '')"
  by (simp add: is_blank_def)

lemma drop_blanks_unlex: "tokens_ok ts \<Longrightarrow> dropWhile is_blank (unlex ts) = unlex ts"
proof (cases ts)
  case (Cons k ts')
  moreover assume "tokens_ok ts"
  moreover obtain t v x n where "k = (t, v, x, n)" by (cases k) auto
  ultimately show ?thesis by (cases x) (auto simp: token_ok_def)
qed simp

lemma lex_at:
  assumes "dropWhile is_blank (p_src p) = unlex ts" "p_allocs p = []" "tokens_ok ts"
  shows "lex p = Inr (parser_at ts)"
proof (cases ts)
  case Nil
  then have "dropWhile is_blank (p_src p) = []" using assms(1) by simp
  with assms(2) Nil show ?thesis by (simp add: lex_def lex_token_eq Let_def)
next
  case (Cons k ts')
  moreover obtain t v x n where "k = (t, v, x, n)" by (cases k) auto
  ultimately show ?thesis using assms by (simp add: lex_def token_ok_def Let_def)
qed

lemma lex_next:
  assumes "tokens_ok ts" "n = length x"
  shows "lex (parser_at ((t, v, x, n) # ts)) = Inr (parser_at ts)"
  by (rule lex_at) (use assms drop_blanks_unlex in simp_all)

lemma lex_word: "tokens_ok ts \<Longrightarrow> lex (parser_at (word_text t v x # ts)) = Inr (parser_at ts)"
  unfolding word_text_def by (rule lex_next) simp_all

lemma lex_token_value [simp]: "lex (p\<lparr>p_token_value := v\<rparr>) = lex p"
  by (simp add: lex_def)

lemma p_malloc_at [simp]: "p_malloc (parser_at ts) = Inr (parser_at ts)"
  by (cases ts rule: parser_at.cases) (simp_all add: p_malloc_def)

lemma token_at_word [simp]:
  "p_token (parser_at (word_text t v x # ts)) = t"
  "p_token_value (parser_at (word_text t v x # ts)) = v"
  by (simp_all add: word_text_def)

section \<open>Parsing comparisons\<close>

lemma scan_conv_show:
  assumes "\<not> isdigit (peek r)"
  shows "scan_conv (show_nat n @ r) = Some (False, show_nat n, r)"
proof -
  obtain c cs where c: "show_nat n = c # cs" "isdigit c" by (rule show_nat_first)
  then have "dropWhile isspace (show_nat n @ r) = show_nat n @ r" "peek (show_nat n @ r) = c"
    using isdigit_not_special by simp_all
  then show ?thesis
    using c isdigit_not_special takeWhile_digits_show [OF assms, of n] dropWhile_digits_show [OF assms, of n]
    by (simp add: scan_conv_def)
qed

lemma conv_uint_show: "n < 2 ^ 32 \<Longrightarrow> conv_uint False (show_nat n) = n"
  by (simp add: conv_uint_def ulong_of_def decimal_show_nat ULONG_MAX_def)

lemma long_of_show: "n < 2 ^ 63 \<Longrightarrow> long_of False (show_nat n) = int n"
  by (simp add: long_of_def decimal_show_nat)

lemma sscanf_timestamp_text:
  assumes "value_printable env (Value_timestamp sec milli serial)" "\<not> isdigit (peek r)" "peek r \<noteq> CHR '':''"
  shows "sscanf_timestamp (timestamp_text sec milli serial @ r) = Some (sec, milli, serial)"
proof -
  have dot: "\<not> isdigit (CHR ''.'')" "\<not> isdigit (CHR '':'')" by (simp_all add: isdigit_def)
  have sec: "long_of False (show_nat (nat sec)) = sec"
    using assms(1) by (subst long_of_show) (auto simp: nat_less_iff)
  have "conv_uint False (show_nat milli) = milli" using assms(1) by (simp add: conv_uint_show)
  then show ?thesis
    using sec assms dot
    by (cases serial) (simp_all add: sscanf_timestamp_def timestamp_text_def scan_conv_show conv_uint_show)
qed

lemma dropWhile_timestamp_text:
  "dropWhile is_timestamp_char (timestamp_text sec milli serial @ CHR '' '' # r) = CHR '' '' # r"
proof -
  have "\<forall>c \<in> set (timestamp_text sec milli serial). is_timestamp_char c"
    using show_nat_digits
    by (auto simp: timestamp_text_def is_timestamp_char_def split: option.splits)
  then have "dropWhile is_timestamp_char (timestamp_text sec milli serial @ CHR '' '' # r)
      = dropWhile is_timestamp_char (CHR '' '' # r)"
    by (simp add: dropWhile_append)
  then show ?thesis by (simp add: is_timestamp_char_def isdigit_def)
qed

lemma parse_escaped_field_id [simp]: "parse_escaped_field_name (field_id_name f) = Some f"
  by (cases f) (simp_all add: parse_escaped_field_name_def)

lemma field_id_not_regexp [simp]: "field_id_name f \<noteq> ''regexp''"
  by (cases f) simp_all

lemma parse_field_at:
  assumes "tokens_ok (print_field fld @ ts)" "\<forall>f. fld = Field_id f \<longrightarrow> num"
    "\<forall>s. fld = Field_name s \<longrightarrow>
       num = (env_lookup_type env s = AUPARSE_TYPE_UID \<or> env_lookup_type env s = AUPARSE_TYPE_GID)"
  shows "\<exists>p. parse_field env (parser_at (print_field fld @ ts)) = Inr (Some (fld, num), p) \<and>
             (tokens_ok ts \<longrightarrow> lex p = Inr (parser_at ts))"
proof (cases fld)
  case (Field_name s)
  then show ?thesis
    using assms by (simp add: parse_field_def string_text_def lex_word Let_def)
next
  case (Field_id f)
  then have "tokens_ok (plain_text (field_id_name f) # ts)" using assms(1) by simp
  then show ?thesis
    using Field_id assms(2) by (simp add: parse_field_def lex_word plain_text_def Let_def)
qed

lemma parse_comparison_value_at:
  assumes "value_printable env v" "compare_wf op1 num fld v" "\<not> is_string_op (T_EO op1)" "tokens_ok ts"
  shows "\<exists>p. parse_comparison_value env fld num (parser_at (print_value v # ts)) = Inr (v, p) \<and>
             lex p = Inr (parser_at ts)"
proof (cases v)
  case (Value_string s)
  with assms show ?thesis by simp
next
  case (Value_timestamp sec milli serial)
  let ?p = "parser_at (print_value v # ts)"
  have start: "p_token_start ?p = timestamp_text sec milli serial @ CHR '' '' # unlex ts"
    using Value_timestamp by simp
  have scan: "sscanf_timestamp (p_token_start ?p) = Some (sec, milli, serial)"
    using sscanf_timestamp_text [of env sec milli serial "CHR '' '' # unlex ts"] assms(1) Value_timestamp
    by (simp add: start isdigit_def)
  have "to_time_t sec = sec" using assms(1) Value_timestamp by (simp add: to_time_t_def)
  then have "parse_timestamp_value ?p = Inr (v, ?p\<lparr>p_src := CHR '' '' # unlex ts\<rparr>)"
    using scan Value_timestamp start
    by (simp add: parse_timestamp_value_def dropWhile_timestamp_text Let_def)
  moreover have "lex (?p\<lparr>p_src := CHR '' '' # unlex ts\<rparr>) = Inr (parser_at ts)"
    using assms(4) Value_timestamp by (intro lex_at) (simp_all add: drop_blanks_unlex)
  ultimately show ?thesis
    using assms(2) Value_timestamp
    by (auto simp: parse_comparison_value_def parse_virtual_field_value_def)
next
  case (Value_int i)
  then have i: "0 \<le> i" "i < 2 ^ 31" "msg_type_s2i (env_tables env) (show_nat (nat i)) = None"
    using assms(1) by simp_all
  obtain c cs where c: "show_nat (nat i) = c # cs" "isdigit c" by (rule show_nat_first)
  have "take 8 (show_nat (nat i)) \<noteq> ''UNKNOWN[''" using c by (auto simp: isdigit_def)
  then have "audit_name_to_msg_type (env_tables env) (show_nat (nat i)) = i"
    using i c(2) strtol_show [of "nat i" "[]"] to_int32_id [of i] arg_cong [OF c(1), of peek]
    by (simp add: audit_name_to_msg_type_def)
  then show ?thesis
    using assms Value_int i(1)
    by (simp add: parse_comparison_value_def parse_virtual_field_value_def parse_record_type_value_def
        plain_text_def lex_word)
next
  case (Value_unsigned u)
  have "unat u < 2 ^ LENGTH(32)" by (rule unsigned_less)
  then have "unat u \<le> ULONG_MAX" by (simp add: ULONG_MAX_def)
  then have "strtoul (show_nat (unat u)) = (unat u, False)"
    using strtoul_show [of "unat u" "[]"] by simp
  then show ?thesis
    using assms Value_unsigned
    by (auto simp: parse_comparison_value_def parse_unsigned_value_def plain_text_def lex_word)
qed

lemma print_field_ok:
  "\<forall>s. fld = Field_name s \<longrightarrow> text_ok s \<Longrightarrow> tokens_ok (print_field fld)"
  by (cases fld) (simp_all add: string_text_ok field_id_text_ok paren_texts_ok)

lemma length_show_nat_bound: "length (show_nat n) \<le> Suc n"
proof (induction n rule: show_nat.induct)
  case (1 n)
  then show ?case by (subst show_nat.simps) auto
qed

lemma number_in_range_ok: "n < 2 ^ 32 \<Longrightarrow> token_ok (plain_text (show_nat n))"
proof (rule number_text_ok)
  assume "n < 2 ^ 32"
  then have "length (show_nat n) \<le> Suc 9" by (intro length_show_nat) simp
  then show "length (show_nat n) \<le> INT_MAX" by (simp add: INT_MAX_def)
qed

lemma print_value_ok: "value_printable env v \<Longrightarrow> token_ok (print_value v)"
proof (cases v)
  case (Value_unsigned u)
  have "unat u < 2 ^ LENGTH(32)" by (rule unsigned_less)
  with Value_unsigned show ?thesis by (simp add: number_in_range_ok)
qed (use timestamp_token_ok in \<open>auto simp: string_text_ok number_in_range_ok nat_less_iff\<close>)

lemma compare_wf_ops:
  "compare_wf op1 num fld v \<Longrightarrow> is_string_op (T_EO op1) \<or> is_value_op (T_EO op1)"
  "compare_wf op1 num fld v \<Longrightarrow> fld = Field_id f \<Longrightarrow> num"
  "compare_wf op1 num fld v \<Longrightarrow> is_string_op (T_EO op1) \<longleftrightarrow> (\<exists>s. v = Value_string s)"
  by (cases v; auto simp: is_string_op_def is_value_op_def)+

lemma op_text_nonempty:
  "is_string_op (T_EO e) \<or> is_value_op (T_EO e) \<Longrightarrow> eo_text e \<noteq> []"
  by (auto simp: is_string_op_def is_value_op_def)

lemma print_expr_ok: "printable env e \<Longrightarrow> expr_wf e \<Longrightarrow> tokens_ok (print_expr level e)"
proof (induction e arbitrary: level)
  case (Expr_compare op1 num fld v)
  then show ?case
    using compare_wf_ops(1) op_text_nonempty print_value_ok print_field_ok
    by (auto simp: op_text_ok)
qed (auto simp: Let_def op_text_ok paren_texts_ok name_texts_ok string_text_ok)

lemma parse_comparison_at:
  assumes "printable env (Expr_compare op1 num fld v)" "compare_wf op1 num fld v" "tokens_ok ts"
  shows "parse_comparison env (parser_at (print_field fld @ [op_text op1, print_value v] @ ts)) =
           Inr (Expr_compare op1 num fld v, parser_at ts)"
proof -
  note ops = compare_wf_ops [OF assms(2)]
  have "token_ok (op_text op1)" "token_ok (print_value v)" "tokens_ok (print_field fld)"
    using op_text_ok op_text_nonempty [OF ops(1)] print_value_ok assms(1) print_field_ok by auto
  then have ok: "tokens_ok ([op_text op1, print_value v] @ ts)" "tokens_ok (print_value v # ts)"
    "tokens_ok (print_field fld @ [op_text op1, print_value v] @ ts)"
    using assms(3) by simp_all
  have "\<forall>f. fld = Field_id f \<longrightarrow> num" "\<forall>s. fld = Field_name s \<longrightarrow>
      num = (env_lookup_type env s = AUPARSE_TYPE_UID \<or> env_lookup_type env s = AUPARSE_TYPE_GID)"
    using ops(2) assms(1) by auto
  from parse_field_at [OF ok(3) this] obtain p where
    p: "parse_field env (parser_at (print_field fld @ [op_text op1, print_value v] @ ts)) = Inr (Some (fld, num), p)"
    "lex p = Inr (parser_at ([op_text op1, print_value v] @ ts))"
    using ok(1) by blast
  have l2: "lex (parser_at (op_text op1 # print_value v # ts)) = Inr (parser_at (print_value v # ts))"
    using ok(2) by (simp add: op_text_def lex_word)
  have tok: "p_token (parser_at (op_text op1 # print_value v # ts)) = T_EO op1"
    by (simp add: op_text_def)
  have tv: "p_token (parser_at (print_value v # ts)) = T_STRING"
    by (cases v) (simp_all add: string_text_def plain_text_def)
  have disj: "is_string_op (T_EO op1) \<Longrightarrow> \<not> is_value_op (T_EO op1)"
    by (auto simp: is_string_op_def is_value_op_def)
  show ?thesis
  proof (cases "is_string_op (T_EO op1)")
    case True
    then obtain s where s: "v = Value_string s" using ops(3) by blast
    have l3: "lex (parser_at (print_value v # ts)) = Inr (parser_at ts)"
      using assms(3) s by (simp add: string_text_def lex_word)
    have "p_token_value (parser_at (print_value v # ts)) = Some s"
      using s by (simp add: string_text_def)
    then show ?thesis
      using True p l2 tok tv l3 s
      by (simp add: parse_comparison_def token_op_def del: print_value.simps)
  next
    case False
    from parse_comparison_value_at [OF _ assms(2) False assms(3)] obtain p' where
      "parse_comparison_value env fld num (parser_at (print_value v # ts)) = Inr (v, p')"
      "lex p' = Inr (parser_at ts)" using assms(1) by auto
    then show ?thesis
      using False ops(1) p l2 tok tv
      by (simp add: parse_comparison_def token_op_def)
  qed
qed

lemma parse_regexp_at:
  assumes "printable env (Expr_regexp s)" "tokens_ok ts"
  shows "parse_comparison env (parser_at ([field_escape, plain_text ''regexp'', string_text s] @ ts)) =
           Inr (Expr_regexp s, parser_at ts)"
proof -
  have ok: "tokens_ok (string_text s # ts)" "tokens_ok (plain_text ''regexp'' # string_text s # ts)"
    using assms by (simp_all add: string_text_ok name_texts_ok)
  have l: "lex (parser_at (field_escape # plain_text ''regexp'' # string_text s # ts)) =
      Inr (parser_at (plain_text ''regexp'' # string_text s # ts))"
    "lex (parser_at (plain_text ''regexp'' # string_text s # ts)) = Inr (parser_at (string_text s # ts))"
    "lex (parser_at (string_text s # ts)) = Inr (parser_at ts)"
    using ok assms(2) by (simp_all add: lex_word) (simp_all add: plain_text_def string_text_def lex_word)
  have t: "p_token (parser_at (plain_text ''regexp'' # string_text s # ts)) = T_STRING"
    "p_token_value (parser_at (plain_text ''regexp'' # string_text s # ts)) = Some ''regexp''"
    "p_token (parser_at (string_text s # ts)) = T_STRING"
    "p_token_value (parser_at (string_text s # ts)) = Some s"
    by (simp_all add: plain_text_def string_text_def)
  show ?thesis
    using assms(1) l t by (simp add: parse_comparison_def parse_field_def parse_comparison_regexp_def Let_def)
qed

section \<open>More fuel does not change a result\<close>

definition le_opt :: "'a option \<Rightarrow> 'a option \<Rightarrow> bool" where
  "le_opt a b \<longleftrightarrow> a = None \<or> b = a"

lemma le_opt_refl [simp]: "le_opt a a"
  by (simp add: le_opt_def)

lemma f_then_le:
  "le_opt r r' \<Longrightarrow> (\<And>x. r = Some (Inr x) \<Longrightarrow> le_opt (f x) (g x)) \<Longrightarrow> le_opt (f_then r f) (f_then r' g)"
  by (auto simp: f_then_def le_opt_def split: option.splits sum.splits)

lemma case_prod_le:
  "(\<And>a b. x = (a, b) \<Longrightarrow> le_opt (f a b) (g a b)) \<Longrightarrow> le_opt (case_prod f x) (case_prod g x)"
  by (cases x) simp

lemma parse_le:
  "n \<le> m \<Longrightarrow> le_opt (parse_primary env n p) (parse_primary env m p)"
  "n \<le> m \<Longrightarrow> le_opt (parse_and env n p) (parse_and env m p)"
  "n \<le> m \<Longrightarrow> le_opt (parse_and_loop env n res p) (parse_and_loop env m res p)"
  "n \<le> m \<Longrightarrow> le_opt (parse_or env n p) (parse_or env m p)"
  "n \<le> m \<Longrightarrow> le_opt (parse_or_loop env n res p) (parse_or_loop env m res p)"
proof (induction env n p and env n p and env n res p and env n p and env n res p
    arbitrary: m and m and m and m and m
    rule: parse_primary_parse_and_parse_and_loop_parse_or_parse_or_loop.induct)
  case (2 env n p)
  then obtain k where m: "m = Suc k" "n \<le> k" by (cases m) auto
  consider (neg) "p_token p = T_EO EO_NOT" | (paren) "p_token p = T_LEFT_PAREN"
    | (other) "p_token p \<noteq> T_EO EO_NOT" "p_token p \<noteq> T_LEFT_PAREN" by blast
  then show ?case
  proof cases
    case neg
    then show ?thesis
      using "2.IH"(1) [OF neg refl _ m(2)] m(1) by (auto intro!: f_then_le)
  next
    case paren
    then show ?thesis
      using "2.IH"(2) [OF paren _ m(2)] m(1) by (auto intro!: f_then_le)
  next
    case other
    show ?thesis
      using m(1) parse_primary_other [OF other, of env n] parse_primary_other [OF other, of env k] by simp
  qed
next
  case (4 env n p)
  then obtain k where m: "m = Suc k" "n \<le> k" by (cases m) auto
  then show ?case
    using "4.IH"(1) [OF m(2)] "4.IH"(2) [OF _ _ m(2)] by (auto intro!: f_then_le case_prod_le)
next
  case (6 env n res p)
  then obtain k where m: "m = Suc k" "n \<le> k" by (cases m) auto
  show ?case
  proof (cases "p_token p = T_EO EO_AND")
    case True
    then show ?thesis
      using "6.IH"(1) [OF True _ m(2)] "6.IH"(2) [OF True _ _ _ _ m(2)] m(1)
      by (auto intro!: f_then_le case_prod_le)
  qed (use m in simp)
next
  case (8 env n p)
  then obtain k where m: "m = Suc k" "n \<le> k" by (cases m) auto
  then show ?case
    using "8.IH"(1) [OF m(2)] "8.IH"(2) [OF _ _ m(2)] by (auto intro!: f_then_le case_prod_le)
next
  case (10 env n res p)
  then obtain k where m: "m = Suc k" "n \<le> k" by (cases m) auto
  show ?case
  proof (cases "p_token p = T_EO EO_OR")
    case True
    then show ?thesis
      using "10.IH"(1) [OF True _ m(2)] "10.IH"(2) [OF True _ _ _ _ m(2)] m(1)
      by (auto intro!: f_then_le case_prod_le)
  qed (use m in simp)
qed (simp_all add: le_opt_def)

lemma parse_mono:
  assumes "n \<le> m"
  shows "parse_primary env n p = Some r \<Longrightarrow> parse_primary env m p = Some r"
    "parse_and env n p = Some r \<Longrightarrow> parse_and env m p = Some r"
    "parse_and_loop env n res p = Some r \<Longrightarrow> parse_and_loop env m res p = Some r"
    "parse_or env n p = Some r \<Longrightarrow> parse_or env m p = Some r"
    "parse_or_loop env n res p = Some r \<Longrightarrow> parse_or_loop env m res p = Some r"
  using parse_le [OF assms] by (metis le_opt_def option.distinct(1))+

section \<open>Reading back\<close>

definition reads_primary :: "expr_env \<Rightarrow> expr \<Rightarrow> bool" where
  "reads_primary env e \<longleftrightarrow>
     (\<forall>ts. tokens_ok ts \<longrightarrow> (\<exists>n. parse_primary env n (parser_at (print_expr 2 e @ ts)) = Some (Inr (e, parser_at ts))))"

text \<open>The loops are left-associative: what they do after \<open>e\<close> is what they do with \<open>e\<close> as their
  first operand.\<close>

definition reads_and :: "expr_env \<Rightarrow> expr \<Rightarrow> bool" where
  "reads_and env e \<longleftrightarrow>
     (\<forall>ts m r. tokens_ok ts \<longrightarrow> parse_and_loop env m e (parser_at ts) = Some r \<longrightarrow>
        (\<exists>n. parse_and env n (parser_at (print_expr 1 e @ ts)) = Some r))"

definition reads_or :: "expr_env \<Rightarrow> expr \<Rightarrow> bool" where
  "reads_or env e \<longleftrightarrow>
     (\<forall>ts m r. tokens_ok ts \<longrightarrow> p_token (parser_at ts) \<noteq> T_EO EO_AND \<longrightarrow>
        parse_or_loop env m e (parser_at ts) = Some r \<longrightarrow>
        (\<exists>n. parse_or env n (parser_at (print_expr 0 e @ ts)) = Some r))"

lemma and_loop_stops:
  "p_token p \<noteq> T_EO EO_AND \<Longrightarrow> parse_and_loop env (Suc 0) e p = Some (Inr (e, p))"
  by simp

lemma or_loop_stops:
  "p_token p \<noteq> T_EO EO_OR \<Longrightarrow> parse_or_loop env (Suc 0) e p = Some (Inr (e, p))"
  by simp

lemma reads_and_stops:
  assumes "reads_and env e" "tokens_ok ts" "p_token (parser_at ts) \<noteq> T_EO EO_AND"
  shows "\<exists>n. parse_and env n (parser_at (print_expr 1 e @ ts)) = Some (Inr (e, parser_at ts))"
  using assms and_loop_stops [OF assms(3), of env e] unfolding reads_and_def by blast

lemma reads_or_stops:
  assumes "reads_or env e" "tokens_ok ts" "p_token (parser_at ts) \<noteq> T_EO EO_AND" "p_token (parser_at ts) \<noteq> T_EO EO_OR"
  shows "\<exists>n. parse_or env n (parser_at (print_expr 0 e @ ts)) = Some (Inr (e, parser_at ts))"
  using assms or_loop_stops [OF assms(4), of env e] unfolding reads_or_def by blast

lemma reads_and_primary:
  assumes "reads_primary env e" "print_expr 1 e = print_expr 2 e"
  shows "reads_and env e"
  unfolding reads_and_def
proof (intro allI impI)
  fix ts m r assume ts: "tokens_ok ts" and r: "parse_and_loop env m e (parser_at ts) = Some r"
  obtain n where n: "parse_primary env n (parser_at (print_expr 2 e @ ts)) = Some (Inr (e, parser_at ts))"
    using assms(1) ts unfolding reads_primary_def by blast
  let ?k = "max n m"
  have "parse_and env (Suc ?k) (parser_at (print_expr 1 e @ ts)) = Some r"
    using parse_mono(1) [OF _ n, of ?k] parse_mono(3) [OF _ r, of ?k] assms(2) by simp
  then show "\<exists>n. parse_and env n (parser_at (print_expr 1 e @ ts)) = Some r" ..
qed

lemma reads_or_and:
  assumes "reads_and env e" "print_expr 0 e = print_expr 1 e"
  shows "reads_or env e"
  unfolding reads_or_def
proof (intro allI impI)
  fix ts m r assume ts: "tokens_ok ts" "p_token (parser_at ts) \<noteq> T_EO EO_AND"
    and r: "parse_or_loop env m e (parser_at ts) = Some r"
  obtain n where n: "parse_and env n (parser_at (print_expr 1 e @ ts)) = Some (Inr (e, parser_at ts))"
    using reads_and_stops [OF assms(1) ts] by blast
  let ?k = "max n m"
  have "parse_or env (Suc ?k) (parser_at (print_expr 0 e @ ts)) = Some r"
    using parse_mono(2) [OF _ n, of ?k] parse_mono(5) [OF _ r, of ?k] assms(2) by simp
  then show "\<exists>n. parse_or env n (parser_at (print_expr 0 e @ ts)) = Some r" ..
qed

lemma op_text_at [simp]:
  "p_token (parser_at (op_text e # ts)) = T_EO e"
  "tokens_ok ts \<Longrightarrow> lex (parser_at (op_text e # ts)) = Inr (parser_at ts)"
  by (simp_all add: op_text_def lex_word)

lemma reads_and_binary:
  assumes "reads_and env a" "reads_primary env b" "tokens_ok (print_expr 2 b)"
  shows "reads_and env (Expr_binary EO_AND a b)"
  unfolding reads_and_def
proof (intro allI impI)
  fix ts m r assume ts: "tokens_ok ts"
    and r: "parse_and_loop env m (Expr_binary EO_AND a b) (parser_at ts) = Some r"
  obtain n where n: "parse_primary env n (parser_at (print_expr 2 b @ ts)) = Some (Inr (b, parser_at ts))"
    using assms(2) ts unfolding reads_primary_def by blast
  let ?ts = "op_text EO_AND # print_expr 2 b @ ts" and ?k = "max n m"
  have ok: "tokens_ok (print_expr 2 b @ ts)" "tokens_ok ?ts"
    using assms(3) ts by (simp_all add: op_text_ok)
  have "parse_and_loop env (Suc ?k) a (parser_at ?ts) = Some r"
    using parse_mono(1) [OF _ n, of ?k] parse_mono(3) [OF _ r, of ?k] ok(1) by simp
  from assms(1) [unfolded reads_and_def, rule_format, OF ok(2) this]
  show "\<exists>n. parse_and env n (parser_at (print_expr 1 (Expr_binary EO_AND a b) @ ts)) = Some r"
    by (simp add: Let_def)
qed

lemma reads_or_binary:
  assumes "reads_or env a" "reads_and env b" "tokens_ok (print_expr 1 b)"
  shows "reads_or env (Expr_binary EO_OR a b)"
  unfolding reads_or_def
proof (intro allI impI)
  fix ts m r assume ts: "tokens_ok ts" "p_token (parser_at ts) \<noteq> T_EO EO_AND"
    and r: "parse_or_loop env m (Expr_binary EO_OR a b) (parser_at ts) = Some r"
  obtain n where n: "parse_and env n (parser_at (print_expr 1 b @ ts)) = Some (Inr (b, parser_at ts))"
    using reads_and_stops [OF assms(2) ts] by blast
  let ?ts = "op_text EO_OR # print_expr 1 b @ ts" and ?k = "max n m"
  have ok: "tokens_ok (print_expr 1 b @ ts)" "tokens_ok ?ts"
    using assms(3) ts by (simp_all add: op_text_ok)
  have "parse_or_loop env (Suc ?k) a (parser_at ?ts) = Some r"
    using parse_mono(2) [OF _ n, of ?k] parse_mono(5) [OF _ r, of ?k] ok(1) by simp
  moreover have "p_token (parser_at ?ts) \<noteq> T_EO EO_AND" by simp
  ultimately show "\<exists>n. parse_or env n (parser_at (print_expr 0 (Expr_binary EO_OR a b) @ ts)) = Some r"
    using assms(1) [unfolded reads_or_def, rule_format, OF ok(2)] by (simp add: Let_def del: parse_or_loop.simps)
qed

lemma reads_primary_paren:
  assumes "reads_or env e" "print_expr 2 e = left_paren # print_expr 0 e @ [right_paren]"
    "tokens_ok (print_expr 0 e)"
  shows "reads_primary env e"
  unfolding reads_primary_def
proof (intro allI impI)
  fix ts assume ts: "tokens_ok ts"
  have ok: "tokens_ok (right_paren # ts)" using ts by (simp add: paren_texts_ok)
  obtain n where n: "parse_or env n (parser_at (print_expr 0 e @ right_paren # ts)) =
      Some (Inr (e, parser_at (right_paren # ts)))"
    using reads_or_stops [OF assms(1) ok] by auto
  have "lex (parser_at (left_paren # print_expr 0 e @ right_paren # ts)) =
      Inr (parser_at (print_expr 0 e @ right_paren # ts))"
    using ok assms(3) by (simp add: lex_word)
  then have "parse_primary env (Suc n) (parser_at (print_expr 2 e @ ts)) = Some (Inr (e, parser_at ts))"
    using n ts assms(2) by (simp add: lex_word)
  then show "\<exists>n. parse_primary env n (parser_at (print_expr 2 e @ ts)) = Some (Inr (e, parser_at ts))" ..
qed

lemma reads_primary_not:
  assumes "reads_primary env e" "tokens_ok (print_expr 2 e)"
  shows "reads_primary env (Expr_not e)"
  unfolding reads_primary_def
proof (intro allI impI)
  fix ts assume ts: "tokens_ok ts"
  obtain n where n: "parse_primary env n (parser_at (print_expr 2 e @ ts)) = Some (Inr (e, parser_at ts))"
    using assms(1) ts unfolding reads_primary_def by blast
  have "parse_primary env (Suc n) (parser_at (print_expr 2 (Expr_not e) @ ts)) = Some (Inr (Expr_not e, parser_at ts))"
    using n ts assms(2) by simp
  then show "\<exists>n. parse_primary env n (parser_at (print_expr 2 (Expr_not e) @ ts)) = Some (Inr (Expr_not e, parser_at ts))" ..
qed

lemma reads_primary_comparison:
  assumes "\<And>ts. tokens_ok ts \<Longrightarrow> parse_comparison env (parser_at (print_expr 2 e @ ts)) = Inr (e, parser_at ts)"
    "\<And>ts. p_token (parser_at (print_expr 2 e @ ts)) = T_STRING \<or> p_token (parser_at (print_expr 2 e @ ts)) = T_FIELD_ESCAPE"
  shows "reads_primary env e"
  unfolding reads_primary_def
proof (intro allI impI)
  fix ts assume "tokens_ok ts"
  then have "parse_primary env (Suc 0) (parser_at (print_expr 2 e @ ts)) = Some (Inr (e, parser_at ts))"
    using assms(1) [of ts] assms(2) [of ts] by (subst parse_primary_other) auto
  then show "\<exists>n. parse_primary env n (parser_at (print_expr 2 e @ ts)) = Some (Inr (e, parser_at ts))" ..
qed

lemma reads_expr:
  assumes "printable env e" "expr_wf e"
  shows "reads_primary env e \<and> reads_and env e \<and> reads_or env e"
  using assms
proof (induction e)
  case (Expr_not e)
  then have "reads_primary env (Expr_not e)"
    by (intro reads_primary_not) (auto intro: print_expr_ok)
  with reads_and_primary [OF this] reads_or_and show ?case by simp
next
  case (Expr_binary op1 a b)
  then have ab: "reads_primary env a" "reads_and env a" "reads_or env a" "reads_primary env b" "reads_and env b"
    and ok: "tokens_ok (print_expr 1 b)" "tokens_ok (print_expr 2 b)"
      "tokens_ok (print_expr 0 (Expr_binary op1 a b))"
    using print_expr_ok [of env] by (auto simp: op_text_ok)
  show ?case
  proof (cases "op1 = EO_OR")
    case True
    then have o: "reads_or env (Expr_binary op1 a b)" using reads_or_binary ab ok by blast
    then have "reads_primary env (Expr_binary op1 a b)"
      using ok(3) True by (intro reads_primary_paren) (simp_all add: Let_def)
    with o reads_and_primary [OF this] True show ?thesis by (simp add: Let_def)
  next
    case False
    then have op1: "op1 = EO_AND" using Expr_binary.prems(2) by simp
    then have a: "reads_and env (Expr_binary op1 a b)" using reads_and_binary ab ok by blast
    then have o: "reads_or env (Expr_binary op1 a b)" using reads_or_and op1 by (simp add: Let_def)
    then have "reads_primary env (Expr_binary op1 a b)"
      using ok(3) op1 by (intro reads_primary_paren) (simp_all add: Let_def)
    with a o show ?thesis by simp
  qed
next
  case (Expr_compare op1 num fld v)
  then have "reads_primary env (Expr_compare op1 num fld v)"
    using parse_comparison_at [of env op1 num fld v]
    by (intro reads_primary_comparison) (auto, cases fld, auto simp: string_text_def)
  with reads_and_primary [OF this] reads_or_and show ?case by simp
next
  case (Expr_field_exists s)
  then show ?case by simp
next
  case (Expr_regexp s)
  then have "reads_primary env (Expr_regexp s)"
    using parse_regexp_at [of env s] by (intro reads_primary_comparison) auto
  with reads_and_primary [OF this] reads_or_and show ?case by simp
qed

section \<open>Property\<close>

lemma parse_print_string:
  assumes "printable env e" "expr_wf e"
  shows "expr_parse env [] (print_string e) = Some (Inr e)"
proof -
  let ?ts = "print_expr 0 e"
  have ok: "tokens_ok ?ts" by (rule print_expr_ok [OF assms])
  obtain n where n: "parse_or env n (parser_at ?ts) = Some (Inr (e, parser_at []))"
    using reads_or_stops [of env e "[]"] reads_expr [OF assms] by auto
  let ?p = "\<lparr>p_token = T_EOF, p_token_start = print_string e, p_token_len = 0, p_token_value = None,
             p_src = print_string e, p_allocs = []\<rparr>"
  have l: "lex ?p = Inr (parser_at ?ts)"
    using ok by (intro lex_at) (simp_all add: print_string_def drop_blanks_unlex)
  have "unread (parser_at ?ts) \<le> length (print_string e)" using lex_shorter(4) [OF l] by simp
  then have "parse_or env (parse_fuel (print_string e)) (parser_at ?ts) \<noteq> None"
    by (intro parse_fuel_enough) (simp add: parse_fuel_def)
  then obtain r where r: "parse_or env (parse_fuel (print_string e)) (parser_at ?ts) = Some r" by blast
  let ?m = "max n (parse_fuel (print_string e))"
  have "r = Inr (e, parser_at [])"
    using parse_mono(4) [OF _ n, of ?m] parse_mono(4) [OF _ r, of ?m] by simp
  moreover have "p_token (parser_at ?ts) \<noteq> T_EOF"
  proof
    assume eof: "p_token (parser_at ?ts) = T_EOF"
    have "unread (parser_at []) < unread (parser_at ?ts)"
      using parse_consumes(4) [OF n] .
    moreover have "unread (parser_at ?ts) = 0" by (rule lex_eof [OF l eof])
    ultimately show False by simp
  qed
  ultimately show ?thesis using l r by (simp add: expr_parse_def)
qed

text \<open>C1: Parsing is the inverse of printing: the parser reads a printed expression back as the same
  expression. So it implements the grammar: && binds tighter than ||, both associate to the left,
  ! and parentheses group as written, quoted strings keep every character, and numbers and
  timestamps keep their value.\<close>

theorem expr_parse_print:
  assumes "printable env e" "expr_wf e"
  shows "expr_parse env [] (print_string e) = Some (Inr e)"
  by (rule parse_print_string [OF assms])

definition sample_env :: expr_env where
  "sample_env = \<lparr>env_tables = sample_tables,
     env_lookup_type = (\<lambda>s. if s = ''uid'' then AUPARSE_TYPE_UID else 0), env_regcomp_error = (\<lambda>_. None)\<rparr>"

definition sample_expr :: expr where
  "sample_expr = Expr_binary EO_AND
     (Expr_binary EO_OR (Expr_compare EO_RAW_EQ False (Field_name ''comm'') (Value_string ''ls''))
        (Expr_not (Expr_compare EO_VALUE_EQ True (Field_name ''uid'') (Value_unsigned 0))))
     (Expr_compare EO_VALUE_GE True (Field_id EF_TIMESTAMP_EX) (Value_timestamp 10 5 (Some 7)))"

lemma sample_expr_printable: "printable sample_env sample_expr"
  by (simp add: sample_env_def sample_expr_def text_ok_def is_cstr_def quote_string_def escape_char_def
      INT_MAX_def AUPARSE_TYPE_UID_def AUPARSE_TYPE_GID_def)

lemma sample_expr_wf: "expr_wf sample_expr"
  by (simp add: sample_expr_def is_string_op_def is_value_op_def)

theorem expr_parse_print_witness:
  "printable sample_env sample_expr \<and> expr_wf sample_expr \<and>
   expr_parse sample_env [] (print_string sample_expr) = Some (Inr sample_expr)"
  using expr_parse_print [OF sample_expr_printable sample_expr_wf] sample_expr_printable sample_expr_wf by blast

end
