(* ===== verification/Expr_Eval.thy ===== *)
theory Expr_Eval
  imports Expr_Parser Nvlist "HOL-Library.Product_Lexorder"
begin

text \<open>
  The evaluator of search expressions, \<open>expr_eval\<close> and its helpers in \<open>auparse/expression.c\<close>, on
  the records of \<open>Nvlist\<close>.

  Evaluation moves the cursor of the record's fields and fills the cache of interpreted values, so
  it takes and returns the record. A failed assertion, \<open>abort\<close> and the use of a value that was never
  written are \<open>None\<close>. The regular expression matcher and the interpretation of fields are
  arguments, gathered in \<open>eval_env\<close>.

  The specification \<open>satisfies\<close> says when a record satisfies an expression, without cursor and
  cache; \<open>expr_eval\<close> refines it.
\<close>

section \<open>Environment\<close>

record eval_env =
  env_regexec :: "string \<Rightarrow> string \<Rightarrow> bool"
  env_interpret :: "int \<Rightarrow> string option \<Rightarrow> string option \<Rightarrow> string option"

section \<open>Reading fields\<close>

definition find_field :: "rnode \<Rightarrow> string \<Rightarrow> (bool \<times> rnode) ub" where
  "find_field r name =
     map_option (\<lambda>(found, l). (found, r\<lparr>r_nv := l\<rparr>)) (nvlist_find_name (nvlist_first (r_nv r)) name)"

definition eval_raw_value :: "rnode \<Rightarrow> field \<Rightarrow> (string option \<times> rnode) ub" where
  "eval_raw_value r fld =
     (case fld of
        Field_name name \<Rightarrow>
          (case find_field r name of
             None \<Rightarrow> None
           | Some (False, r') \<Rightarrow> Some (None, r')
           | Some (True, r') \<Rightarrow> Some (nvlist_get_cur_val (r_nv r'), r'))
      | Field_id _ \<Rightarrow> Some (None, r))"

definition eval_unsigned_value :: "rnode \<Rightarrow> field \<Rightarrow> (u32 option \<times> rnode) ub" where
  "eval_unsigned_value r fld =
     (case fld of
        Field_name name \<Rightarrow>
          (case find_field r name of
             None \<Rightarrow> None
           | Some (False, r') \<Rightarrow> Some (None, r')
           | Some (True, r') \<Rightarrow>
               (case nvlist_get_cur_val (r_nv r') of
                  None \<Rightarrow> Some (None, r')
                | Some val \<Rightarrow> Some (Some (of_nat (fst (strtoul val))), r')))
      | Field_id _ \<Rightarrow> None)"

definition interpret_node :: "eval_env \<Rightarrow> rnode \<Rightarrow> nvnode \<Rightarrow> string option" where
  "interpret_node env r n = env_interpret env (r_type r) (nv_name n) (nv_val n)"

definition eval_interpreted_value :: "eval_env \<Rightarrow> rnode \<Rightarrow> field \<Rightarrow> (string option \<times> rnode) ub" where
  "eval_interpreted_value env r fld =
     (case fld of
        Field_name name \<Rightarrow>
          (case find_field r name of
             None \<Rightarrow> None
           | Some (False, r') \<Rightarrow> Some (None, r')
           | Some (True, r') \<Rightarrow>
               (case nvlist_interp_cur_val (interpret_node env) r' of
                  None \<Rightarrow> None
                | Some (Some v, r'') \<Rightarrow> Some (Some v, r'')
                | Some (None, r'') \<Rightarrow> Some (nvlist_get_cur_val (r_nv r''), r'')))
      | Field_id _ \<Rightarrow> Some (None, r))"

section \<open>Comparisons\<close>

definition compare_unsigned_values :: "u32 \<Rightarrow> u32 \<Rightarrow> int" where
  "compare_unsigned_values one two = (if one < two then - 1 else if one > two then 1 else 0)"

text \<open>\<open>compare_values\<close>: \<open>Inl\<close> for \<open>*error = 1\<close>. The value's member is chosen by the field; the
  serial number is read only when seconds and milliseconds are equal.\<close>

definition compare_values ::
    "au_event \<Rightarrow> rnode \<Rightarrow> bool \<Rightarrow> field_id \<Rightarrow> expr_value \<Rightarrow> (unit + int) ub" where
  "compare_values ev r numeric_field fid v =
     (if \<not> numeric_field then Some (Inl ())
      else (case (fid, v) of
          (EF_TIMESTAMP, Value_timestamp sec milli serial) \<Rightarrow>
            Some (Inr (if e_sec ev < sec then - 1 else if e_sec ev > sec then 1
                       else if e_milli ev < milli then - 1 else if e_milli ev > milli then 1 else 0))
        | (EF_RECORD_TYPE, Value_int i) \<Rightarrow>
            Some (Inr (if r_type r < i then - 1 else if r_type r > i then 1 else 0))
        | (EF_TIMESTAMP_EX, Value_timestamp sec milli serial) \<Rightarrow>
            if e_sec ev < sec then Some (Inr (- 1)) else if e_sec ev > sec then Some (Inr 1)
            else if e_milli ev < milli then Some (Inr (- 1)) else if e_milli ev > milli then Some (Inr 1)
            else (case serial of
                None \<Rightarrow> None
              | Some n \<Rightarrow> Some (Inr (if e_serial ev < n then - 1 else if e_serial ev > n then 1 else 0)))
        | _ \<Rightarrow> None))"

definition apply_value_op :: "eo \<Rightarrow> int \<Rightarrow> bool ub" where
  "apply_value_op op1 cmp =
     (case op1 of
        EO_VALUE_EQ \<Rightarrow> Some (cmp = 0)
      | EO_VALUE_NE \<Rightarrow> Some (cmp \<noteq> 0)
      | EO_VALUE_LT \<Rightarrow> Some (cmp < 0)
      | EO_VALUE_LE \<Rightarrow> Some (cmp \<le> 0)
      | EO_VALUE_GT \<Rightarrow> Some (cmp > 0)
      | EO_VALUE_GE \<Rightarrow> Some (cmp \<ge> 0)
      | _ \<Rightarrow> None)"

text \<open>The string comparisons, given the field's value.\<close>

definition eval_string_op :: "bool \<Rightarrow> string option \<times> rnode \<Rightarrow> expr_value \<Rightarrow> (bool \<times> rnode) ub" where
  "eval_string_op want_eq vr v =
     (case vr of
        (None, r') \<Rightarrow> Some (False, r')
      | (Some s, r') \<Rightarrow>
          (case v of
             Value_string t \<Rightarrow> Some (if want_eq then t = s else t \<noteq> s, r')
           | _ \<Rightarrow> None))"

definition eval_value_op ::
    "au_event \<Rightarrow> rnode \<Rightarrow> eo \<Rightarrow> bool \<Rightarrow> field \<Rightarrow> expr_value \<Rightarrow> (bool \<times> rnode) ub" where
  "eval_value_op ev r op1 num fld v =
     (case fld of
        Field_name name \<Rightarrow>
          (case eval_unsigned_value r fld of
             None \<Rightarrow> None
           | Some (None, r') \<Rightarrow> Some (False, r')
           | Some (Some val, r') \<Rightarrow>
               (case v of
                  Value_unsigned u \<Rightarrow>
                    map_option (\<lambda>b. (b, r')) (apply_value_op op1 (compare_unsigned_values val u))
                | _ \<Rightarrow> None))
      | Field_id fid \<Rightarrow>
          (case compare_values ev r num fid v of
             None \<Rightarrow> None
           | Some (Inl _) \<Rightarrow> Some (False, r)
           | Some (Inr cmp) \<Rightarrow> map_option (\<lambda>b. (b, r)) (apply_value_op op1 cmp)))"

definition eval_compare ::
    "eval_env \<Rightarrow> au_event \<Rightarrow> rnode \<Rightarrow> eo \<Rightarrow> bool \<Rightarrow> field \<Rightarrow> expr_value \<Rightarrow> (bool \<times> rnode) ub" where
  "eval_compare env ev r op1 num fld v =
     (case op1 of
        EO_RAW_EQ \<Rightarrow>
          (case eval_raw_value r fld of None \<Rightarrow> None | Some vr \<Rightarrow> eval_string_op True vr v)
      | EO_RAW_NE \<Rightarrow>
          (case eval_raw_value r fld of None \<Rightarrow> None | Some vr \<Rightarrow> eval_string_op False vr v)
      | EO_INTERPRETED_EQ \<Rightarrow>
          (case eval_interpreted_value env r fld of None \<Rightarrow> None | Some vr \<Rightarrow> eval_string_op True vr v)
      | EO_INTERPRETED_NE \<Rightarrow>
          (case eval_interpreted_value env r fld of None \<Rightarrow> None | Some vr \<Rightarrow> eval_string_op False vr v)
      | _ \<Rightarrow> if is_value_op (T_EO op1) then eval_value_op ev r op1 num fld v else None)"

section \<open>Evaluation\<close>

fun expr_eval :: "eval_env \<Rightarrow> au_event \<Rightarrow> rnode \<Rightarrow> expr \<Rightarrow> (bool \<times> rnode) ub" where
  "expr_eval env ev r (Expr_not e) =
     (case expr_eval env ev r e of None \<Rightarrow> None | Some (b, r') \<Rightarrow> Some (\<not> b, r'))"
| "expr_eval env ev r (Expr_binary op1 e1 e2) =
     (if op1 = EO_AND then
        (case expr_eval env ev r e1 of
           None \<Rightarrow> None
         | Some (b, r') \<Rightarrow> if b then expr_eval env ev r' e2 else Some (False, r'))
      else if op1 = EO_OR then
        (case expr_eval env ev r e1 of
           None \<Rightarrow> None
         | Some (b, r') \<Rightarrow> if b then Some (True, r') else expr_eval env ev r' e2)
      else None)"
| "expr_eval env ev r (Expr_compare op1 num fld v) = eval_compare env ev r op1 num fld v"
| "expr_eval env ev r (Expr_field_exists name) = find_field r name"
| "expr_eval env ev r (Expr_regexp pattern) = Some (env_regexec env pattern (r_record r), r)"

section \<open>Specification\<close>

text \<open>What an expression can observe of a record: its text, its type, and for each field the name,
  the value and the interpreted value (computed, or the value itself when there is none).\<close>

record record_view =
  v_text :: string
  v_type :: int
  v_fields :: "(string option \<times> string option \<times> string option) list"

definition shown_value :: "eval_env \<Rightarrow> int \<Rightarrow> nvnode \<Rightarrow> string option" where
  "shown_value env type n =
     (case nv_interp_val n of
        Some v \<Rightarrow> Some v
      | None \<Rightarrow> (case env_interpret env type (nv_name n) (nv_val n) of Some v \<Rightarrow> Some v | None \<Rightarrow> nv_val n))"

definition field_view :: "eval_env \<Rightarrow> int \<Rightarrow> nvnode \<Rightarrow> string option \<times> string option \<times> string option" where
  "field_view env type n = (nv_name n, nv_val n, shown_value env type n)"

definition view :: "eval_env \<Rightarrow> rnode \<Rightarrow> record_view" where
  "view env r =
     \<lparr>v_text = r_record r, v_type = r_type r,
      v_fields = map (field_view env (r_type r)) (nodes (r_nv r))\<rparr>"

definition view_field :: "record_view \<Rightarrow> string \<Rightarrow> (string option \<times> string option) option" where
  "view_field rv name = map_of (v_fields rv) (Some name)"

text \<open>Every field of the record has a name.\<close>

definition named :: "record_view \<Rightarrow> bool" where
  "named rv \<longleftrightarrow> (\<forall>f \<in> set (v_fields rv). fst f \<noteq> None)"

fun value_rel :: "eo \<Rightarrow> 'a :: linorder \<Rightarrow> 'a \<Rightarrow> bool" where
  "value_rel EO_VALUE_EQ x y \<longleftrightarrow> x = y"
| "value_rel EO_VALUE_NE x y \<longleftrightarrow> x \<noteq> y"
| "value_rel EO_VALUE_LT x y \<longleftrightarrow> x < y"
| "value_rel EO_VALUE_LE x y \<longleftrightarrow> x \<le> y"
| "value_rel EO_VALUE_GT x y \<longleftrightarrow> x > y"
| "value_rel EO_VALUE_GE x y \<longleftrightarrow> x \<ge> y"
| "value_rel _ x y \<longleftrightarrow> False"

fun string_rel :: "eo \<Rightarrow> string \<Rightarrow> (string option \<times> string option) option \<Rightarrow> bool" where
  "string_rel EO_RAW_EQ s (Some (Some raw, _)) \<longleftrightarrow> raw = s"
| "string_rel EO_RAW_NE s (Some (Some raw, _)) \<longleftrightarrow> raw \<noteq> s"
| "string_rel EO_INTERPRETED_EQ s (Some (_, Some shown)) \<longleftrightarrow> shown = s"
| "string_rel EO_INTERPRETED_NE s (Some (_, Some shown)) \<longleftrightarrow> shown \<noteq> s"
| "string_rel _ _ _ \<longleftrightarrow> False"

text \<open>Comparing a named field: the raw or interpreted string, or the number. Comparing a virtual
  field: timestamps in lexicographic order.\<close>

fun satisfies_compare :: "au_event \<Rightarrow> record_view \<Rightarrow> eo \<Rightarrow> field \<Rightarrow> expr_value \<Rightarrow> bool" where
  "satisfies_compare ev rv op1 (Field_name name) (Value_string s) \<longleftrightarrow> string_rel op1 s (view_field rv name)"
| "satisfies_compare ev rv op1 (Field_name name) (Value_unsigned u) \<longleftrightarrow>
     (case view_field rv name of
        Some (Some raw, _) \<Rightarrow> value_rel op1 (of_nat (fst (strtoul raw))) u
      | _ \<Rightarrow> False)"
| "satisfies_compare ev rv op1 (Field_id EF_TIMESTAMP) (Value_timestamp sec milli serial) \<longleftrightarrow>
     value_rel op1 (e_sec ev, e_milli ev) (sec, milli)"
| "satisfies_compare ev rv op1 (Field_id EF_TIMESTAMP_EX) (Value_timestamp sec milli (Some serial)) \<longleftrightarrow>
     value_rel op1 (e_sec ev, e_milli ev, e_serial ev) (sec, milli, serial)"
| "satisfies_compare ev rv op1 (Field_id EF_RECORD_TYPE) (Value_int i) \<longleftrightarrow> value_rel op1 (v_type rv) i"
| "satisfies_compare ev rv _ _ _ \<longleftrightarrow> False"

fun satisfies :: "(string \<Rightarrow> string \<Rightarrow> bool) \<Rightarrow> au_event \<Rightarrow> record_view \<Rightarrow> expr \<Rightarrow> bool" where
  "satisfies matches ev rv (Expr_not e) \<longleftrightarrow> \<not> satisfies matches ev rv e"
| "satisfies matches ev rv (Expr_binary op1 a b) \<longleftrightarrow>
     (if op1 = EO_AND then satisfies matches ev rv a \<and> satisfies matches ev rv b
      else satisfies matches ev rv a \<or> satisfies matches ev rv b)"
| "satisfies matches ev rv (Expr_compare op1 num fld v) \<longleftrightarrow> satisfies_compare ev rv op1 fld v"
| "satisfies matches ev rv (Expr_field_exists name) \<longleftrightarrow> view_field rv name \<noteq> None"
| "satisfies matches ev rv (Expr_regexp pattern) \<longleftrightarrow> matches pattern (v_text rv)"

text \<open>The expressions whose evaluation never needs a serial number that was not written.\<close>

fun complete :: "expr \<Rightarrow> bool" where
  "complete (Expr_not e) \<longleftrightarrow> complete e"
| "complete (Expr_binary op1 a b) \<longleftrightarrow> complete a \<and> complete b"
| "complete (Expr_compare op1 num fld v) \<longleftrightarrow>
     \<not> (\<exists>sec milli. fld = Field_id EF_TIMESTAMP_EX \<and> v = Value_timestamp sec milli None)"
| "complete (Expr_field_exists name) \<longleftrightarrow> True"
| "complete (Expr_regexp pattern) \<longleftrightarrow> True"

section \<open>Lemmas\<close>

lemma search_from_0_Some:
  assumes "search_from P ns 0 = Some k"
  shows "k < length ns" "P (ns ! k)" "\<forall>m < k. \<not> P (ns ! m)"
  using search_from_Some [OF assms] by auto

lemma map_of_search:
  "map_of (map (field_view env type) ns) name =
     map_option (\<lambda>k. (nv_val (ns ! k), shown_value env type (ns ! k)))
       (search_from (\<lambda>n. nv_name n = name) ns 0)"
proof -
  have "map_of (map (field_view env type) ns) name =
     map_option (\<lambda>k. (nv_val (ns ! (k - i)), shown_value env type (ns ! (k - i))))
       (search_from (\<lambda>n. nv_name n = name) ns i)" for i
  proof (induction ns arbitrary: i)
    case (Cons n ns)
    show ?case
    proof (cases "search_from (\<lambda>n. nv_name n = name) ns (Suc i)")
      case None
      with Cons [of "Suc i"] show ?thesis by (simp add: field_view_def)
    next
      case (Some k)
      then have "Suc i \<le> k" using search_from_Some [OF Some] by auto
      then have "(n # ns) ! (k - i) = ns ! (k - Suc i)" by (simp add: nth_Cons' Suc_diff_le [symmetric])
      with Some Cons [of "Suc i"] show ?thesis by (simp add: field_view_def)
    qed
  qed simp
  from this [of 0] show ?thesis by simp
qed

text \<open>Looking a field up: the cursor moves, the view stays.\<close>

lemma named_nodes: "named (view env r) \<longleftrightarrow> (\<forall>n \<in> set (nodes (r_nv r)). nv_name n \<noteq> None)"
  by (auto simp: named_def view_def field_view_def)

lemma find_field_view:
  assumes "named (view env r)"
  shows "case find_field r name of
     None \<Rightarrow> False
   | Some (False, r') \<Rightarrow> view_field (view env r) name = None \<and> view env r' = view env r
   | Some (True, r') \<Rightarrow> \<exists>k < length (nodes (r_nv r)). r' = r\<lparr>r_nv := r_nv r\<lparr>cur := Some k\<rparr>\<rparr> \<and>
       view_field (view env r) name =
         Some (nv_val (nodes (r_nv r) ! k), shown_value env (r_type r) (nodes (r_nv r) ! k))"
proof (cases "search_from (\<lambda>n. nv_name n = Some name) (nodes (r_nv r)) 0")
  case None
  with assms find_from_named [of "nodes (r_nv r)" name 0] show ?thesis
    using map_of_search [of env "r_type r" "nodes (r_nv r)" "Some name"]
    by (auto simp: find_field_def nvlist_find_name_def nvlist_first_def named_nodes)
      (auto simp: view_def view_field_def)
next
  case (Some k)
  then have "nodes (r_nv r) \<noteq> []" by auto
  with Some assms find_from_named [of "nodes (r_nv r)" name 0] show ?thesis
    using map_of_search [of env "r_type r" "nodes (r_nv r)" "Some name"] search_from_0_Some [OF Some]
    by (auto simp: find_field_def nvlist_find_name_def nvlist_first_def named_nodes)
      (auto simp: view_def view_field_def)
qed

lemma view_cur [simp]: "view env (r\<lparr>r_nv := r_nv r\<lparr>cur := c\<rparr>\<rparr>) = view env r"
  by (simp add: view_def)

lemma find_field_cases:
  assumes "named (view env r)"
  obtains (absent) r' where "find_field r name = Some (False, r')" "view_field (view env r) name = None" "view env r' = view env r"
  | (present) k where "find_field r name = Some (True, r\<lparr>r_nv := r_nv r\<lparr>cur := Some k\<rparr>\<rparr>)" "k < length (nodes (r_nv r))"
      "view_field (view env r) name = Some (nv_val (nodes (r_nv r) ! k), shown_value env (r_type r) (nodes (r_nv r) ! k))"
  using find_field_view [OF assms, of name] by (auto split: option.splits prod.splits bool.splits)

lemma eval_raw_value_view:
  assumes "named (view env r)"
  shows "\<exists>r'. eval_raw_value r (Field_name name) = Some (Option.bind (view_field (view env r) name) fst, r') \<and>
    view env r' = view env r"
  using assms
  by (cases rule: find_field_cases [where name = name])
    (simp_all add: eval_raw_value_def nvlist_get_cur_val_def nvlist_get_cur_def)

lemma eval_unsigned_value_view:
  assumes "named (view env r)"
  shows "\<exists>r'. eval_unsigned_value r (Field_name name) =
     Some (map_option (\<lambda>s. of_nat (fst (strtoul s))) (Option.bind (view_field (view env r) name) fst), r') \<and>
     view env r' = view env r"
  using assms
proof (cases rule: find_field_cases [where name = name])
  case (present k)
  then show ?thesis
    by (cases "nv_val (nodes (r_nv r) ! k)")
      (simp_all add: eval_unsigned_value_def nvlist_get_cur_val_def nvlist_get_cur_def)
qed (simp add: eval_unsigned_value_def)

lemma shown_value_cached:
  "nv_interp_val n = None \<Longrightarrow>
     shown_value env type (n\<lparr>nv_interp_val := env_interpret env type (nv_name n) (nv_val n)\<rparr>) = shown_value env type n"
  by (auto simp: shown_value_def split: option.splits)

lemma view_cached:
  assumes "k < length (nodes l)" "nv_interp_val (nodes l ! k) = None"
  shows "view env (r\<lparr>r_nv := l\<lparr>nodes := (nodes l)[k := (nodes l ! k)\<lparr>nv_interp_val :=
      env_interpret env (r_type r) (nv_name (nodes l ! k)) (nv_val (nodes l ! k))\<rparr>]\<rparr>\<rparr>) = view env (r\<lparr>r_nv := l\<rparr>)"
  using assms shown_value_cached [OF assms(2), of env "r_type r"]
  by (auto simp: view_def field_view_def map_update list_update_same_conv)

lemma eval_interpreted_value_view:
  assumes "named (view env r)"
  shows "\<exists>r'. eval_interpreted_value env r (Field_name name) =
     Some (Option.bind (view_field (view env r) name) snd, r') \<and> view env r' = view env r"
  using assms
proof (cases rule: find_field_cases [where name = name])
  case (present k)
  show ?thesis
  proof (cases "nv_interp_val (nodes (r_nv r) ! k)")
    case (Some v)
    with present show ?thesis
      by (simp add: eval_interpreted_value_def nvlist_interp_cur_val_def shown_value_def)
  next
    case None
    then have "view env (r\<lparr>r_nv := r_nv r\<lparr>cur := Some k, nodes := (nodes (r_nv r))[k := (nodes (r_nv r) ! k)
        \<lparr>nv_interp_val := env_interpret env (r_type r) (nv_name (nodes (r_nv r) ! k)) (nv_val (nodes (r_nv r) ! k))\<rparr>]\<rparr>\<rparr>)
        = view env r"
      using view_cached [of k "r_nv r\<lparr>cur := Some k\<rparr>" env r] present(2) by simp
    with present None show ?thesis
      by (cases "env_interpret env (r_type r) (nv_name (nodes (r_nv r) ! k)) (nv_val (nodes (r_nv r) ! k))")
        (simp_all add: eval_interpreted_value_def nvlist_interp_cur_val_def interpret_node_def shown_value_def
          nvlist_get_cur_val_def nvlist_get_cur_def Let_def)
  qed
qed (simp add: eval_interpreted_value_def)

definition three_way :: "'a :: linorder \<Rightarrow> 'a \<Rightarrow> int" where
  "three_way x y = (if x < y then - 1 else if y < x then 1 else 0)"

lemma apply_value_op_rel:
  "is_value_op (T_EO op1) \<Longrightarrow> apply_value_op op1 (three_way x y) = Some (value_rel op1 x y)"
  by (auto simp: is_value_op_def apply_value_op_def three_way_def)

lemma compare_values_three_way:
  "compare_values ev r True EF_TIMESTAMP_EX (Value_timestamp sec milli (Some n)) =
     Some (Inr (three_way (e_sec ev, e_milli ev, e_serial ev) (sec, milli, n)))"
  "compare_values ev r True EF_TIMESTAMP (Value_timestamp sec milli serial) =
     Some (Inr (three_way (e_sec ev, e_milli ev) (sec, milli)))"
  "compare_values ev r True EF_RECORD_TYPE (Value_int i) = Some (Inr (three_way (r_type r) i))"
  "compare_unsigned_values a b = three_way a b"
  by (auto simp: compare_values_def three_way_def compare_unsigned_values_def)

lemma eval_compare_value_op:
  "is_value_op (T_EO op1) \<Longrightarrow> eval_compare env ev r op1 num fld v = eval_value_op ev r op1 num fld v"
  by (auto simp: is_value_op_def eval_compare_def)

lemma eval_string_compare:
  assumes "is_string_op (T_EO op1)" "named (view env r)"
  shows "\<exists>r'. eval_compare env ev r op1 num fld (Value_string s) =
           Some (satisfies_compare ev (view env r) op1 fld (Value_string s), r') \<and> view env r' = view env r"
proof (cases fld)
  case (Field_id fid)
  with assms(1) show ?thesis
    by (auto simp: is_string_op_def eval_compare_def eval_raw_value_def eval_interpreted_value_def eval_string_op_def)
next
  case (Field_name name)
  obtain r1 where raw: "eval_raw_value r (Field_name name) =
      Some (Option.bind (view_field (view env r) name) fst, r1)" "view env r1 = view env r"
    using eval_raw_value_view [OF assms(2)] by blast
  obtain r2 where interp: "eval_interpreted_value env r (Field_name name) =
      Some (Option.bind (view_field (view env r) name) snd, r2)" "view env r2 = view env r"
    using eval_interpreted_value_view [OF assms(2)] by blast
  consider "op1 = EO_RAW_EQ" | "op1 = EO_RAW_NE" | "op1 = EO_INTERPRETED_EQ" | "op1 = EO_INTERPRETED_NE"
    using assms(1) by (auto simp: is_string_op_def)
  then show ?thesis
  proof cases
    case 1
    with raw Field_name show ?thesis
      by (cases "view_field (view env r) name" rule: option.exhaust)
        (auto simp: eval_compare_def eval_string_op_def split: option.splits)
  next
    case 2
    with raw Field_name show ?thesis
      by (cases "view_field (view env r) name" rule: option.exhaust)
        (auto simp: eval_compare_def eval_string_op_def split: option.splits)
  next
    case 3
    with interp Field_name show ?thesis
      by (cases "view_field (view env r) name" rule: option.exhaust)
        (auto simp: eval_compare_def eval_string_op_def split: option.splits)
  next
    case 4
    with interp Field_name show ?thesis
      by (cases "view_field (view env r) name" rule: option.exhaust)
        (auto simp: eval_compare_def eval_string_op_def split: option.splits)
  qed
qed

lemma eval_compare_refines:
  assumes "compare_wf op1 num fld v" "complete (Expr_compare op1 num fld v)" "named (view env r)"
  shows "\<exists>r'. eval_compare env ev r op1 num fld v =
           Some (satisfies_compare ev (view env r) op1 fld v, r') \<and> view env r' = view env r"
proof (cases v)
  case (Value_string s)
  with assms eval_string_compare show ?thesis by simp
next
  case (Value_timestamp sec milli serial)
  with assms have op1: "is_value_op (T_EO op1)" "num"
    and fld: "fld = Field_id EF_TIMESTAMP \<or> fld = Field_id EF_TIMESTAMP_EX \<and> (\<exists>n. serial = Some n)"
    by auto
  show ?thesis
    using fld op1 Value_timestamp
    by (auto simp: eval_compare_value_op eval_value_op_def compare_values_three_way apply_value_op_rel)
next
  case (Value_int i)
  with assms show ?thesis
    by (auto simp: eval_compare_value_op eval_value_op_def compare_values_three_way apply_value_op_rel view_def)
next
  case (Value_unsigned u)
  with assms obtain name where name: "fld = Field_name name" and op1: "is_value_op (T_EO op1)" by auto
  obtain r' where r': "eval_unsigned_value r (Field_name name) =
      Some (map_option (\<lambda>s. of_nat (fst (strtoul s))) (Option.bind (view_field (view env r) name) fst), r')"
    "view env r' = view env r"
    using eval_unsigned_value_view [OF assms(3)] by blast
  show ?thesis
    using name op1 r' Value_unsigned
    by (cases "Option.bind (view_field (view env r) name) fst")
      (auto simp: eval_compare_value_op eval_value_op_def compare_values_three_way apply_value_op_rel
        Option.bind_eq_None_conv Option.bind_eq_Some_conv
        split: option.splits)
qed

lemma expr_eval_spec:
  assumes "expr_wf e" "complete e" "named (view env r)"
  shows "\<exists>r'. expr_eval env ev r e = Some (satisfies (env_regexec env) ev (view env r) e, r') \<and> view env r' = view env r"
  using assms
proof (induction e arbitrary: r)
  case (Expr_not e)
  then obtain r' where "expr_eval env ev r e = Some (satisfies (env_regexec env) ev (view env r) e, r')"
    "view env r' = view env r" by auto
  then show ?case by simp
next
  case (Expr_binary op1 a b)
  obtain r1 where a: "expr_eval env ev r a = Some (satisfies (env_regexec env) ev (view env r) a, r1)"
    "view env r1 = view env r"
    using Expr_binary.IH(1) [of r] Expr_binary.prems by auto
  obtain r2 where b: "expr_eval env ev r1 b = Some (satisfies (env_regexec env) ev (view env r1) b, r2)"
    "view env r2 = view env r1"
    using Expr_binary.IH(2) [of r1] Expr_binary.prems a(2) by auto
  from a b Expr_binary.prems(1) show ?case by auto
next
  case (Expr_compare op1 num fld v)
  then show ?case using eval_compare_refines by auto
next
  case (Expr_field_exists name)
  from Expr_field_exists(3) show ?case
    by (cases rule: find_field_cases [where name = name]) simp_all
next
  case (Expr_regexp pattern)
  then show ?case by (simp add: view_def)
qed

section \<open>Properties\<close>

text \<open>C5: On every well-formed expression, such as the parser and the creation functions return,
  evaluation terminates without failing an assertion, gives exactly the truth value of the
  specification (for timestamps the lexicographic order), and leaves everything an expression can
  observe of the record unchanged, although it moves the cursor and fills the cache. The only
  exceptions are extended timestamps without a serial number and records with a field that has no
  name.\<close>

theorem expr_eval_refines:
  assumes "expr_wf e" "complete e" "named (view env r)"
  shows "\<exists>r'. expr_eval env ev r e = Some (satisfies (env_regexec env) ev (view env r) e, r') \<and>
              view env r' = view env r"
  by (rule expr_eval_spec [OF assms])

definition plain_env :: eval_env where
  "plain_env = \<lparr>env_regexec = (\<lambda>p s. p = s), env_interpret = (\<lambda>t name v. if v = Some ''0'' then Some ''root'' else None)\<rparr>"

definition demo_record :: rnode where
  "demo_record = \<lparr>r_record = ''type=SYSCALL uid=0'', r_interp = None, r_cwd = None, r_type = 1300, r_machine = - 1,
     r_syscall = - 1, r_a0 = 0, r_a1 = 0, r_nv = demo_nvlist, r_item = 0, r_list_idx = 0, r_line_number = 1\<rparr>"

theorem expr_eval_refines_witness:
  "\<exists>r'. expr_eval plain_env \<lparr>e_sec = 5, e_milli = 0, e_serial = 1, e_host = None\<rparr> demo_record
          (Expr_compare EO_INTERPRETED_EQ True (Field_name ''uid'') (Value_string ''root'')) = Some (True, r') \<and>
        view plain_env r' = view plain_env demo_record"
proof -
  let ?e = "Expr_compare EO_INTERPRETED_EQ True (Field_name ''uid'') (Value_string ''root'')"
  have "expr_wf ?e" "complete ?e" by (simp_all add: is_string_op_def)
  moreover have "named (view plain_env demo_record)"
    by (simp add: named_nodes demo_record_def demo_nvlist_def)
  moreover have "satisfies (env_regexec plain_env) ev (view plain_env demo_record) ?e" for ev
    by (simp add: view_def view_field_def field_view_def shown_value_def demo_record_def demo_nvlist_def plain_env_def)
  ultimately show ?thesis using expr_eval_refines by (metis (full_types))
qed

text \<open>A comparison of a field the record does not have is false, whatever the operator, and its
  negation is true: \<open>!=\<close> is not the negation of \<open>=\<close>.\<close>

theorem missing_field_is_false:
  assumes "compare_wf op1 num (Field_name name) v" "Some name \<notin> nv_name ` set (nodes (r_nv r))"
    "named (view env r)"
  shows "\<exists>r' r''. expr_eval env ev r (Expr_compare op1 num (Field_name name) v) = Some (False, r') \<and>
           expr_eval env ev r (Expr_not (Expr_compare op1 num (Field_name name) v)) = Some (True, r'')"
proof -
  have "Some name \<notin> fst ` set (map (field_view env (r_type r)) (nodes (r_nv r)))"
    using assms(2) by (auto simp: field_view_def)
  then have none: "view_field (view env r) name = None"
    by (simp add: view_def view_field_def map_of_eq_None_iff)
  have "\<not> satisfies_compare ev (view env r) op1 (Field_name name) v"
    using assms(1) none by (cases v) auto
  then show ?thesis
    using eval_compare_refines [OF assms(1) _ assms(3), of ev] by auto
qed

theorem missing_field_is_false_witness:
  "\<exists>r' r''. expr_eval plain_env \<lparr>e_sec = 5, e_milli = 0, e_serial = 1, e_host = None\<rparr> demo_record
       (Expr_compare EO_RAW_NE False (Field_name ''exe'') (Value_string ''x'')) = Some (False, r') \<and>
     expr_eval plain_env \<lparr>e_sec = 5, e_milli = 0, e_serial = 1, e_host = None\<rparr> demo_record
       (Expr_not (Expr_compare EO_RAW_NE False (Field_name ''exe'') (Value_string ''x''))) = Some (True, r'')"
  by (rule missing_field_is_false) (simp_all add: is_string_op_def named_nodes demo_record_def demo_nvlist_def)

end
