(* ===== verification/Lru.thy ===== *)
theory Lru
  imports Audit_Prelude "HOL-Library.Monad_Syntax"
begin

text \<open>
  The cache of user and group names: the least-recently-used queue of \<open>auparse/lru.c\<close> and the
  lookups of \<open>auparse/interpret.c\<close> that use it.

  The doubly linked list is kept in an explicit heap of nodes, addressed by numbers; a freed or
  NULL pointer that is followed is \<open>None\<close>, and so is the call of \<open>abort\<close> on a corrupt list. The
  outcome of the coming allocations is the list \<open>lru_allocs\<close> (all succeed once it is used up). The
  system's user database is an argument of the lookups. The counters are natural numbers: \<open>count\<close> is
  at least the number of nodes whenever it is decreased, and the statistics are never read.
\<close>

section \<open>Data\<close>

record qnode =
  q_prev :: "nat option"
  q_next :: "nat option"
  q_uses :: nat
  q_id :: u32
  q_str :: "string option"

record lru =
  lru_count :: nat
  lru_total :: nat
  lru_hits :: nat
  lru_misses :: nat
  lru_evictions :: nat
  lru_front :: "nat option"
  lru_end :: "nat option"
  lru_hash :: "nat option list"
  lru_heap :: "nat \<Rightarrow> qnode option"
  lru_fresh :: nat
  lru_allocs :: "bool list"

definition lru_alloc :: "lru \<Rightarrow> bool \<times> lru" where
  "lru_alloc q = (case lru_allocs q of [] \<Rightarrow> (True, q) | b # bs \<Rightarrow> (b, q\<lparr>lru_allocs := bs\<rparr>))"

definition deref :: "lru \<Rightarrow> nat option \<Rightarrow> qnode ub" where
  "deref q a = Option.bind a (lru_heap q)"

definition store :: "nat \<Rightarrow> qnode \<Rightarrow> lru \<Rightarrow> lru" where
  "store a n q = q\<lparr>lru_heap := (lru_heap q)(a \<mapsto> n)\<rparr>"

definition free_node :: "nat \<Rightarrow> lru \<Rightarrow> lru" where
  "free_node a q = q\<lparr>lru_heap := (lru_heap q)(a := None)\<rparr>"

section \<open>Queue operations\<close>

definition ID_UNSET :: u32 where
  "ID_UNSET = - 1"

definition new_QNode :: "lru \<Rightarrow> nat option \<times> lru" where
  "new_QNode q =
     (case lru_alloc q of
        (False, q1) \<Rightarrow> (None, q1)
      | (True, q1) \<Rightarrow>
          (Some (lru_fresh q1),
           store (lru_fresh q1) \<lparr>q_prev = None, q_next = None, q_uses = 1, q_id = ID_UNSET, q_str = None\<rparr>
             (q1\<lparr>lru_fresh := Suc (lru_fresh q1)\<rparr>)))"

definition are_all_slots_full :: "lru \<Rightarrow> bool" where
  "are_all_slots_full q \<longleftrightarrow> lru_count q = lru_total q"

definition queue_is_empty :: "lru \<Rightarrow> bool" where
  "queue_is_empty q \<longleftrightarrow> lru_end q = None"

text \<open>\<open>p->field = x\<close> for a pointer that may be invalid.\<close>

definition set_prev :: "nat option \<Rightarrow> nat option \<Rightarrow> lru \<Rightarrow> lru ub" where
  "set_prev a x q = do { n \<leftarrow> deref q a; Some (store (the a) (n\<lparr>q_prev := x\<rparr>) q) }"

definition set_next :: "nat option \<Rightarrow> nat option \<Rightarrow> lru \<Rightarrow> lru ub" where
  "set_next a x q = do { n \<leftarrow> deref q a; Some (store (the a) (n\<lparr>q_next := x\<rparr>) q) }"

definition insert_before :: "nat option \<Rightarrow> nat option \<Rightarrow> lru \<Rightarrow> lru ub" where
  "insert_before node new_node q =
     (if node = None \<or> new_node = None then Some q
      else do {
        n \<leftarrow> deref q node;
        q1 \<leftarrow> set_prev new_node (q_prev n) q;
        q2 \<leftarrow> set_next new_node node q1;
        q3 \<leftarrow> (if q_prev n = None then Some (q2\<lparr>lru_front := new_node\<rparr>) else set_next (q_prev n) new_node q2);
        set_prev node new_node q3
      })"

definition insert_beginning :: "nat option \<Rightarrow> lru \<Rightarrow> lru ub" where
  "insert_beginning new_node q =
     (if new_node = None then Some q
      else if lru_front q = None then do {
        q1 \<leftarrow> set_prev new_node None (q\<lparr>lru_front := new_node, lru_end := new_node\<rparr>);
        set_next new_node None q1
      }
      else insert_before (lru_front q) new_node q)"

definition remove_node :: "nat option \<Rightarrow> lru \<Rightarrow> lru ub" where
  "remove_node node q = do {
     n \<leftarrow> deref q node;
     if q_prev n = None then do {
       let q1 = q\<lparr>lru_front := q_next n\<rparr>;
       if q_next n = None then Some q1 else set_prev (q_next n) None q1
     }
     else do {
       p \<leftarrow> deref q (q_prev n);
       if q_next p \<noteq> node then None
       else do {
         q1 \<leftarrow> set_next (q_prev n) (q_next n) q;
         if q_next n = None then set_next (q_prev n) None (q1\<lparr>lru_end := q_prev n\<rparr>)
         else do {
           s \<leftarrow> deref q1 (q_next n);
           if q_prev s \<noteq> node then None else set_prev (q_next n) (q_prev n) q1
         }
       }
     }
   }"

definition dequeue_lru :: "lru \<Rightarrow> lru ub" where
  "dequeue_lru q =
     (let temp = lru_end q in
      if queue_is_empty q then Some q
      else do {
        q1 \<leftarrow> remove_node temp q;
        _ \<leftarrow> deref q1 temp;
        Some ((free_node (the temp) q1)\<lparr>lru_count := lru_count q1 - 1\<rparr>)
      })"

definition hash_set :: "nat \<Rightarrow> nat option \<Rightarrow> lru \<Rightarrow> lru ub" where
  "hash_set key v q =
     (if key < length (lru_hash q) then Some (q\<lparr>lru_hash := (lru_hash q)[key := v]\<rparr>) else None)"

definition lru_evict :: "nat \<Rightarrow> lru \<Rightarrow> lru ub" where
  "lru_evict key q =
     (let temp = lru_front q in
      if queue_is_empty q then Some q
      else do {
        q1 \<leftarrow> hash_set key None q;
        q2 \<leftarrow> remove_node (lru_front q1) q1;
        _ \<leftarrow> deref q2 temp;
        Some ((free_node (the temp) q2)\<lparr>lru_count := lru_count q2 - 1, lru_evictions := lru_evictions q2 + 1\<rparr>)
      })"

definition enqueue_lru :: "nat \<Rightarrow> lru \<Rightarrow> lru ub" where
  "enqueue_lru key q = do {
     q1 \<leftarrow> (if are_all_slots_full q then do { q' \<leftarrow> hash_set key None q; dequeue_lru q' } else Some q);
     let (temp, q2) = new_QNode q1;
     q3 \<leftarrow> insert_beginning temp q2;
     q4 \<leftarrow> hash_set key temp q3;
     Some (q4\<lparr>lru_count := lru_count q4 + 1\<rparr>)
   }"

definition check_lru_cache :: "nat \<Rightarrow> lru \<Rightarrow> (nat option \<times> lru) ub" where
  "check_lru_cache key q =
     (if key \<ge> lru_total q then Some (None, q)
      else if key \<ge> length (lru_hash q) then None
      else
        let reqPage = lru_hash q ! key in
        if reqPage = None then do {
          q1 \<leftarrow> enqueue_lru key q;
          let q2 = q1\<lparr>lru_misses := lru_misses q1 + 1\<rparr>;
          Some (lru_front q2, q2)
        }
        else if reqPage \<noteq> lru_front q then do {
          q1 \<leftarrow> remove_node reqPage q;
          q2 \<leftarrow> set_next reqPage None q1;
          q3 \<leftarrow> set_prev reqPage None q2;
          q4 \<leftarrow> insert_beginning reqPage q3;
          n \<leftarrow> deref q4 (lru_front q4);
          let q5 = store (the (lru_front q4)) (n\<lparr>q_uses := q_uses n + 1\<rparr>) q4;
          let q6 = q5\<lparr>lru_hits := lru_hits q5 + 1\<rparr>;
          Some (lru_front q6, q6)
        }
        else let q1 = q\<lparr>lru_hits := lru_hits q + 1\<rparr> in Some (lru_front q1, q1))"

text \<open>The three functions that create a cache. \<open>al\<close> is the outcome of the allocations for it, the ones after
  its creation included; NULL is \<open>None\<close>. \<open>init_lru\<close> returns the queue also when its table could not be
  allocated: the table is then one without entries, so that every access to it is undefined.\<close>

definition create_queue :: "bool list \<Rightarrow> nat \<Rightarrow> lru option" where
  "create_queue al qsize =
     (if al \<noteq> [] \<and> \<not> hd al then None
      else Some \<lparr>lru_count = 0, lru_total = qsize, lru_hits = 0, lru_misses = 0, lru_evictions = 0,
                 lru_front = None, lru_end = None, lru_hash = [],
                 lru_heap = (\<lambda>_. None), lru_fresh = 0, lru_allocs = tl al\<rparr>)"

definition create_hash :: "nat \<Rightarrow> lru \<Rightarrow> nat option list option \<times> lru" where
  "create_hash hsize q =
     (case lru_alloc q of
        (False, q1) \<Rightarrow> (None, q1)
      | (True, q1) \<Rightarrow>
          (case lru_alloc q1 of
             (False, q2) \<Rightarrow> (None, q2)
           | (True, q2) \<Rightarrow> (Some (replicate hsize None), q2)))"

definition init_lru :: "bool list \<Rightarrow> nat \<Rightarrow> lru option" where
  "init_lru al qsize =
     (case create_queue al qsize of
        None \<Rightarrow> None
      | Some q \<Rightarrow>
          (case create_hash qsize q of
             (hash, q1) \<Rightarrow> Some (q1\<lparr>lru_hash := (case hash of Some array \<Rightarrow> array | None \<Rightarrow> [])\<rparr>)))"

text \<open>
  \<open>destroy_queue\<close>: \<open>dequeue\<close> until the counter is 0. A call either lowers the counter or, on an
  empty list, changes nothing, so that as many rounds as the counter says are enough: with any left
  the loop would never end, which is \<open>None\<close> like an invalid access.
\<close>

fun destroy_loop :: "nat \<Rightarrow> lru \<Rightarrow> lru ub" where
  "destroy_loop 0 q = (if lru_count q = 0 then Some q else None)"
| "destroy_loop (Suc n) q =
     (if lru_count q = 0 then Some q else do { q' \<leftarrow> dequeue_lru q; destroy_loop n q' })"

text \<open>\<open>destroy_lru\<close> first frees the table, through NULL when there is none.\<close>

definition destroy_lru :: "lru \<Rightarrow> lru ub" where
  "destroy_lru q = (if lru_hash q = [] then None else destroy_loop (lru_count q) q)"

definition compute_subject_key :: "lru \<Rightarrow> u32 \<Rightarrow> nat" where
  "compute_subject_key q uid = unat uid mod lru_total q"

section \<open>Name lookups\<close>

text \<open>\<open>%d\<close> applied to a user id.\<close>

definition show_id :: "u32 \<Rightarrow> string" where
  "show_id u = (if sint u < 0 then CHR ''-'' # show_nat (nat (- sint u)) else show_nat (nat (sint u)))"

text \<open>The text both lookups write, and the part they share once the cache exists; \<open>getname\<close> is
  \<open>getpwuid\<close> or \<open>getgrgid\<close>.\<close>

definition format_name :: "nat \<Rightarrow> u32 \<Rightarrow> string option \<Rightarrow> string" where
  "format_name sz uid name =
     take (sz - 1) (case name of Some s \<Rightarrow> s | None \<Rightarrow> ''unknown('' @ show_id uid @ '')'')"

definition lookup_cached :: "(u32 \<Rightarrow> string option) \<Rightarrow> u32 \<Rightarrow> lru \<Rightarrow> (string option \<times> lru) ub" where
  "lookup_cached getname uid q =
     (let key = compute_subject_key q uid in
      do {
        (q_node, q1) \<leftarrow> check_lru_cache key q;
        if q_node = None then Some (None, q1)
        else do {
          n \<leftarrow> deref q1 q_node;
          if q_id n = uid then Some (q_str n, q1)
          else do {
            q2 \<leftarrow> lru_evict key q1;
            (q_node2, q3) \<leftarrow> check_lru_cache key q2;
            case getname uid of
              None \<Rightarrow> Some (None, q3)
            | Some pw_name \<Rightarrow> do {
                n2 \<leftarrow> deref q3 q_node2;
                let (ok, q4) = lru_alloc q3;
                let name = (if ok then Some pw_name else None);
                Some (name, store (the q_node2) (n2\<lparr>q_str := name, q_id := uid\<rparr>) q4)
              }
          }
        }
      })"

text \<open>
  The two caches, \<open>None\<close> while the flag \<open>*_cache_created\<close> is 0. \<open>al\<close> is the outcome of the allocations for
  a cache that has to be created. When the queue cannot be allocated, the lookup goes on with a NULL
  pointer and follows it.
\<close>

record caches =
  uid_cache :: "lru option"
  gid_cache :: "lru option"

definition aulookup_uid :: "(u32 \<Rightarrow> string option) \<Rightarrow> bool list \<Rightarrow> nat \<Rightarrow> u32 \<Rightarrow> caches \<Rightarrow> (string \<times> caches) ub" where
  "aulookup_uid getpwuid al sz uid c =
     (if uid = - 1 then Some (take (sz - 1) ''unset'', c)
      else if uid = 0 then Some (take (sz - 1) ''root'', c)
      else do {
        q \<leftarrow> (case uid_cache c of Some q \<Rightarrow> Some q | None \<Rightarrow> init_lru al 19);
        (name, q1) \<leftarrow> lookup_cached getpwuid uid q;
        Some (format_name sz uid name, c\<lparr>uid_cache := Some q1\<rparr>)
      })"

definition aulookup_destroy_uid_list :: "caches \<Rightarrow> caches ub" where
  "aulookup_destroy_uid_list c =
     (case uid_cache c of
        None \<Rightarrow> Some c
      | Some q \<Rightarrow> do { _ \<leftarrow> destroy_lru q; Some (c\<lparr>uid_cache := None\<rparr>) })"

definition aulookup_gid :: "(u32 \<Rightarrow> string option) \<Rightarrow> bool list \<Rightarrow> nat \<Rightarrow> u32 \<Rightarrow> caches \<Rightarrow> (string \<times> caches) ub" where
  "aulookup_gid getgrgid al sz gid c =
     (if gid = - 1 then Some (take (sz - 1) ''unset'', c)
      else if gid = 0 then Some (take (sz - 1) ''root'', c)
      else do {
        q \<leftarrow> (case gid_cache c of Some q \<Rightarrow> Some q | None \<Rightarrow> init_lru al 19);
        (name, q1) \<leftarrow> lookup_cached getgrgid gid q;
        Some (format_name sz gid name, c\<lparr>gid_cache := Some q1\<rparr>)
      })"

definition aulookup_destroy_gid_list :: "caches \<Rightarrow> caches ub" where
  "aulookup_destroy_gid_list c =
     (case gid_cache c of
        None \<Rightarrow> Some c
      | Some q \<Rightarrow> do { _ \<leftarrow> destroy_lru q; Some (c\<lparr>gid_cache := None\<rparr>) })"

section \<open>Linked lists\<close>

definition first_or :: "nat list \<Rightarrow> nat option \<Rightarrow> nat option" where
  "first_or xs d = (case xs of [] \<Rightarrow> d | x # _ \<Rightarrow> Some x)"

definition last_or :: "nat list \<Rightarrow> nat option \<Rightarrow> nat option" where
  "last_or xs d = (if xs = [] then d else Some (last xs))"

text \<open>The nodes \<open>xs\<close> form a doubly linked segment between \<open>p\<close> and \<open>n\<close>.\<close>

fun dls :: "(nat \<Rightarrow> qnode option) \<Rightarrow> nat option \<Rightarrow> nat list \<Rightarrow> nat option \<Rightarrow> bool" where
  "dls h p [] n \<longleftrightarrow> True"
| "dls h p (x # xs) n \<longleftrightarrow>
     (\<exists>k. h x = Some k \<and> q_prev k = p \<and> q_next k = first_or xs n) \<and> dls h (Some x) xs n"

lemma first_or_simps [simp]:
  "first_or [] d = d" "first_or (x # xs) d = Some x"
  "first_or (xs @ ys) d = first_or xs (first_or ys d)"
  by (cases xs; simp add: first_or_def)+

lemma last_or_simps [simp]: "last_or [] d = d" "last_or (x # xs) d = last_or xs (Some x)"
  by (simp_all add: last_or_def)

lemma last_or_snoc [simp]: "last_or (xs @ [x]) d = Some x"
  by (simp add: last_or_def)

lemma dls_append: "dls h p (xs @ ys) n \<longleftrightarrow> dls h p xs (first_or ys n) \<and> dls h (last_or xs p) ys n"
  by (induction xs arbitrary: p) auto

lemma dls_frame: "a \<notin> set xs \<Longrightarrow> dls (h(a := v)) p xs n = dls h p xs n"
  by (induction xs arbitrary: p) auto

lemma dls_set_prev:
  assumes "dls h p (x # xs) n" "h x = Some k" "x \<notin> set xs"
  shows "dls (h(x \<mapsto> k\<lparr>q_prev := p'\<rparr>)) p' (x # xs) n"
  using assms by (auto simp: dls_frame)

lemma dls_set_next:
  assumes "dls h p (xs @ [x]) n" "h x = Some k" "x \<notin> set xs"
  shows "dls (h(x \<mapsto> k\<lparr>q_next := n'\<rparr>)) p (xs @ [x]) n'"
  using assms by (auto simp: dls_append dls_frame)

definition list_rep :: "lru \<Rightarrow> nat list \<Rightarrow> bool" where
  "list_rep q xs \<longleftrightarrow>
     lru_front q = first_or xs None \<and> (xs \<noteq> [] \<longrightarrow> lru_end q = Some (last xs)) \<and>
     dls (lru_heap q) None xs None \<and> distinct xs"

text \<open>What linking and unlinking leaves alone.\<close>

definition node_data :: "lru \<Rightarrow> nat \<Rightarrow> (nat \<times> u32 \<times> string option) option" where
  "node_data q a = map_option (\<lambda>n. (q_uses n, q_id n, q_str n)) (lru_heap q a)"

definition links_only :: "lru \<Rightarrow> lru \<Rightarrow> bool" where
  "links_only q q' \<longleftrightarrow>
     node_data q' = node_data q \<and> lru_hash q' = lru_hash q \<and> lru_count q' = lru_count q \<and>
     lru_total q' = lru_total q \<and> lru_fresh q' = lru_fresh q \<and> lru_allocs q' = lru_allocs q"

lemma links_only_trans: "links_only q q' \<Longrightarrow> links_only q' q'' \<Longrightarrow> links_only q q''"
  by (simp add: links_only_def)

lemma links_only_refl [simp]: "links_only q q"
  by (simp add: links_only_def)

lemma links_only_front [simp]: "links_only q (q\<lparr>lru_front := x\<rparr>)" "links_only q (q\<lparr>lru_end := x\<rparr>)"
  "links_only q (q\<lparr>lru_front := x, lru_end := y\<rparr>)"
  by (simp_all add: links_only_def node_data_def fun_eq_iff)

lemma set_prev_Some:
  assumes "lru_heap q a = Some k"
  shows "set_prev (Some a) p q = Some (store a (k\<lparr>q_prev := p\<rparr>) q)" "links_only q (store a (k\<lparr>q_prev := p\<rparr>) q)"
  using assms by (auto simp: set_prev_def deref_def store_def links_only_def node_data_def fun_eq_iff)

lemma set_next_Some:
  assumes "lru_heap q a = Some k"
  shows "set_next (Some a) p q = Some (store a (k\<lparr>q_next := p\<rparr>) q)" "links_only q (store a (k\<lparr>q_next := p\<rparr>) q)"
  using assms by (auto simp: set_next_def deref_def store_def links_only_def node_data_def fun_eq_iff)

lemma store_simps [simp]:
  "lru_heap (store a k q) = (lru_heap q)(a \<mapsto> k)" "lru_front (store a k q) = lru_front q"
  "lru_end (store a k q) = lru_end q"
  by (simp_all add: store_def)

subsection \<open>Removing a node\<close>

lemma remove_first:
  assumes "list_rep q (x # bs)"
  shows "\<exists>q'. remove_node (Some x) q = Some q' \<and> list_rep q' bs \<and> lru_heap q' x = lru_heap q x \<and> links_only q q'"
proof -
  have d: "dls (lru_heap q) None (x # bs) None" "distinct (x # bs)" "bs \<noteq> [] \<longrightarrow> lru_end q = Some (last bs)"
    using assms by (auto simp: list_rep_def)
  then obtain k where k: "lru_heap q x = Some k" "q_prev k = None" "q_next k = first_or bs None" by auto
  show ?thesis
  proof (cases bs)
    case Nil
    with k show ?thesis by (simp add: remove_node_def deref_def list_rep_def)
  next
    case (Cons b bs')
    obtain kb where kb: "lru_heap q b = Some kb" using d(1) Cons by auto
    have "dls ((lru_heap q)(b \<mapsto> kb\<lparr>q_prev := None\<rparr>)) None (b # bs') None"
      using d Cons by (intro dls_set_prev [where p = "Some x"] kb) auto
    moreover have "x \<noteq> b" using d(2) Cons by auto
    moreover have "lru_heap (q\<lparr>lru_front := Some b\<rparr>) b = Some kb" using kb by simp
    note s = set_prev_Some [OF this, of None]
    ultimately show ?thesis
      using k d Cons s links_only_trans [OF links_only_front(1) s(2)]
      by (simp add: remove_node_def deref_def list_rep_def del: dls.simps)
  qed
qed

lemma remove_inner:
  assumes "list_rep q (as @ [a] @ x # bs)"
  shows "\<exists>q'. remove_node (Some x) q = Some q' \<and> list_rep q' (as @ [a] @ bs) \<and>
              lru_heap q' x = lru_heap q x \<and> links_only q q'"
proof -
  have d: "dls (lru_heap q) None (as @ [a] @ x # bs) None" "distinct (as @ [a] @ x # bs)"
    "lru_end q = last_or bs (Some x)" "lru_front q = first_or (as @ [a]) None"
    using assms by (auto simp: list_rep_def last_or_def)
  obtain k where k: "lru_heap q x = Some k" "q_prev k = Some a" "q_next k = first_or bs None"
    using d(1) by (auto simp: dls_append)
  obtain ka where ka: "lru_heap q a = Some ka" "q_next ka = Some x" using d(1) by (auto simp: dls_append)
  have front: "dls (lru_heap q) None (as @ [a]) (Some x)" and tail: "dls (lru_heap q) (Some x) bs None"
    using d(1) by (auto simp: dls_append)
  let ?q1 = "store a (ka\<lparr>q_next := first_or bs None\<rparr>) q"
  have s1: "set_next (Some a) (first_or bs None) q = Some ?q1" "links_only q ?q1"
    using set_next_Some [OF ka(1)] by blast+
  have front1: "dls (lru_heap ?q1) None (as @ [a]) (first_or bs None)"
    using dls_set_next [OF front ka(1)] d(2) by simp
  have tail1: "dls (lru_heap ?q1) (Some x) bs None"
    using tail d(2) by (simp add: dls_frame)
  show ?thesis
  proof (cases bs)
    case Nil
    let ?q2 = "?q1\<lparr>lru_end := Some a\<rparr>"
    have "lru_heap ?q2 a = Some (ka\<lparr>q_next := None\<rparr>)" using Nil by simp
    note s2 = set_next_Some [OF this, of None]
    have "list_rep (store a (ka\<lparr>q_next := None, q_next := None\<rparr>) ?q2) (as @ [a])"
      using front1 d Nil by (simp add: list_rep_def)
    moreover have "links_only q (store a (ka\<lparr>q_next := None, q_next := None\<rparr>) ?q2)"
      using links_only_trans [OF s1(2) links_only_trans [OF links_only_front(2) s2(2)]] by simp
    ultimately show ?thesis
      using k ka s1 s2 Nil d(2) by (simp add: remove_node_def deref_def)
  next
    case (Cons b bs')
    obtain kb where kb: "lru_heap ?q1 b = Some kb" "q_prev kb = Some x" using tail1 Cons by auto
    note s2 = set_prev_Some [OF kb(1), of "Some a"]
    have b: "b \<notin> set (as @ [a])" "b \<noteq> x" "b \<notin> set bs'" using d(2) Cons by auto
    have "dls ((lru_heap ?q1)(b \<mapsto> kb\<lparr>q_prev := Some a\<rparr>)) (Some a) (b # bs') None"
      using tail1 Cons b kb(1) by (intro dls_set_prev [where p = "Some x"]) auto
    moreover have "dls ((lru_heap ?q1)(b \<mapsto> kb\<lparr>q_prev := Some a\<rparr>)) None (as @ [a]) (Some b)"
      using front1 Cons b by (simp add: dls_frame del: store_simps)
    ultimately have "list_rep (store b (kb\<lparr>q_prev := Some a\<rparr>) ?q1) (as @ [a] @ bs)"
      using d Cons by (simp add: list_rep_def dls_append del: dls.simps append_assoc) (simp add: last_or_def)
    moreover have "links_only q (store b (kb\<lparr>q_prev := Some a\<rparr>) ?q1)"
      using links_only_trans [OF s1(2) s2(2)] .
    ultimately show ?thesis
      using k ka s1 s2 kb Cons d(2) b by (auto simp: remove_node_def deref_def)
  qed
qed

lemma remove_node_ok:
  assumes "list_rep q (as @ x # bs)"
  shows "\<exists>q'. remove_node (Some x) q = Some q' \<and> list_rep q' (as @ bs) \<and> lru_heap q' x = lru_heap q x \<and> links_only q q'"
proof (cases as rule: rev_cases)
  case Nil
  with assms remove_first show ?thesis by simp
next
  case (snoc as' a)
  with assms remove_inner [of q as' a x bs] show ?thesis by simp
qed

subsection \<open>Inserting a node\<close>

lemma insert_beginning_ok:
  assumes "list_rep q xs" "x \<notin> set xs" "lru_heap q x = Some k"
  shows "\<exists>q'. insert_beginning (Some x) q = Some q' \<and> list_rep q' (x # xs) \<and> links_only q q'"
proof (cases xs)
  case Nil
  let ?q0 = "q\<lparr>lru_front := Some x, lru_end := Some x\<rparr>"
  have "lru_heap ?q0 x = Some k" using assms(3) by simp
  note s1 = set_prev_Some [OF this, of None]
  have "lru_heap (store x (k\<lparr>q_prev := None\<rparr>) ?q0) x = Some (k\<lparr>q_prev := None\<rparr>)" by simp
  note s2 = set_next_Some [OF this, of None]
  have "links_only q (store x (k\<lparr>q_prev := None, q_next := None\<rparr>) (store x (k\<lparr>q_prev := None\<rparr>) ?q0))"
    using links_only_trans [OF links_only_front(3) links_only_trans [OF s1(2) s2(2)]] .
  with Nil assms s1 s2 show ?thesis
    by (simp add: insert_beginning_def list_rep_def)
next
  case (Cons y ys)
  have d: "dls (lru_heap q) None (y # ys) None" "distinct (y # ys)" "lru_front q = Some y"
    "lru_end q = Some (last (y # ys))" "x \<noteq> y" "x \<notin> set ys"
    using assms Cons by (auto simp: list_rep_def)
  obtain ky where ky: "lru_heap q y = Some ky" "q_prev ky = None" using d(1) by auto
  let ?q1 = "store x (k\<lparr>q_prev := None\<rparr>) q"
  note s1 = set_prev_Some [OF assms(3), of None]
  have "lru_heap ?q1 x = Some (k\<lparr>q_prev := None\<rparr>)" by simp
  note s2 = set_next_Some [OF this, of "Some y"]
  let ?q2 = "store x (k\<lparr>q_prev := None, q_next := Some y\<rparr>) ?q1"
  let ?q3 = "?q2\<lparr>lru_front := Some x\<rparr>"
  have hy: "lru_heap ?q3 y = Some ky" using ky d(5) by simp
  note s3 = set_prev_Some [OF hy, of "Some x"]
  let ?q4 = "store y (ky\<lparr>q_prev := Some x\<rparr>) ?q3"
  have "dls (lru_heap ?q3) None (y # ys) None"
    using d by (simp add: dls_frame)
  then have "dls (lru_heap ?q4) (Some x) (y # ys) None"
    using dls_set_prev [of "lru_heap ?q3" None y ys None ky "Some x"] hy d(2) by (simp del: dls.simps)
  then have "list_rep ?q4 (x # y # ys)"
    using d by (simp add: list_rep_def)
  moreover have "links_only q ?q4"
    using links_only_trans [OF s1(2) links_only_trans [OF s2(2) links_only_trans [OF links_only_front(1) s3(2)]]] .
  ultimately show ?thesis
    using Cons d ky s1 s2 s3 by (simp add: insert_beginning_def insert_before_def deref_def)
qed

section \<open>Consistent caches\<close>

text \<open>The list, and the hash: its entries point to the nodes of the list, each node has exactly one
  entry. \<open>lru_end\<close> may be stale when the list is empty.\<close>

definition hash_rep :: "nat option list \<Rightarrow> nat list \<Rightarrow> bool" where
  "hash_rep hash xs \<longleftrightarrow>
     (\<forall>k < length hash. \<forall>a. hash ! k = Some a \<longrightarrow> a \<in> set xs) \<and>
     (\<forall>a \<in> set xs. \<exists>k < length hash. hash ! k = Some a) \<and>
     (\<forall>k < length hash. \<forall>j < length hash. \<forall>a. hash ! k = Some a \<longrightarrow> hash ! j = Some a \<longrightarrow> k = j)"

definition lru_rep :: "lru \<Rightarrow> nat list \<Rightarrow> bool" where
  "lru_rep q xs \<longleftrightarrow>
     list_rep q xs \<and> hash_rep (lru_hash q) xs \<and> lru_count q = length xs \<and> 0 < lru_total q \<and>
     length (lru_hash q) = lru_total q \<and> (\<forall>a \<in> set xs. a < lru_fresh q) \<and> lru_allocs q = []"

text \<open>The cache that is created when memory is available.\<close>

lemma lru_rep_init: "0 < n \<Longrightarrow> \<exists>q. init_lru [] n = Some q \<and> lru_rep q [] \<and> lru_total q = n"
  by (simp add: lru_rep_def list_rep_def hash_rep_def init_lru_def create_queue_def create_hash_def lru_alloc_def)

text \<open>The branch of \<open>enqueue\<close> for a full cache is never taken: a missing key is a free slot.\<close>

lemma not_full:
  assumes "hash_rep hash xs" "distinct xs" "key < length hash" "hash ! key = None"
  shows "length xs < length hash"
proof -
  let ?K = "{k. k < length hash \<and> hash ! k \<noteq> None}"
  have "set xs \<subseteq> (\<lambda>k. the (hash ! k)) ` ?K"
  proof
    fix a assume "a \<in> set xs"
    then obtain k where "k < length hash" "hash ! k = Some a" using assms(1) unfolding hash_rep_def by blast
    then show "a \<in> (\<lambda>k. the (hash ! k)) ` ?K" by (intro image_eqI [of _ _ k]) auto
  qed
  then have "card (set xs) \<le> card ((\<lambda>k. the (hash ! k)) ` ?K)" by (intro card_mono) auto
  also have "\<dots> \<le> card ?K" by (intro card_image_le) auto
  finally have "card (set xs) \<le> card ?K" .
  also have "\<dots> \<le> card ({..<length hash} - {key})"
    using assms(4) by (intro card_mono) auto
  also have "\<dots> < length hash" using assms(3) by (simp add: card_Diff_singleton)
  finally show ?thesis using assms(2) by (simp add: distinct_card)
qed

lemma hash_rep_insert:
  assumes "hash_rep hash xs" "key < length hash" "hash ! key = None" "a \<notin> set xs"
  shows "hash_rep (hash[key := Some a]) (a # xs)"
proof -
  have inj: "\<forall>k < length hash. \<forall>j < length hash. \<forall>a. hash ! k = Some a \<longrightarrow> hash ! j = Some a \<longrightarrow> k = j"
    and into: "\<forall>k < length hash. \<forall>b. hash ! k = Some b \<longrightarrow> b \<in> set xs"
    and onto: "\<forall>b \<in> set xs. \<exists>k < length hash. hash ! k = Some b"
    using assms(1) unfolding hash_rep_def by auto
  have "\<exists>k < length hash. hash[key := Some a] ! k = Some b" if "b \<in> set (a # xs)" for b
  proof (cases "b = a")
    case True
    then show ?thesis using assms(2) by (intro exI [of _ key]) simp
  next
    case False
    then have "b \<in> set xs" using that by simp
    then obtain k where k: "k < length hash" "hash ! k = Some b" using onto by blast
    then have "k \<noteq> key" using assms(3) by auto
    with k show ?thesis by (intro exI [of _ k]) simp
  qed
  moreover have "k = j" if "k < length hash" "j < length hash" "hash[key := Some a] ! k = Some b"
    "hash[key := Some a] ! j = Some b" for k j b
    using that inj into assms(2,4) by (cases "k = key"; cases "j = key") auto
  moreover have "b \<in> set (a # xs)" if "k < length hash" "hash[key := Some a] ! k = Some b" for k b
    using that into assms(2) by (cases "k = key") auto
  ultimately show ?thesis unfolding hash_rep_def length_list_update by blast
qed

lemma hash_rep_delete:
  assumes "hash_rep hash (a # xs)" "key < length hash" "hash ! key = Some a" "a \<notin> set xs"
  shows "hash_rep (hash[key := None]) xs"
proof -
  have inj: "\<forall>k < length hash. \<forall>j < length hash. \<forall>a. hash ! k = Some a \<longrightarrow> hash ! j = Some a \<longrightarrow> k = j"
    and into: "\<forall>k < length hash. \<forall>b. hash ! k = Some b \<longrightarrow> b = a \<or> b \<in> set xs"
    and onto: "\<forall>b \<in> set xs. \<exists>k < length hash. hash ! k = Some b"
    using assms(1) unfolding hash_rep_def by auto
  have "\<exists>k < length hash. hash[key := None] ! k = Some b" if b: "b \<in> set xs" for b
  proof -
    obtain k where k: "k < length hash" "hash ! k = Some b" using onto b by blast
    then have "k \<noteq> key" using assms(3,4) b by auto
    with k show ?thesis by (intro exI [of _ k]) simp
  qed
  moreover have "k = j" if "k < length hash" "j < length hash" "hash[key := None] ! k = Some b"
    "hash[key := None] ! j = Some b" for k j b
    using that inj by (cases "k = key"; cases "j = key") auto
  moreover have "b \<in> set xs" if k: "k < length hash" "hash[key := None] ! k = Some b" for k b
  proof (cases "k = key")
    case False
    then have "hash ! k = Some b" using k by simp
    moreover have "b \<noteq> a" using inj assms(2,3) k(1) False calculation by blast
    ultimately show ?thesis using into k(1) by blast
  qed (use k in simp)
  ultimately show ?thesis unfolding hash_rep_def length_list_update by blast
qed

lemma hash_rep_perm: "hash_rep hash xs \<Longrightarrow> set ys = set xs \<Longrightarrow> hash_rep hash ys"
  unfolding hash_rep_def by simp

section \<open>Correct operations\<close>

text \<open>\<open>kept q q' xs\<close>: the nodes \<open>xs\<close> keep their id and name.\<close>

definition entry :: "lru \<Rightarrow> nat \<Rightarrow> (u32 \<times> string option) option" where
  "entry q a = map_option (\<lambda>n. (q_id n, q_str n)) (lru_heap q a)"

lemma links_only_entry: "links_only q q' \<Longrightarrow> entry q' = entry q"
proof -
  have "entry q a = map_option snd (node_data q a)" for q a
    by (simp add: entry_def node_data_def option.map_comp comp_def)
  then show "links_only q q' \<Longrightarrow> entry q' = entry q" by (simp add: links_only_def fun_eq_iff)
qed

lemma list_rep_cong:
  "list_rep q xs \<Longrightarrow> lru_front q' = lru_front q \<Longrightarrow> lru_end q' = lru_end q \<Longrightarrow> lru_heap q' = lru_heap q \<Longrightarrow> list_rep q' xs"
  by (simp add: list_rep_def)

lemma dls_heap_cong: "\<forall>a \<in> set xs. h' a = h a \<Longrightarrow> dls h' p xs n = dls h p xs n"
  by (induction xs arbitrary: p) auto

lemma list_rep_node: "list_rep q xs \<Longrightarrow> a \<in> set xs \<Longrightarrow> \<exists>k. lru_heap q a = Some k"
proof -
  have "dls h p xs n \<Longrightarrow> a \<in> set xs \<Longrightarrow> \<exists>k. h a = Some k" for h p n
    by (induction xs arbitrary: p) auto
  then show "list_rep q xs \<Longrightarrow> a \<in> set xs \<Longrightarrow> \<exists>k. lru_heap q a = Some k"
    by (auto simp: list_rep_def)
qed

text \<open>A new entry on a list with a free slot, whatever the rest of the table holds.\<close>

lemma enqueue_links:
  assumes "list_rep q xs" "lru_count q \<noteq> lru_total q" "lru_allocs q = []" "key < length (lru_hash q)"
    and fresh: "lru_fresh q \<notin> set xs"
  shows "\<exists>q'. enqueue_lru key q = Some q' \<and> list_rep q' (lru_fresh q # xs) \<and>
     lru_hash q' = (lru_hash q)[key := Some (lru_fresh q)] \<and> lru_total q' = lru_total q \<and>
     lru_count q' = lru_count q + 1 \<and> lru_fresh q' = Suc (lru_fresh q) \<and> lru_allocs q' = [] \<and>
     entry q' = (entry q)(lru_fresh q \<mapsto> (ID_UNSET, None))"
proof -
  have nf: "\<not> are_all_slots_full q" using assms(2) by (simp add: are_all_slots_full_def)
  let ?n = "\<lparr>q_prev = None, q_next = None, q_uses = 1, q_id = ID_UNSET, q_str = None\<rparr>"
  let ?q2 = "store (lru_fresh q) ?n (q\<lparr>lru_fresh := Suc (lru_fresh q)\<rparr>)"
  have new: "new_QNode q = (Some (lru_fresh q), ?q2)"
    using assms(3) by (simp add: new_QNode_def lru_alloc_def)
  have "list_rep ?q2 xs"
    using assms(1) dls_frame [OF fresh] by (simp add: list_rep_def)
  then obtain q3 where q3: "insert_beginning (Some (lru_fresh q)) ?q2 = Some q3" "list_rep q3 (lru_fresh q # xs)"
    "links_only ?q2 q3"
    using insert_beginning_ok [of ?q2 xs "lru_fresh q" ?n] fresh by auto
  let ?q4 = "q3\<lparr>lru_hash := (lru_hash q3)[key := Some (lru_fresh q)]\<rparr>"
  have same: "lru_hash q3 = lru_hash q" "lru_count q3 = lru_count q" "lru_total q3 = lru_total q"
    "lru_fresh q3 = Suc (lru_fresh q)" "lru_allocs q3 = lru_allocs q" "entry q3 = entry ?q2"
    using q3(3) links_only_entry [OF q3(3)] by (simp_all add: links_only_def store_def)
  let ?q5 = "?q4\<lparr>lru_count := lru_count ?q4 + 1\<rparr>"
  have "enqueue_lru key q = Some ?q5"
    using nf new q3(1) same assms(4) by (simp add: enqueue_lru_def hash_set_def)
  moreover have "list_rep ?q5 (lru_fresh q # xs)" using q3(2) by (auto intro: list_rep_cong)
  moreover have "entry ?q5 = entry q3" by (simp add: entry_def fun_eq_iff)
  moreover have "entry ?q2 = (entry q)(lru_fresh q \<mapsto> (ID_UNSET, None))" by (auto simp: entry_def fun_eq_iff)
  ultimately show ?thesis using same assms(3) by simp
qed

lemma enqueue_ok:
  assumes "lru_rep q xs" "key < lru_total q" "lru_hash q ! key = None"
  shows "\<exists>q'. enqueue_lru key q = Some q' \<and> lru_rep q' (lru_fresh q # xs) \<and>
     lru_hash q' = (lru_hash q)[key := Some (lru_fresh q)] \<and> lru_total q' = lru_total q \<and>
     entry q' (lru_fresh q) = Some (ID_UNSET, None) \<and> (\<forall>a \<in> set xs. entry q' a = entry q a)"
proof -
  have rep: "list_rep q xs" "hash_rep (lru_hash q) xs" "lru_count q = length xs" "lru_allocs q = []"
    "length (lru_hash q) = lru_total q" "\<forall>a \<in> set xs. a < lru_fresh q"
    using assms(1) by (simp_all add: lru_rep_def)
  have fresh: "lru_fresh q \<notin> set xs" using rep(6) by auto
  have "length xs < lru_total q"
    using not_full [OF rep(2) _ _ assms(3)] rep(1,5) assms(2) by (simp add: list_rep_def)
  then obtain q' where q': "enqueue_lru key q = Some q'" "list_rep q' (lru_fresh q # xs)"
     "lru_hash q' = (lru_hash q)[key := Some (lru_fresh q)]" "lru_total q' = lru_total q"
     "lru_count q' = lru_count q + 1" "lru_fresh q' = Suc (lru_fresh q)" "lru_allocs q' = []"
     "entry q' = (entry q)(lru_fresh q \<mapsto> (ID_UNSET, None))"
    using enqueue_links [OF rep(1) _ rep(4) _ fresh, of key] rep(3,5) assms(2) by auto
  moreover have "lru_rep q' (lru_fresh q # xs)"
    using q' rep assms(1,2) hash_rep_insert [OF rep(2) _ assms(3) fresh] by (auto simp: lru_rep_def)
  ultimately show ?thesis using fresh by auto
qed

lemma hit_ok:
  assumes "lru_rep q (as @ x # bs)" "as \<noteq> []" "key < lru_total q" "lru_hash q ! key = Some x"
  shows "\<exists>q'. check_lru_cache key q = Some (Some x, q') \<and> lru_rep q' (x # as @ bs) \<and>
     lru_hash q' = lru_hash q \<and> lru_total q' = lru_total q \<and> entry q' = entry q"
proof -
  have rep: "list_rep q (as @ x # bs)" "hash_rep (lru_hash q) (as @ x # bs)"
    "length (lru_hash q) = lru_total q"
    using assms(1) by (simp_all add: lru_rep_def)
  then have dist: "distinct (as @ x # bs)" by (simp add: list_rep_def)
  have nfront: "lru_front q \<noteq> Some x"
    using rep(1) assms(2) dist by (cases as) (auto simp: list_rep_def)
  obtain q1 where q1: "remove_node (Some x) q = Some q1" "list_rep q1 (as @ bs)"
    "lru_heap q1 x = lru_heap q x" "links_only q q1"
    using remove_node_ok [OF rep(1)] by blast
  obtain k where k: "lru_heap q1 x = Some k" using list_rep_node [OF rep(1), of x] q1(3) by auto
  note s2 = set_next_Some [OF k, of None]
  let ?q2 = "store x (k\<lparr>q_next := None\<rparr>) q1"
  have "lru_heap ?q2 x = Some (k\<lparr>q_next := None\<rparr>)" by simp
  note s3 = set_prev_Some [OF this, of None]
  let ?q3 = "store x (k\<lparr>q_next := None, q_prev := None\<rparr>) ?q2"
  have x: "x \<notin> set (as @ bs)" using dist by auto
  have "list_rep ?q3 (as @ bs)" using q1(2) dls_frame [OF x] by (simp add: list_rep_def)
  then obtain q4 where q4: "insert_beginning (Some x) ?q3 = Some q4" "list_rep q4 (x # as @ bs)" "links_only ?q3 q4"
    using insert_beginning_ok [of ?q3 "as @ bs" x] x by auto
  have lo: "links_only q q4"
    using links_only_trans [OF q1(4) links_only_trans [OF s2(2) links_only_trans [OF s3(2) q4(3)]]] .
  have front: "lru_front q4 = Some x" using q4(2) by (simp add: list_rep_def)
  obtain n where n: "lru_heap q4 x = Some n" using list_rep_node [OF q4(2), of x] by auto
  let ?q5 = "store x (n\<lparr>q_uses := q_uses n + 1\<rparr>) q4"
  let ?q6 = "?q5\<lparr>lru_hits := lru_hits ?q5 + 1\<rparr>"
  have "check_lru_cache key q = Some (Some x, ?q6)"
    using assms(3,4) rep(3) nfront q1(1) s2 s3 q4(1) front n
    by (simp add: check_lru_cache_def deref_def Let_def)
  moreover have "list_rep ?q6 (x # as @ bs)"
    using q4(2) n x by (auto simp: list_rep_def dls_frame)
  moreover have "entry ?q6 = entry q4" using n by (auto simp: entry_def fun_eq_iff)
  moreover have "hash_rep (lru_hash q) (x # as @ bs)" using hash_rep_perm [OF rep(2)] by auto
  ultimately show ?thesis
    using lo links_only_entry [OF lo] assms(1)
    by (auto simp: lru_rep_def links_only_def store_def)
qed

text \<open>The most recently used node comes first; the others keep their order.\<close>

lemma check_lru_cache_ok:
  assumes "lru_rep q xs" "key < lru_total q"
  shows "\<exists>q' x. check_lru_cache key q = Some (Some x, q') \<and> lru_total q' = lru_total q \<and>
     lru_rep q' (x # remove1 x xs) \<and> lru_hash q' = (lru_hash q)[key := Some x] \<and>
     (\<forall>a \<in> set xs. entry q' a = entry q a) \<and>
     (case lru_hash q ! key of None \<Rightarrow> x \<notin> set xs \<and> entry q' x = Some (ID_UNSET, None) | Some y \<Rightarrow> x = y \<and> x \<in> set xs)"
proof (cases "lru_hash q ! key")
  case None
  obtain q' where q': "enqueue_lru key q = Some q'" "lru_rep q' (lru_fresh q # xs)"
    "lru_hash q' = (lru_hash q)[key := Some (lru_fresh q)]" "lru_total q' = lru_total q"
    "entry q' (lru_fresh q) = Some (ID_UNSET, None)" "\<forall>a \<in> set xs. entry q' a = entry q a"
    using enqueue_ok [OF assms None] by blast
  have fresh: "lru_fresh q \<notin> set xs" using assms(1) by (auto simp: lru_rep_def)
  let ?q = "q'\<lparr>lru_misses := lru_misses q' + 1\<rparr>"
  have "lru_front q' = Some (lru_fresh q)" using q'(2) by (simp add: lru_rep_def list_rep_def)
  then have "check_lru_cache key q = Some (Some (lru_fresh q), ?q)"
    using assms None q'(1) by (simp add: check_lru_cache_def lru_rep_def Let_def)
  moreover have "lru_rep ?q (lru_fresh q # xs)" using q'(2) by (simp add: lru_rep_def list_rep_def)
  moreover have "entry ?q = entry q'" by (simp add: entry_def fun_eq_iff)
  ultimately show ?thesis using q' fresh None by (auto simp: remove1_idem)
next
  case (Some x)
  have "hash_rep (lru_hash q) xs" "key < length (lru_hash q)" using assms by (simp_all add: lru_rep_def)
  with Some have x: "x \<in> set xs" unfolding hash_rep_def by blast
  then obtain as bs where xs: "xs = as @ x # bs" by (meson split_list)
  have len: "length (lru_hash q) = lru_total q" and dist: "distinct xs"
    using assms(1) by (simp_all add: lru_rep_def list_rep_def)
  have hash: "(lru_hash q)[key := Some x] = lru_hash q"
    using Some by (metis list_update_id)
  show ?thesis
  proof (cases "as = []")
    case True
    then have "lru_front q = Some x" using assms(1) xs by (simp add: lru_rep_def list_rep_def)
    then have "check_lru_cache key q = Some (Some x, q\<lparr>lru_hits := lru_hits q + 1\<rparr>)"
      using assms(2) Some len by (simp add: check_lru_cache_def Let_def)
    moreover have "lru_rep (q\<lparr>lru_hits := lru_hits q + 1\<rparr>) xs" using assms(1) by (simp add: lru_rep_def list_rep_def)
    moreover have "entry (q\<lparr>lru_hits := lru_hits q + 1\<rparr>) = entry q" by (simp add: entry_def fun_eq_iff)
    ultimately show ?thesis using True xs Some hash by auto
  next
    case False
    from hit_ok [OF assms(1) [unfolded xs] False assms(2) Some] obtain q' where
      "check_lru_cache key q = Some (Some x, q')" "lru_rep q' (x # as @ bs)" "lru_hash q' = lru_hash q"
      "lru_total q' = lru_total q" "entry q' = entry q" by blast
    moreover have "remove1 x xs = as @ bs" using dist xs by (simp add: remove1_append)
    ultimately show ?thesis using Some hash x by auto
  qed
qed

lemma lru_rep_hash_node: "lru_rep q xs \<Longrightarrow> key < lru_total q \<Longrightarrow> lru_hash q ! key = Some x \<Longrightarrow> x \<in> set xs"
  unfolding lru_rep_def hash_rep_def by metis

lemma evict_links:
  assumes "list_rep q (x # xs)" "key < length (lru_hash q)"
  shows "\<exists>q'. lru_evict key q = Some q' \<and> list_rep q' xs \<and> lru_hash q' = (lru_hash q)[key := None] \<and>
     lru_total q' = lru_total q \<and> lru_count q' = lru_count q - 1 \<and> lru_fresh q' = lru_fresh q \<and>
     lru_allocs q' = lru_allocs q \<and> entry q' = (entry q)(x := None)"
proof -
  have front: "lru_front q = Some x" "lru_end q = Some (last (x # xs))" "x \<notin> set xs" using assms(1) by (auto simp: list_rep_def)
  let ?q1 = "q\<lparr>lru_hash := (lru_hash q)[key := None]\<rparr>"
  have "list_rep ?q1 ([] @ x # xs)" using assms(1) by (simp add: list_rep_def)
  from remove_node_ok [OF this] obtain q2 where q2: "remove_node (Some x) ?q1 = Some q2" "list_rep q2 xs"
    "lru_heap q2 x = lru_heap ?q1 x" "links_only ?q1 q2" by auto
  obtain k where k: "lru_heap q2 x = Some k" using list_rep_node [OF assms(1), of x] q2(3) by auto
  let ?q3 = "(free_node x q2)\<lparr>lru_count := lru_count q2 - 1, lru_evictions := lru_evictions q2 + 1\<rparr>"
  have "lru_evict key q = Some ?q3"
    using front q2(1) k assms(2)
    by (simp add: lru_evict_def queue_is_empty_def hash_set_def deref_def Let_def)
  moreover have "list_rep ?q3 xs"
    using q2(2) front(3) by (simp add: list_rep_def free_node_def dls_frame)
  moreover have "entry ?q3 = (entry q)(x := None)"
  proof -
    have "entry q2 = entry ?q1" by (rule links_only_entry [OF q2(4)])
    moreover have "entry ?q1 = entry q" by (simp add: entry_def fun_eq_iff)
    moreover have "entry ?q3 = (entry q2)(x := None)" by (simp add: entry_def free_node_def fun_eq_iff)
    ultimately show ?thesis by simp
  qed
  ultimately show ?thesis using q2(4) by (auto simp: links_only_def free_node_def)
qed

lemma lru_evict_ok:
  assumes "lru_rep q (x # xs)" "key < lru_total q" "lru_hash q ! key = Some x"
  shows "\<exists>q'. lru_evict key q = Some q' \<and> lru_rep q' xs \<and> lru_hash q' = (lru_hash q)[key := None] \<and>
     lru_total q' = lru_total q \<and> (\<forall>a \<in> set xs. entry q' a = entry q a)"
proof -
  have rep: "list_rep q (x # xs)" "hash_rep (lru_hash q) (x # xs)" "length (lru_hash q) = lru_total q"
    using assms(1) by (simp_all add: lru_rep_def)
  have x: "x \<notin> set xs" using rep(1) by (auto simp: list_rep_def)
  have "hash_rep ((lru_hash q)[key := None]) xs"
    using hash_rep_delete [OF rep(2) _ assms(3) x] assms(2) rep(3) by simp
  then show ?thesis
    using evict_links [OF rep(1), of key] assms(1,2) rep(3) x by (auto simp: lru_rep_def)
qed

section \<open>Cached lookups\<close>

definition cache_ok :: "(u32 \<Rightarrow> string option) \<Rightarrow> lru \<Rightarrow> nat list \<Rightarrow> bool" where
  "cache_ok getname q xs \<longleftrightarrow>
     (\<forall>a \<in> set xs. \<forall>i s. entry q a = Some (i, s) \<longrightarrow> i \<noteq> ID_UNSET \<longrightarrow> s = getname i \<and> s \<noteq> None)"

lemma dls_same_links:
  "h a = Some n \<Longrightarrow> q_prev n' = q_prev n \<Longrightarrow> q_next n' = q_next n \<Longrightarrow> dls (h(a \<mapsto> n')) p xs e = dls h p xs e"
  by (induction xs arbitrary: p) auto

lemma store_data_rep:
  assumes "lru_rep q xs" "lru_heap q a = Some n"
  shows "lru_rep (store a (n\<lparr>q_str := s, q_id := i\<rparr>) q) xs"
  using assms dls_same_links [of "lru_heap q" a n "n\<lparr>q_str := s, q_id := i\<rparr>"]
  by (simp add: lru_rep_def list_rep_def store_def)

lemma lookup_miss_ok:
  assumes "lru_rep q (x # xs)" "cache_ok getname q (x # xs)" "key < lru_total q" "lru_hash q ! key = Some x"
    "uid \<noteq> ID_UNSET"
  shows "\<exists>q2 x2 q3 n2 ys. lru_evict key q = Some q2 \<and> check_lru_cache key q2 = Some (Some x2, q3) \<and>
     lru_heap q3 x2 = Some n2 \<and> lru_allocs q3 = [] \<and> lru_rep q3 ys \<and> cache_ok getname q3 ys \<and>
     (\<forall>s. getname uid = Some s \<longrightarrow> cache_ok getname (store x2 (n2\<lparr>q_str := Some s, q_id := uid\<rparr>) q3) ys)"
proof -
  obtain q2 where q2: "lru_evict key q = Some q2" "lru_rep q2 xs" "lru_hash q2 = (lru_hash q)[key := None]"
    "lru_total q2 = lru_total q" "\<forall>a \<in> set xs. entry q2 a = entry q a"
    using lru_evict_ok [OF assms(1,3,4)] by blast
  have "lru_hash q2 ! key = None" using q2(3) assms(1,3) by (simp add: lru_rep_def)
  with check_lru_cache_ok [OF q2(2), of key] assms(3) q2(4) obtain x2 q3 where
    q3: "check_lru_cache key q2 = Some (Some x2, q3)" "lru_rep q3 (x2 # remove1 x2 xs)" "x2 \<notin> set xs"
    "\<forall>a \<in> set xs. entry q3 a = entry q2 a" "entry q3 x2 = Some (ID_UNSET, None)" "lru_total q3 = lru_total q2" by auto
  have rep: "lru_rep q3 (x2 # xs)" using q3(2,3) by (simp add: remove1_idem)
  obtain n2 where n2: "lru_heap q3 x2 = Some n2" using q3(5) by (auto simp: entry_def)
  have ok: "cache_ok getname q3 (x2 # xs)"
    using assms(2) q2(5) q3(4,5) by (auto simp: cache_ok_def)
  have ok2: "cache_ok getname (store x2 (n2\<lparr>q_str := Some s, q_id := uid\<rparr>) q3) (x2 # xs)" if "getname uid = Some s" for s
    using ok that q3(3) by (auto simp: cache_ok_def entry_def)
  have "lru_allocs q3 = []" using rep by (simp add: lru_rep_def)
  then show ?thesis
    using q2(1) q3(1) n2 rep ok ok2 by (intro exI [of _ q2] exI [of _ x2] exI [of _ q3] exI [of _ n2] exI [of _ "x2 # xs"]) simp
qed

lemma lookup_cached_ok:
  assumes "lru_rep q xs" "cache_ok getname q xs" "uid \<noteq> ID_UNSET"
  shows "\<exists>q' ys. lookup_cached getname uid q = Some (getname uid, q') \<and> lru_rep q' ys \<and> cache_ok getname q' ys"
proof -
  define key where "key = compute_subject_key q uid"
  have key: "key < lru_total q" using assms(1) by (simp add: key_def compute_subject_key_def lru_rep_def)
  obtain x q1 where c: "check_lru_cache key q = Some (Some x, q1)" "lru_rep q1 (x # remove1 x xs)"
    "lru_hash q1 = (lru_hash q)[key := Some x]" "lru_total q1 = lru_total q"
    "\<forall>a \<in> set xs. entry q1 a = entry q a"
    "case lru_hash q ! key of None \<Rightarrow> x \<notin> set xs \<and> entry q1 x = Some (ID_UNSET, None) | Some y \<Rightarrow> x = y \<and> x \<in> set xs"
    using check_lru_cache_ok [OF assms(1) key] by blast
  have ok: "cache_ok getname q1 (x # remove1 x xs)"
    using assms(2) c(5,6) set_remove1_subset [of x xs]
    by (auto simp: cache_ok_def split: option.splits)
  obtain n where n: "lru_heap q1 x = Some n"
    using list_rep_node [of q1 "x # remove1 x xs" x] c(2) by (auto simp: lru_rep_def)
  show ?thesis
  proof (cases "q_id n = uid")
    case True
    then have "q_str n = getname uid" using ok n assms(3) by (auto simp: cache_ok_def entry_def)
    then show ?thesis
      using True c(1,2) n ok by (auto simp: lookup_cached_def key_def [symmetric] deref_def Let_def)
  next
    case False
    have "lru_hash q1 ! key = Some x" "key < lru_total q1"
      using c(3,4) key assms(1) by (simp_all add: lru_rep_def)
    from lookup_miss_ok [OF c(2) ok this(2,1) assms(3)] obtain q2 x2 q3 n2 ys where
      m: "lru_evict key q1 = Some q2" "check_lru_cache key q2 = Some (Some x2, q3)" "lru_heap q3 x2 = Some n2"
      "lru_allocs q3 = []" "lru_rep q3 ys" "cache_ok getname q3 ys"
      "\<forall>s. getname uid = Some s \<longrightarrow> cache_ok getname (store x2 (n2\<lparr>q_str := Some s, q_id := uid\<rparr>) q3) ys"
      by (elim exE conjE) rule
    show ?thesis
    proof (cases "getname uid")
      case None
      with False c(1) n m(1,2,5,6) show ?thesis
        by (auto simp: lookup_cached_def key_def [symmetric] deref_def Let_def)
    next
      case (Some s)
      with False c(1) n m(1-4,7) store_data_rep [OF m(5,3)] show ?thesis
        by (auto simp: lookup_cached_def key_def [symmetric] deref_def Let_def lru_alloc_def)
    qed
  qed
qed

lemma dequeue_lru_ok:
  assumes "list_rep q (xs @ [x])"
  shows "\<exists>q'. dequeue_lru q = Some q' \<and> list_rep q' xs \<and> lru_count q' = lru_count q - 1"
proof -
  obtain q1 where q1: "remove_node (Some x) q = Some q1" "list_rep q1 xs" "lru_heap q1 x = lru_heap q x" "links_only q q1"
    using remove_node_ok [of q xs x "[]"] assms by auto
  obtain k where "lru_heap q x = Some k" using list_rep_node [OF assms, of x] by auto
  moreover have "x \<notin> set xs" "lru_end q = Some x" using assms by (auto simp: list_rep_def)
  ultimately show ?thesis
    using q1 by (auto simp: dequeue_lru_def queue_is_empty_def deref_def free_node_def list_rep_def dls_frame links_only_def)
qed

lemma destroy_loop_ok:
  "list_rep q xs \<Longrightarrow> lru_count q = length xs \<Longrightarrow> \<exists>q'. destroy_loop (length xs) q = Some q'"
proof (induction xs arbitrary: q rule: rev_induct)
  case (snoc x xs)
  then show ?case using dequeue_lru_ok [of q xs x] by auto
qed simp

lemma destroy_lru_ok: "lru_rep q xs \<Longrightarrow> \<exists>q'. destroy_lru q = Some q'"
  using destroy_loop_ok [of q xs] by (cases "lru_hash q") (auto simp: lru_rep_def destroy_lru_def)

text \<open>A cache that does not exist yet or is sound.\<close>

definition cache_sound :: "(u32 \<Rightarrow> string option) \<Rightarrow> lru option \<Rightarrow> bool" where
  "cache_sound getname c \<longleftrightarrow> (case c of None \<Rightarrow> True | Some q \<Rightarrow> \<exists>xs. lru_rep q xs \<and> cache_ok getname q xs)"

lemma cache_sound_None [simp]: "cache_sound getname None"
  by (simp add: cache_sound_def)

lemma cache_sound_init: "\<exists>q. init_lru [] 19 = Some q \<and> cache_sound getname (Some q)"
proof -
  obtain q where q: "init_lru [] 19 = Some q" "lru_rep q []" using lru_rep_init [of 19] by auto
  then have "cache_sound getname (Some q)" by (auto simp: cache_sound_def cache_ok_def intro: exI [of _ "[]"])
  with q show ?thesis by blast
qed

lemma lookup_cached_sound:
  assumes "cache_sound getname (Some q)" "uid \<noteq> - 1"
  shows "\<exists>q'. lookup_cached getname uid q = Some (getname uid, q') \<and> cache_sound getname (Some q')"
  using assms lookup_cached_ok [of q _ getname uid] by (fastforce simp: cache_sound_def ID_UNSET_def)

text \<open>What a lookup would write without a cache.\<close>

definition uncached_name :: "(u32 \<Rightarrow> string option) \<Rightarrow> nat \<Rightarrow> u32 \<Rightarrow> string" where
  "uncached_name getname sz uid =
     (if uid = - 1 then take (sz - 1) ''unset'' else if uid = 0 then take (sz - 1) ''root''
      else format_name sz uid (getname uid))"

definition caches_sound :: "(u32 \<Rightarrow> string option) \<Rightarrow> (u32 \<Rightarrow> string option) \<Rightarrow> caches \<Rightarrow> bool" where
  "caches_sound getpwuid getgrgid c \<longleftrightarrow> cache_sound getpwuid (uid_cache c) \<and> cache_sound getgrgid (gid_cache c)"

lemma aulookup_uid_ok:
  assumes "caches_sound getpwuid getgrgid c"
  shows "\<exists>c'. aulookup_uid getpwuid [] sz uid c = Some (uncached_name getpwuid sz uid, c') \<and>
              caches_sound getpwuid getgrgid c'"
proof -
  obtain q where q: "(case uid_cache c of Some q \<Rightarrow> Some q | None \<Rightarrow> init_lru [] 19) = Some q" "cache_sound getpwuid (Some q)"
    using assms cache_sound_init [of getpwuid] by (cases "uid_cache c") (auto simp: caches_sound_def)
  from lookup_cached_sound [OF q(2), of uid] show ?thesis
    using assms q(1) by (auto simp: aulookup_uid_def uncached_name_def caches_sound_def split: option.splits)
qed

lemma aulookup_gid_ok:
  assumes "caches_sound getpwuid getgrgid c"
  shows "\<exists>c'. aulookup_gid getgrgid [] sz gid c = Some (uncached_name getgrgid sz gid, c') \<and>
              caches_sound getpwuid getgrgid c'"
proof -
  obtain q where q: "(case gid_cache c of Some q \<Rightarrow> Some q | None \<Rightarrow> init_lru [] 19) = Some q" "cache_sound getgrgid (Some q)"
    using assms cache_sound_init [of getgrgid] by (cases "gid_cache c") (auto simp: caches_sound_def)
  from lookup_cached_sound [OF q(2), of gid] show ?thesis
    using assms q(1) by (auto simp: aulookup_gid_def uncached_name_def caches_sound_def split: option.splits)
qed

lemma aulookup_destroy_ok:
  assumes "caches_sound getpwuid getgrgid c"
  shows "\<exists>c'. aulookup_destroy_uid_list c = Some c' \<and> caches_sound getpwuid getgrgid c'"
    "\<exists>c'. aulookup_destroy_gid_list c = Some c' \<and> caches_sound getpwuid getgrgid c'"
  using assms destroy_lru_ok
  by (fastforce simp: aulookup_destroy_uid_list_def aulookup_destroy_gid_list_def caches_sound_def cache_sound_def
        split: option.splits)+

text \<open>The calls a program makes, one after the other, and what the lookups among them write.\<close>

datatype name_call = Uid u32 | Gid u32 | Destroy_uid | Destroy_gid

fun run_calls :: "(u32 \<Rightarrow> string option) \<Rightarrow> (u32 \<Rightarrow> string option) \<Rightarrow> nat \<Rightarrow> caches \<Rightarrow> name_call list \<Rightarrow> string list ub" where
  "run_calls pw gr sz c [] = Some []"
| "run_calls pw gr sz c (Uid u # cs) =
     do { (s, c') \<leftarrow> aulookup_uid pw [] sz u c; ss \<leftarrow> run_calls pw gr sz c' cs; Some (s # ss) }"
| "run_calls pw gr sz c (Gid g # cs) =
     do { (s, c') \<leftarrow> aulookup_gid gr [] sz g c; ss \<leftarrow> run_calls pw gr sz c' cs; Some (s # ss) }"
| "run_calls pw gr sz c (Destroy_uid # cs) =
     do { c' \<leftarrow> aulookup_destroy_uid_list c; run_calls pw gr sz c' cs }"
| "run_calls pw gr sz c (Destroy_gid # cs) =
     do { c' \<leftarrow> aulookup_destroy_gid_list c; run_calls pw gr sz c' cs }"

fun direct_names :: "(u32 \<Rightarrow> string option) \<Rightarrow> (u32 \<Rightarrow> string option) \<Rightarrow> nat \<Rightarrow> name_call list \<Rightarrow> string list" where
  "direct_names pw gr sz [] = []"
| "direct_names pw gr sz (Uid u # cs) = uncached_name pw sz u # direct_names pw gr sz cs"
| "direct_names pw gr sz (Gid g # cs) = uncached_name gr sz g # direct_names pw gr sz cs"
| "direct_names pw gr sz (_ # cs) = direct_names pw gr sz cs"

lemma run_calls_ok: "caches_sound pw gr c \<Longrightarrow> run_calls pw gr sz c cs = Some (direct_names pw gr sz cs)"
proof (induction pw gr sz c cs rule: run_calls.induct)
  case (2 pw gr sz c u cs)
  then show ?case using aulookup_uid_ok [of pw gr c sz u] by auto
next
  case (3 pw gr sz c g cs)
  then show ?case using aulookup_gid_ok [of pw gr c sz g] by auto
next
  case (4 pw gr sz c cs)
  then show ?case using aulookup_destroy_ok(1) [of pw gr c] by auto
next
  case (5 pw gr sz c cs)
  then show ?case using aulookup_destroy_ok(2) [of pw gr c] by auto
qed simp

section \<open>Recency\<close>

text \<open>The keys in the order of their last use.\<close>

definition lru_keys :: "lru \<Rightarrow> nat list \<Rightarrow> bool" where
  "lru_keys q ks \<longleftrightarrow>
     (\<exists>xs. lru_rep q xs \<and> list_all2 (\<lambda>k a. k < lru_total q \<and> lru_hash q ! k = Some a) ks xs)"

lemma list_all2_remove1:
  assumes "list_all2 P ks xs" "\<And>k a. k \<in> set ks \<Longrightarrow> a \<in> set xs \<Longrightarrow> P k a \<Longrightarrow> k = key \<longleftrightarrow> a = x"
  shows "list_all2 P (remove1 key ks) (remove1 x xs)"
  using assms by (induction rule: list_all2_induct) auto

lemma check_lru_keys:
  assumes "lru_keys q ks" "key < lru_total q"
  shows "\<exists>x q'. check_lru_cache key q = Some (Some x, q') \<and> lru_keys q' (key # remove1 key ks) \<and> lru_total q' = lru_total q"
proof -
  obtain xs where xs: "lru_rep q xs" "list_all2 (\<lambda>k a. k < lru_total q \<and> lru_hash q ! k = Some a) ks xs"
    using assms(1) by (auto simp: lru_keys_def)
  obtain x q' where c: "check_lru_cache key q = Some (Some x, q')" "lru_total q' = lru_total q"
    "lru_rep q' (x # remove1 x xs)" "lru_hash q' = (lru_hash q)[key := Some x]"
    "case lru_hash q ! key of None \<Rightarrow> x \<notin> set xs \<and> entry q' x = Some (ID_UNSET, None) | Some y \<Rightarrow> x = y \<and> x \<in> set xs"
    using check_lru_cache_ok [OF xs(1) assms(2)] by blast
  have len: "length (lru_hash q) = lru_total q" and hash: "hash_rep (lru_hash q) xs"
    using xs(1) by (simp_all add: lru_rep_def)
  let ?P = "\<lambda>k a. k < lru_total q \<and> lru_hash q ! k = Some a"
  have "k = key \<longleftrightarrow> a = x" if "?P k a" "a \<in> set xs" for k a
  proof (cases "lru_hash q ! key")
    case None
    with c(5) that show ?thesis by auto
  next
    case (Some y)
    then have "lru_hash q ! key = Some x" using c(5) by simp
    with that assms(2) hash len show ?thesis unfolding hash_rep_def by (metis option.inject)
  qed
  then have "list_all2 ?P (remove1 key ks) (remove1 x xs)"
    by (intro list_all2_remove1 [OF xs(2)]) auto
  moreover have "lru_hash q' ! k = lru_hash q ! k" if "k \<noteq> key" for k using c(4) that by simp
  moreover have "key \<notin> set (remove1 key ks)"
  proof -
    have "distinct xs" using xs(1) by (simp add: lru_rep_def list_rep_def)
    then have "distinct ks"
      using xs(2) by (auto simp: distinct_conv_nth list_all2_conv_all_nth) (metis option.inject)
    then show ?thesis by simp
  qed
  ultimately have "list_all2 (\<lambda>k a. k < lru_total q' \<and> lru_hash q' ! k = Some a) (remove1 key ks) (remove1 x xs)"
    using c(2) by (auto simp: list_all2_conv_all_nth) (metis nth_mem)
  then have "lru_keys q' (key # remove1 key ks)"
    using c(2-4) assms(2) len unfolding lru_keys_def by (intro exI [of _ "x # remove1 x xs"]) simp
  with c show ?thesis by blast
qed

fun touch_all :: "nat list \<Rightarrow> lru \<Rightarrow> lru ub" where
  "touch_all [] q = Some q"
| "touch_all (k # ks) q = do { (_, q') \<leftarrow> check_lru_cache k q; touch_all ks q' }"

definition recency :: "nat list \<Rightarrow> nat list \<Rightarrow> nat list" where
  "recency ks acc = fold (\<lambda>k acc. k # remove1 k acc) ks acc"

lemma touch_all_keys:
  "lru_keys q acc \<Longrightarrow> \<forall>k \<in> set ks. k < lru_total q \<Longrightarrow>
     \<exists>q'. touch_all ks q = Some q' \<and> lru_keys q' (recency ks acc) \<and> lru_total q' = lru_total q"
proof (induction ks arbitrary: q acc)
  case Nil
  then show ?case by (simp add: recency_def)
next
  case (Cons k ks)
  then obtain x q' where q': "check_lru_cache k q = Some (Some x, q')" "lru_keys q' (k # remove1 k acc)"
    "lru_total q' = lru_total q"
    using check_lru_keys [of q acc k] by auto
  then obtain q'' where "touch_all ks q' = Some q''" "lru_keys q'' (recency ks (k # remove1 k acc))"
    "lru_total q'' = lru_total q'"
    using Cons.IH [of q' "k # remove1 k acc"] Cons.prems(2) by auto
  with q' show ?case by (auto simp: recency_def)
qed

section \<open>Properties\<close>

text \<open>C15: The caches are transparent as long as memory is available: any sequence of user and group
  lookups, with the caches destroyed and created again at any point, in which no allocation fails
  writes exactly the names of the databases, and never follows a dangling or NULL pointer, finds a
  corrupt list or loops.\<close>

theorem aulookup_transparent:
  "run_calls getpwuid getgrgid sz \<lparr>uid_cache = None, gid_cache = None\<rparr> cs = Some (direct_names getpwuid getgrgid sz cs)"
  by (rule run_calls_ok) (simp add: caches_sound_def)

text \<open>C27: After any sequence of accesses to a new cache, with memory available, the linked list holds
  exactly the keys accessed, in the order of their last access, and the cache never has more entries
  than slots.\<close>

theorem lru_recency_order:
  assumes "0 < n" "\<forall>k \<in> set ks. k < n"
  shows "\<exists>q0 q. init_lru [] n = Some q0 \<and> touch_all ks q0 = Some q \<and> lru_keys q (recency ks []) \<and> lru_count q \<le> n"
proof -
  obtain q0 where q0: "init_lru [] n = Some q0" "lru_rep q0 []" "lru_total q0 = n" using lru_rep_init [OF assms(1)] by blast
  then have "lru_keys q0 []" by (auto simp: lru_keys_def)
  then obtain q where q: "touch_all ks q0 = Some q" "lru_keys q (recency ks [])" "lru_total q = n"
    using touch_all_keys [of q0 "[]" ks] assms(2) q0(3) by auto
  then obtain xs where xs: "lru_rep q xs" "list_all2 (\<lambda>k a. k < n \<and> lru_hash q ! k = Some a) (recency ks []) xs"
    by (auto simp: lru_keys_def)
  have "distinct xs" "lru_count q = length xs" using xs(1) by (simp_all add: lru_rep_def list_rep_def)
  then have "distinct (recency ks [])"
    using xs(2) by (auto simp: distinct_conv_nth list_all2_conv_all_nth) (metis option.inject)
  moreover have "set (recency ks []) \<subseteq> {..<n}"
    using xs(2) by (auto simp: list_all2_conv_all_nth in_set_conv_nth)
  then have "card (set (recency ks [])) \<le> n" by (metis card_lessThan card_mono finite_lessThan)
  ultimately have "length (recency ks []) \<le> n" by (simp add: distinct_card)
  then show ?thesis
    using q0(1) q xs(2) \<open>lru_count q = length xs\<close> by (auto dest: list_all2_lengthD)
qed

theorem lru_recency_order_witness:
  "\<exists>q0 q. init_lru [] 3 = Some q0 \<and> touch_all [1, 2, 1] q0 = Some q \<and> lru_keys q [1, 2] \<and> lru_count q \<le> 3"
  using lru_recency_order [of 3 "[1, 2, 1]"] by (simp add: recency_def)

text \<open>C28: In a consistent cache whose first node \<open>a\<close>, with the key \<open>k\<close>, belongs to another user, let the next
  allocation fail and the later ones succeed. Then the lookup of a user whose key has no entry is
  answered correctly, but it evicts \<open>a\<close> under its own key: the entry of \<open>k\<close> in the table is left pointing
  to the freed node, and every later lookup of a user with that key follows it.\<close>

theorem lru_allocation_failure_dangles:
  assumes "lru_rep q (a # xs)" "lru_heap q a = Some n" "q_id n \<noteq> uid"
    and "k < lru_total q" "lru_hash q ! k = Some a" "lru_hash q ! compute_subject_key q uid = None"
  shows "\<exists>q'. lookup_cached getname uid (q\<lparr>lru_allocs := [False]\<rparr>) = Some (getname uid, q')
    \<and> lru_hash q' ! k = Some a \<and> lru_heap q' a = None
    \<and> (\<forall>v. compute_subject_key q' v = k \<longrightarrow> lookup_cached getname v q' = None)"
proof -
  define key where "key = compute_subject_key q uid"
  have rep: "list_rep q (a # xs)" "hash_rep (lru_hash q) (a # xs)" "lru_count q = Suc (length xs)" "lru_allocs q = []"
    "length (lru_hash q) = lru_total q" "\<forall>b \<in> set (a # xs). b < lru_fresh q" "0 < lru_total q"
    using assms(1) by (simp_all add: lru_rep_def)
  have key: "key < lru_total q" "lru_hash q ! key = None" "k \<noteq> key"
    using rep(7) assms(5,6) by (auto simp: key_def compute_subject_key_def)
  have room: "lru_count q < lru_total q"
    using not_full [OF rep(2) _ _ key(2)] rep(1,3,5) key(1) by (simp add: list_rep_def)
  define q1 where "q1 = q\<lparr>lru_hash := (lru_hash q)[key := None], lru_count := lru_count q + 1, lru_misses := lru_misses q + 1\<rparr>"
  have front: "lru_front q = Some a" using rep(1) by (simp add: list_rep_def)
  have c1: "check_lru_cache key (q\<lparr>lru_allocs := [False]\<rparr>) = Some (Some a, q1)"
    using key room rep(4,5) front
    by (simp add: check_lru_cache_def enqueue_lru_def are_all_slots_full_def new_QNode_def lru_alloc_def
        insert_beginning_def hash_set_def q1_def Let_def)
  have "list_rep q1 (a # xs)" "key < length (lru_hash q1)"
    using rep(1,5) key(1) by (auto simp: q1_def intro: list_rep_cong)
  from evict_links [OF this] obtain q2 where q2: "lru_evict key q1 = Some q2" "list_rep q2 xs"
    "lru_hash q2 = (lru_hash q1)[key := None]" "lru_total q2 = lru_total q1" "lru_count q2 = lru_count q1 - 1"
    "lru_fresh q2 = lru_fresh q1" "lru_allocs q2 = lru_allocs q1" "entry q2 = (entry q1)(a := None)" by blast
  have f: "lru_fresh q \<noteq> a" "lru_fresh q \<notin> set xs" using rep(6) by auto
  have same: "lru_fresh q2 = lru_fresh q" "lru_count q2 = lru_count q" "lru_total q2 = lru_total q" "lru_allocs q2 = []"
    "length (lru_hash q2) = lru_total q" "lru_hash q2 ! key = None" "lru_hash q2 ! k = Some a" "entry q2 a = None"
    using q2(3-8) rep(4,5) key assms(5) by (simp_all add: q1_def)
  obtain q3 where q3: "enqueue_lru key q2 = Some q3" "list_rep q3 (lru_fresh q # xs)"
     "lru_hash q3 = (lru_hash q2)[key := Some (lru_fresh q)]" "lru_total q3 = lru_total q2" "lru_allocs q3 = []"
     "entry q3 = (entry q2)(lru_fresh q \<mapsto> (ID_UNSET, None))"
    using enqueue_links [OF q2(2), of key] same room key(1) f(2) by auto
  define q4 where "q4 = q3\<lparr>lru_misses := lru_misses q3 + 1\<rparr>"
  have front3: "lru_front q3 = Some (lru_fresh q)" using q3(2) by (simp add: list_rep_def)
  then have c2: "check_lru_cache key q2 = Some (Some (lru_fresh q), q4)"
    using same key(1) q3(1) by (simp add: check_lru_cache_def q4_def Let_def)
  obtain m where m: "lru_heap q4 (lru_fresh q) = Some m" using list_rep_node [OF q3(2), of "lru_fresh q"] by (auto simp: q4_def)
  define q' where "q' = (case getname uid of None \<Rightarrow> q4 | Some s \<Rightarrow> store (lru_fresh q) (m\<lparr>q_str := Some s, q_id := uid\<rparr>) q4)"
  have "lookup_cached getname uid (q\<lparr>lru_allocs := [False]\<rparr>) = Some (getname uid, q')"
    using c1 c2 q2(1) m assms(2,3) q3(5)
    by (auto simp: lookup_cached_def compute_subject_key_def key_def deref_def Let_def lru_alloc_def q'_def q1_def q4_def
        split: option.split)
  moreover have hash: "lru_hash q' ! k = Some a" "lru_total q' = lru_total q" "length (lru_hash q') = lru_total q"
    "lru_front q' = Some (lru_fresh q)"
    using q3(3,4) same key(3) front3 by (simp_all add: q'_def q4_def store_def split: option.split)
  moreover have heap: "lru_heap q' a = None"
  proof -
    have "entry q3 a = None" using q3(6) same(8) f(1) by simp
    then show ?thesis using f(1) by (auto simp: q'_def q4_def entry_def split: option.split)
  qed
  moreover have "lookup_cached getname v q' = None" if "compute_subject_key q' v = k" for v
    using that hash heap f(1) assms(4)
    by (simp add: lookup_cached_def check_lru_cache_def remove_node_def deref_def Let_def)
  ultimately show ?thesis by blast
qed

definition one_user :: lru where
  "one_user = \<lparr>lru_count = 1, lru_total = 19, lru_hits = 0, lru_misses = 1, lru_evictions = 0, lru_front = Some 0, lru_end = Some 0,
     lru_hash = [None, Some 0] @ replicate 17 None,
     lru_heap = [0 \<mapsto> \<lparr>q_prev = None, q_next = None, q_uses = 1, q_id = 1, q_str = Some ''bob''\<rparr>], lru_fresh = 1, lru_allocs = []\<rparr>"

theorem lru_allocation_failure_dangles_witness:
  "\<exists>q'. lookup_cached (\<lambda>_. Some ''eve'') 2 (one_user\<lparr>lru_allocs := [False]\<rparr>) = Some (Some ''eve'', q')
    \<and> lru_hash q' ! 1 = Some 0 \<and> lru_heap q' 0 = None
    \<and> (\<forall>v. compute_subject_key q' v = 1 \<longrightarrow> lookup_cached (\<lambda>_. Some ''eve'') v q' = None)"
proof -
  have "hash_rep ([None, Some 0] @ replicate 17 None) [0]"
    by (auto simp: hash_rep_def nth_append nth_Cons split: nat.splits if_splits)
  then have "lru_rep one_user [0]" by (simp add: one_user_def lru_rep_def list_rep_def)
  moreover have "compute_subject_key one_user 2 = 2" by (simp add: compute_subject_key_def one_user_def)
  ultimately show ?thesis
    using lru_allocation_failure_dangles [of one_user 0 "[]" _ 2 1 "\<lambda>_. Some ''eve''"] by (simp add: one_user_def nth_append)
qed

end
