(* ===== verification/Strsplit.thy ===== *)
theory Strsplit
  imports Audit_Prelude "HOL-Library.Monad_Syntax"
begin

text \<open>
  The tokenizer of \<open>common/strsplit.c\<close>, which cuts a string at its blanks in place.

  The string lives in a block of memory (a list of characters that holds a NUL); pointers into it
  are positions. Reading on behind the last NUL of the block is undefined and gives \<open>None\<close>.
\<close>

section \<open>Strings in memory\<close>

definition string_at :: "string \<Rightarrow> nat \<Rightarrow> string ub" where
  "string_at mem i = (if NUL \<in> set (drop i mem) then Some (cstr (drop i mem)) else None)"

lemma string_at_inside: "string_at mem i = Some s \<Longrightarrow> i < length mem"
  by (rule ccontr) (simp add: string_at_def)

definition strchr :: "char \<Rightarrow> string \<Rightarrow> nat option" where
  "strchr c s = (if c \<in> set s then Some (length (takeWhile (\<lambda>d. d \<noteq> c) s)) else None)"

abbreviation blank :: char where
  "blank \<equiv> CHR '' ''"

section \<open>Splitting\<close>

text \<open>From the label \<open>retry\<close> on: the token (or NULL), the memory and the saved pointer.\<close>

function strsplit_from :: "string \<Rightarrow> nat \<Rightarrow> (nat option \<times> string \<times> nat option) ub" where
  "strsplit_from mem i =
     (case string_at mem i of
        None \<Rightarrow> None
      | Some s \<Rightarrow>
          (case strchr blank s of
             Some k \<Rightarrow>
               if k = 0 then strsplit_from mem (i + 1)
               else Some (Some i, mem[i + k := NUL], Some (i + k))
           | None \<Rightarrow> Some (if s = [] then None else Some i, mem, None)))"
  by pat_completeness auto
termination
  by (relation "measure (\<lambda>(mem, i). length mem - i)") (auto dest: string_at_inside)

declare strsplit_from.simps [simp del]

definition audit_strsplit_r :: "nat option \<Rightarrow> nat option \<Rightarrow> string \<Rightarrow> (nat option \<times> string \<times> nat option) ub" where
  "audit_strsplit_r s savedpp mem =
     (case s of
        Some i \<Rightarrow> strsplit_from mem i
      | None \<Rightarrow>
          (case savedpp of
             None \<Rightarrow> Some (None, mem, None)
           | Some i \<Rightarrow> strsplit_from mem (i + 1)))"

text \<open>The same with the saved pointer in a static variable.\<close>

definition audit_strsplit :: "nat option \<Rightarrow> nat option \<Rightarrow> string \<Rightarrow> (nat option \<times> string \<times> nat option) ub" where
  "audit_strsplit s str mem =
     (case s of
        Some i \<Rightarrow> strsplit_from mem i
      | None \<Rightarrow>
          (case str of
             None \<Rightarrow> Some (None, mem, None)
           | Some i \<Rightarrow> strsplit_from mem (i + 1)))"

text \<open>A client's loop: a first call with the string, then calls with NULL until NULL is returned.\<close>

fun split_rest :: "nat \<Rightarrow> nat option \<Rightarrow> string \<Rightarrow> (nat list \<times> string) ub" where
  "split_rest 0 saved mem = None"
| "split_rest (Suc n) saved mem =
     (case audit_strsplit_r None saved mem of
        None \<Rightarrow> None
      | Some (None, mem', _) \<Rightarrow> Some ([], mem')
      | Some (Some i, mem', saved') \<Rightarrow>
          (case split_rest n saved' mem' of None \<Rightarrow> None | Some (is, mem'') \<Rightarrow> Some (i # is, mem'')))"

definition split_all :: "nat \<Rightarrow> string \<Rightarrow> (nat list \<times> string) ub" where
  "split_all n mem =
     (case audit_strsplit_r (Some 0) None mem of
        None \<Rightarrow> None
      | Some (None, mem', _) \<Rightarrow> Some ([], mem')
      | Some (Some i, mem', saved') \<Rightarrow>
          (case split_rest n saved' mem' of None \<Rightarrow> None | Some (is, mem'') \<Rightarrow> Some (i # is, mem'')))"

section \<open>The words of a string\<close>

function words_of :: "string \<Rightarrow> string list" where
  "words_of s =
     (let t = dropWhile (\<lambda>c. c = blank) s
      in if t = [] then [] else takeWhile (\<lambda>c. c \<noteq> blank) t # words_of (dropWhile (\<lambda>c. c \<noteq> blank) t))"
  by pat_completeness auto
termination
proof (relation "measure length", simp)
  fix s t :: string
  assume t: "t = dropWhile (\<lambda>c. c = blank) s" "t \<noteq> []"
  then have "hd t \<noteq> blank" using hd_dropWhile by blast
  then have "length (dropWhile (\<lambda>c. c \<noteq> blank) t) < length t"
    using t(2) by (cases t) (auto intro: le_less_trans [OF length_dropWhile_le])
  also have "length t \<le> length s" unfolding t(1) by (rule length_dropWhile_le)
  finally show "(dropWhile (\<lambda>c. c \<noteq> blank) t, s) \<in> measure length" by simp
qed

declare words_of.simps [simp del]

lemma words_of_Nil [simp]: "words_of [] = []"
  by (simp add: words_of.simps [of "[]"])

lemma words_of_blank [simp]: "words_of (blank # s) = words_of s"
  by (simp add: words_of.simps [of "blank # s"] words_of.simps [of s])

lemma words_of_word:
  "w \<noteq> [] \<Longrightarrow> blank \<notin> set w \<Longrightarrow> words_of (w @ blank # s) = w # words_of s"
proof -
  assume w: "w \<noteq> []" "blank \<notin> set w"
  then have "dropWhile (\<lambda>c. c = blank) (w @ blank # s) = w @ blank # s" by (cases w) auto
  moreover have "takeWhile (\<lambda>c. c \<noteq> blank) (w @ blank # s) = w" "dropWhile (\<lambda>c. c \<noteq> blank) (w @ blank # s) = blank # s"
    using w by (auto simp: takeWhile_append dropWhile_append)
  ultimately show ?thesis using w by (simp add: words_of.simps [of "w @ blank # s"])
qed

lemma words_of_last: "w \<noteq> [] \<Longrightarrow> blank \<notin> set w \<Longrightarrow> words_of w = [w]"
proof -
  assume w: "w \<noteq> []" "blank \<notin> set w"
  then have "dropWhile (\<lambda>c. c = blank) w = w" by (cases w) auto
  moreover have "takeWhile (\<lambda>c. c \<noteq> blank) w = w" using w(2) by (induction w) auto
  moreover have "dropWhile (\<lambda>c. c \<noteq> blank) w = []" using w(2) by (induction w) auto
  ultimately have "words_of w = (if w = [] then [] else w # words_of [])"
    by (subst words_of.simps) (simp only: Let_def)
  then show ?thesis using w by simp
qed

section \<open>Correctness\<close>

lemma string_at_append: "is_cstr w \<Longrightarrow> string_at (p @ w @ NUL # t) (length p) = Some w"
  by (simp add: string_at_def)

lemma strchr_first: "c \<notin> set w \<Longrightarrow> strchr c (w @ c # s) = Some (length w)"
  by (auto simp: strchr_def takeWhile_append)

lemmas strchr_word = strchr_first [of blank]

lemma is_cstr_append [simp]: "is_cstr (s @ t) \<longleftrightarrow> is_cstr s \<and> is_cstr t" "is_cstr []" "is_cstr (c # s) \<longleftrightarrow> c \<noteq> NUL \<and> is_cstr s"
  by (auto simp: is_cstr_def)

text \<open>One call either finds the next word and cuts it off, or finds that there is none.\<close>

lemma strsplit_from_step:
  "is_cstr s \<Longrightarrow>
     (words_of s = [] \<and> strsplit_from (p @ s @ NUL # t) (length p) = Some (None, p @ s @ NUL # t, None)) \<or>
     (\<exists>b w. s = b @ w \<and> words_of s = [w] \<and>
        strsplit_from (p @ s @ NUL # t) (length p) = Some (Some (length (p @ b)), p @ s @ NUL # t, None)) \<or>
     (\<exists>b w r. s = b @ w @ blank # r \<and> words_of s = w # words_of r \<and>
        strsplit_from (p @ s @ NUL # t) (length p) =
          Some (Some (length (p @ b)), p @ b @ w @ NUL # r @ NUL # t, Some (length (p @ b @ w))))"
proof (induction s arbitrary: p)
  case Nil
  have "string_at (p @ NUL # t) (length p) = Some []" using string_at_append [OF Nil, of p t] by simp
  then show ?case by (simp add: strsplit_from.simps [of "p @ NUL # t" "length p"] strchr_def)
next
  case (Cons c s)
  let ?m = "p @ (c # s) @ NUL # t"
  have at: "string_at ?m (length p) = Some (c # s)" using Cons.prems string_at_append by blast
  show ?case
  proof (cases "c = blank")
    case True
    have "strchr blank (c # s) = Some 0" using True by (simp add: strchr_def)
    then have "strsplit_from ?m (length p) = strsplit_from ((p @ [c]) @ s @ NUL # t) (length (p @ [c]))"
      using at by (simp add: strsplit_from.simps [of "p @ c # s @ NUL # t" "length p"])
    note eq = this
    have "is_cstr s" using Cons.prems by simp
    from Cons.IH [OF this, of "p @ [c]"] show ?thesis
    proof (elim disjE exE conjE)
      fix b w
      assume "s = b @ w" "words_of s = [w]" "strsplit_from ((p @ [c]) @ s @ NUL # t) (length (p @ [c])) =
        Some (Some (length ((p @ [c]) @ b)), (p @ [c]) @ s @ NUL # t, None)"
      then show ?thesis
        using eq True by (intro disjI2 disjI1 exI [of _ "c # b"] exI [of _ w]) simp
    next
      fix b w r
      assume "s = b @ w @ blank # r" "words_of s = w # words_of r"
        "strsplit_from ((p @ [c]) @ s @ NUL # t) (length (p @ [c])) =
          Some (Some (length ((p @ [c]) @ b)), (p @ [c]) @ b @ w @ NUL # r @ NUL # t, Some (length ((p @ [c]) @ b @ w)))"
      then show ?thesis
        using eq True by (intro disjI2 exI [of _ "c # b"] exI [of _ w] exI [of _ r]) simp
    qed (use eq True in simp)
  next
    case False
    show ?thesis
    proof (cases "blank \<in> set s")
      case True
      then obtain w r where wr: "s = w @ blank # r" "blank \<notin> set w" by (meson split_list_first)
      with False have "strchr blank (c # s) = Some (length (c # w))" using strchr_word [of "c # w" r] by simp
      then have "strsplit_from ?m (length p) = Some (Some (length p), ?m[length p + length (c # w) := NUL], Some (length p + length (c # w)))"
        using at by (simp add: strsplit_from.simps [of "p @ c # s @ NUL # t" "length p"])
      moreover have "?m[length p + length (c # w) := NUL] = p @ [] @ (c # w) @ NUL # r @ NUL # t"
        using wr(1) by (simp add: list_update_append)
      moreover have "words_of (c # s) = (c # w) # words_of r"
        using wr False words_of_word [of "c # w" r] by simp
      moreover have "c # s = [] @ (c # w) @ blank # r" using wr by simp
      ultimately show ?thesis
        by (intro disjI2 exI [of _ "[]"] exI [of _ "c # w"] exI [of _ r]) simp
    next
      case False': False
      with False have "strchr blank (c # s) = None" by (simp add: strchr_def)
      then have "strsplit_from ?m (length p) = Some (Some (length p), ?m, None)"
        using at by (simp add: strsplit_from.simps [of "p @ c # s @ NUL # t" "length p"])
      moreover have "words_of (c # s) = [c # s]" using words_of_last [of "c # s"] False False' by simp
      ultimately show ?thesis
        by (intro disjI2 disjI1 exI [of _ "[]"] exI [of _ "c # s"]) simp
    qed
  qed
qed

lemma split_rest_done [simp]: "split_rest (Suc n) None mem = Some ([], mem)"
  by (simp add: audit_strsplit_r_def)

lemma split_rest_words:
  "is_cstr s \<Longrightarrow> length s + 1 < n \<Longrightarrow>
     \<exists>is m. split_rest n (Some (length p)) (p @ NUL # s @ NUL # t) = Some (is, p @ NUL # m) \<and>
            map (string_at (p @ NUL # m)) is = map Some (words_of s) \<and> length m = length s + 1 + length t"
proof (induction "length s" arbitrary: s p n rule: less_induct)
  case less
  define k where "k = n - 2"
  then have n: "n = Suc (Suc k)" using less.prems(2) by simp
  let ?p = "p @ [NUL]"
  from strsplit_from_step [OF less.prems(1), of ?p t] show ?case
  proof (elim disjE exE conjE)
    assume "words_of s = []" "strsplit_from (?p @ s @ NUL # t) (length ?p) = Some (None, ?p @ s @ NUL # t, None)"
    then show ?thesis
      unfolding n by (intro exI [of _ "[]"] exI [of _ "s @ NUL # t"]) (simp add: audit_strsplit_r_def)
  next
    fix b w
    assume s: "s = b @ w" "words_of s = [w]"
      "strsplit_from (?p @ s @ NUL # t) (length ?p) = Some (Some (length (?p @ b)), ?p @ s @ NUL # t, None)"
    have "string_at ((?p @ b) @ w @ NUL # t) (length (?p @ b)) = Some w"
      using less.prems(1) s(1) by (intro string_at_append) simp
    moreover have "split_rest n (Some (length p)) (p @ NUL # s @ NUL # t) = Some ([length (?p @ b)], p @ NUL # s @ NUL # t)"
      using s(3) unfolding n split_rest.simps(2) [of "Suc k"] split_rest_done by (simp add: audit_strsplit_r_def)
    ultimately show ?thesis
      using s(1,2) by (intro exI [of _ "[length (?p @ b)]"] exI [of _ "s @ NUL # t"]) simp
  next
    fix b w r
    assume s: "s = b @ w @ blank # r" "words_of s = w # words_of r"
      "strsplit_from (?p @ s @ NUL # t) (length ?p) =
         Some (Some (length (?p @ b)), ?p @ b @ w @ NUL # r @ NUL # t, Some (length (?p @ b @ w)))"
    have "length r < length s" "is_cstr r" "length r + 1 < Suc k" using s(1) less.prems n by auto
    from less.hyps [OF this, of "?p @ b @ w"] obtain js m where
      m: "split_rest (Suc k) (Some (length (?p @ b @ w))) ((?p @ b @ w) @ NUL # r @ NUL # t) = Some (js, (?p @ b @ w) @ NUL # m)"
      "map (string_at ((?p @ b @ w) @ NUL # m)) js = map Some (words_of r)" "length m = length r + 1 + length t" by blast
    have "string_at ((?p @ b) @ w @ NUL # m) (length (?p @ b)) = Some w"
      using less.prems(1) s(1) by (intro string_at_append) simp
    moreover have "split_rest n (Some (length p)) (p @ NUL # s @ NUL # t) = Some (length (?p @ b) # js, p @ NUL # b @ w @ NUL # m)"
      using s(3) m(1) unfolding n split_rest.simps(2) [of "Suc k"] by (simp add: audit_strsplit_r_def del: split_rest.simps)
    ultimately show ?thesis
      using s(1,2) m(2,3) by (intro exI [of _ "length (?p @ b) # js"] exI [of _ "b @ w @ NUL # m"]) simp
  qed
qed

lemma split_all_words:
  assumes "is_cstr s"
  shows "\<exists>is mem. split_all (length s + 2) (s @ [NUL]) = Some (is, mem) \<and> length mem = length s + 1 \<and>
           map (string_at mem) is = map Some (words_of s)"
  using strsplit_from_step [OF assms, of "[]" "[]"]
proof (elim disjE exE conjE)
  fix b w
  assume s: "s = b @ w" "words_of s = [w]" "strsplit_from ([] @ s @ [NUL]) (length []) = Some (Some (length ([] @ b)), [] @ s @ [NUL], None)"
  moreover have "string_at (b @ w @ [NUL]) (length b) = Some w"
    using assms s(1) by (intro string_at_append) simp
  ultimately show ?thesis by (simp add: split_all_def audit_strsplit_r_def)
next
  fix b w r
  assume s: "s = b @ w @ blank # r" "words_of s = w # words_of r"
    "strsplit_from ([] @ s @ [NUL]) (length []) =
       Some (Some (length ([] @ b)), [] @ b @ w @ NUL # r @ [NUL], Some (length ([] @ b @ w)))"
  have "is_cstr r" "length r + 1 < length s + 2" using s(1) assms by auto
  from split_rest_words [OF this, of "b @ w" "[]"] obtain js m where
    m: "split_rest (length s + 2) (Some (length (b @ w))) ((b @ w) @ NUL # r @ [NUL]) = Some (js, (b @ w) @ NUL # m)"
    "map (string_at ((b @ w) @ NUL # m)) js = map Some (words_of r)" "length m = length r + 1"
    by (auto simp del: split_rest.simps)
  have "string_at (b @ w @ NUL # m) (length b) = Some w"
    using assms s(1) by (intro string_at_append) simp
  moreover have "split_all (length s + 2) (s @ [NUL]) = Some (length b # js, b @ w @ NUL # m)"
    using s(3) m(1) by (simp add: split_all_def audit_strsplit_r_def del: split_rest.simps)
  ultimately show ?thesis
    using s(1,2) m(2,3) by (intro exI [of _ "length b # js"] exI [of _ "b @ w @ NUL # m"]) (simp del: split_rest.simps)
qed (simp add: split_all_def audit_strsplit_r_def)

text \<open>Calling \<open>audit_strsplit_r\<close> until it returns NULL yields exactly the words of the string, in
  order and without empty ones, ends after at most one call per character and two more, never reads
  outside the string, and leaves every token readable in the memory it has cut.\<close>

theorem audit_strsplit_words:
  assumes "is_cstr s"
  shows "\<exists>is mem. split_all (length s + 2) (s @ [NUL]) = Some (is, mem) \<and> length mem = length s + 1 \<and>
           map (string_at mem) is = map Some (words_of s)"
  by (rule split_all_words [OF assms])

theorem audit_strsplit_words_witness:
  "\<exists>is mem. split_all 6 ('' a b'' @ [NUL]) = Some (is, mem) \<and> length mem = 5 \<and>
           map (string_at mem) is = map Some [''a'', ''b'']"
proof -
  have "is_cstr '' a b''" "words_of '' a b'' = [''a'', ''b'']" by code_simp+
  moreover have "length '' a b'' + 2 = 6" "length '' a b'' + 1 = 5" by simp_all
  ultimately show ?thesis using audit_strsplit_words [of "'' a b''"] by (simp only:)
qed

end
