(* ===== verification/Fgets.thy ===== *)
theory Fgets
  imports Strsplit
begin

text \<open>
  The line reader of \<open>common/audit-fgets.c\<close>, through which every plugin and tool reads records.

  The static buffer is the list of the bytes held in it; the byte behind them is always NUL. The
  file descriptor is the data still to come together with a schedule of how the calls of
  \<open>read\<close> turn out (interrupted, failed, short); when the schedule is used up, reads are full.
\<close>

section \<open>Reading\<close>

datatype read_outcome = Rd_eintr | Rd_fail | Rd_upto nat

record fd =
  fd_data :: string
  fd_sched :: "read_outcome list"

text \<open>\<open>read\<close> into a buffer with room for \<open>n\<close> bytes, repeated while it is interrupted; \<open>None\<close> is an
  error. A read of at most \<open>k + 1\<close> bytes is scheduled by \<open>Rd_upto k\<close>.\<close>

fun read_retry :: "nat \<Rightarrow> string \<Rightarrow> read_outcome list \<Rightarrow> string option \<times> fd" where
  "read_retry n d [] = (Some (take n d), \<lparr>fd_data = drop n d, fd_sched = []\<rparr>)"
| "read_retry n d (Rd_eintr # s) = read_retry n d s"
| "read_retry n d (Rd_fail # s) = (None, \<lparr>fd_data = d, fd_sched = s\<rparr>)"
| "read_retry n d (Rd_upto k # s) =
     (Some (take (min n (k + 1)) d), \<lparr>fd_data = drop (min n (k + 1)) d, fd_sched = s\<rparr>)"

definition BUF_SIZE :: nat where
  "BUF_SIZE = 8192"

abbreviation newline :: char where
  "newline \<equiv> CHR 0x0A"

record fgets_state =
  fg_held :: string
  fg_eof :: bool

definition fgets_init :: fgets_state where
  "fgets_init = \<lparr>fg_held = [], fg_eof = False\<rparr>"

definition audit_fgets_eof :: "fgets_state \<Rightarrow> bool" where
  "audit_fgets_eof st = fg_eof st"

text \<open>\<open>strchr (buffer, '\\n')\<close> stops at the first NUL byte.\<close>

definition find_newline :: "string \<Rightarrow> nat option" where
  "find_newline held = strchr newline (cstr held)"

definition audit_fgets_more :: "nat \<Rightarrow> fgets_state \<Rightarrow> bool ub" where
  "audit_fgets_more blen st =
     (if blen = 0 then None
      else Some (find_newline (fg_held st) \<noteq> None \<or> length (fg_held st) \<ge> blen - 1))"

text \<open>The end of a line already in the buffer, or the last byte when there is enough to fill \<open>buf\<close>.\<close>

definition buffered_end :: "nat \<Rightarrow> string \<Rightarrow> nat option" where
  "buffered_end blen held =
     (if held = [] then None
      else case find_newline held of
        Some k \<Rightarrow> Some k
      | None \<Rightarrow> if length held \<ge> blen - 1 then Some (length held - 1) else None)"

text \<open>How much to hand out, \<open>None\<close> when the line is not complete.\<close>

definition line_length :: "nat \<Rightarrow> nat option \<Rightarrow> string \<Rightarrow> nat option" where
  "line_length blen line_end held =
     (case line_end of
        Some k \<Rightarrow> Some (min (k + 1) (blen - 1))
      | None \<Rightarrow>
          if length held = 2 * BUF_SIZE then Some (blen - 1)
          else if length held \<ge> blen - 1 then Some (blen - 1)
          else None)"

text \<open>\<open>audit_fgets\<close>: the return value with the line written to \<open>buf\<close>. Handing out more than is held
  would read behind the data and let the length of the remainder wrap around.\<close>

definition hand_out :: "nat \<Rightarrow> nat option \<Rightarrow> fgets_state \<Rightarrow> fd \<Rightarrow> (int \<times> string \<times> fgets_state \<times> fd) ub" where
  "hand_out blen line_end st f =
     (case line_length blen line_end (fg_held st) of
        None \<Rightarrow> Some (0, [], st, f)
      | Some line_len \<Rightarrow>
          if line_len > length (fg_held st) then None
          else Some (1, take line_len (fg_held st), st\<lparr>fg_held := drop line_len (fg_held st)\<rparr>, f))"

definition audit_fgets :: "nat \<Rightarrow> fgets_state \<Rightarrow> fd \<Rightarrow> (int \<times> string \<times> fgets_state \<times> fd) ub" where
  "audit_fgets blen st f =
     (if blen = 0 then None
      else
        let line_end = buffered_end blen (fg_held st) in
        if line_end = None \<and> length (fg_held st) \<noteq> 2 * BUF_SIZE \<and> \<not> fg_eof st then
          (case read_retry (2 * BUF_SIZE - length (fg_held st)) (fd_data f) (fd_sched f) of
             (None, f') \<Rightarrow> Some (- 1, [], st, f')
           | (Some bytes, f') \<Rightarrow>
               let st' = \<lparr>fg_held = fg_held st @ bytes, fg_eof = (bytes = [])\<rparr>
               in hand_out blen (find_newline (fg_held st')) st' f')
        else hand_out blen line_end st f)"

text \<open>The loop of the clients: take lines until there are none and the end of the file is reached, or
  reading fails.\<close>

fun read_lines :: "nat \<Rightarrow> nat \<Rightarrow> fgets_state \<Rightarrow> fd \<Rightarrow> (string list \<times> fgets_state \<times> fd) ub" where
  "read_lines 0 blen st f = None"
| "read_lines (Suc n) blen st f =
     (case audit_fgets blen st f of
        None \<Rightarrow> None
      | Some (rc, line, st', f') \<Rightarrow>
          if rc = 1 then map_option (\<lambda>(ls, r). (line # ls, r)) (read_lines n blen st' f')
          else if rc = 0 \<and> \<not> audit_fgets_eof st' then read_lines n blen st' f'
          else Some ([], st', f'))"

section \<open>The lines of a text\<close>

text \<open>The next line: up to and with its newline, cut at \<open>blen - 1\<close> characters.\<close>

definition next_line :: "nat \<Rightarrow> string \<Rightarrow> nat option" where
  "next_line blen d =
     (if newline \<in> set d then Some (min (length (takeWhile (\<lambda>c. c \<noteq> newline) d) + 1) (blen - 1))
      else if length d \<ge> blen - 1 then Some (blen - 1)
      else None)"

function text_lines :: "nat \<Rightarrow> string \<Rightarrow> string list" where
  "text_lines blen d =
     (case next_line blen d of
        None \<Rightarrow> []
      | Some n \<Rightarrow> if n = 0 then [] else take n d # text_lines blen (drop n d))"
  by pat_completeness auto
termination
proof (relation "measure (length \<circ> snd)", simp)
  fix blen d n
  assume "next_line blen d = Some n" "n \<noteq> 0"
  then have "d \<noteq> []" by (cases d) (auto simp: next_line_def split: if_splits)
  with \<open>n \<noteq> 0\<close> show "((blen, drop n d), blen, d) \<in> measure (length \<circ> snd)" by simp
qed

function text_rest :: "nat \<Rightarrow> string \<Rightarrow> string" where
  "text_rest blen d =
     (case next_line blen d of
        None \<Rightarrow> d
      | Some n \<Rightarrow> if n = 0 then d else text_rest blen (drop n d))"
  by pat_completeness auto
termination
proof (relation "measure (length \<circ> snd)", simp)
  fix blen d n
  assume "next_line blen d = Some n" "n \<noteq> 0"
  then have "d \<noteq> []" by (cases d) (auto simp: next_line_def split: if_splits)
  with \<open>n \<noteq> 0\<close> show "((blen, drop n d), blen, d) \<in> measure (length \<circ> snd)" by simp
qed

declare text_lines.simps [simp del] text_rest.simps [simp del]

section \<open>Correctness\<close>

lemma length_takeWhile_lt: "x \<in> set xs \<Longrightarrow> length (takeWhile (\<lambda>c. c \<noteq> x) xs) < length xs"
  by (induction xs) auto

lemma next_line_bounds:
  assumes "next_line blen d = Some n" "2 \<le> blen"
  shows "0 < n" "n \<le> length d" "n \<le> blen - 1"
  using assms length_takeWhile_lt [of newline d] by (auto simp: next_line_def split: if_splits)

lemma next_line_append:
  assumes "next_line blen d = Some n" "2 \<le> blen"
  shows "next_line blen (d @ x) = Some n"
proof (cases "newline \<in> set d")
  case True
  then have "takeWhile (\<lambda>c. c \<noteq> newline) (d @ x) = takeWhile (\<lambda>c. c \<noteq> newline) d"
    by (simp add: takeWhile_append1)
  with True assms show ?thesis by (simp add: next_line_def)
next
  case False
  with assms have "blen - 1 \<le> length d" "n = blen - 1" by (auto simp: next_line_def split: if_splits)
  moreover have "length (takeWhile (\<lambda>c. c \<noteq> newline) (d @ x)) \<ge> length d" using False by (induction d) auto
  ultimately show ?thesis using assms(2) by (simp add: next_line_def)
qed

lemma find_newline_text: "is_cstr d \<Longrightarrow> find_newline d = strchr newline d"
  by (simp add: find_newline_def cstr_id)

text \<open>Both ways through the function hand out the next line of what is held.\<close>

lemma hand_out_held:
  assumes "is_cstr (fg_held st)" "2 \<le> blen" "blen \<le> 2 * BUF_SIZE + 1" "length (fg_held st) \<le> 2 * BUF_SIZE"
    "le = find_newline (fg_held st) \<or> le = buffered_end blen (fg_held st)"
  shows "hand_out blen le st f =
     (case next_line blen (fg_held st) of
        None \<Rightarrow> Some (0, [], st, f)
      | Some n \<Rightarrow> Some (1, take n (fg_held st), st\<lparr>fg_held := drop n (fg_held st)\<rparr>, f))"
proof -
  have "line_length blen le (fg_held st) = next_line blen (fg_held st)"
    using assms find_newline_text [OF assms(1)]
    by (auto simp: line_length_def next_line_def buffered_end_def strchr_def split: if_splits)
  then show ?thesis
    using next_line_bounds [of blen "fg_held st"] assms(2) by (auto simp: hand_out_def split: option.split)
qed

lemma buffered_end_None:
  "is_cstr d \<Longrightarrow> 2 \<le> blen \<Longrightarrow> buffered_end blen d = None \<longleftrightarrow> next_line blen d = None"
  by (auto simp: buffered_end_def next_line_def find_newline_text strchr_def)

lemma read_retry_ok:
  assumes "Rd_fail \<notin> set s" "0 < n"
  shows "\<exists>b f'. read_retry n d s = (Some b, f') \<and> b @ fd_data f' = d \<and> length b \<le> n \<and> (b = [] \<longrightarrow> d = []) \<and>
     Rd_fail \<notin> set (fd_sched f')"
  using assms by (induction n d s rule: read_retry.induct) auto

definition reader_ok :: "nat \<Rightarrow> fgets_state \<Rightarrow> fd \<Rightarrow> bool" where
  "reader_ok blen st f \<longleftrightarrow>
     2 \<le> blen \<and> blen \<le> 2 * BUF_SIZE + 1 \<and> is_cstr (fg_held st @ fd_data f) \<and>
     length (fg_held st) \<le> 2 * BUF_SIZE \<and> Rd_fail \<notin> set (fd_sched f) \<and> (fg_eof st \<longrightarrow> fd_data f = [])"

lemma reader_okD:
  assumes "reader_ok blen st f"
  shows "2 \<le> blen" "blen \<le> 2 * BUF_SIZE + 1" "is_cstr (fg_held st)" "is_cstr (fd_data f)"
    "length (fg_held st) \<le> 2 * BUF_SIZE" "Rd_fail \<notin> set (fd_sched f)"
  using assms by (auto simp: reader_ok_def)

text \<open>One call: the next line of the text to come, or the end of the file, or more data in the buffer.\<close>

lemma audit_fgets_step:
  assumes "reader_ok blen st f"
  shows "\<exists>st' f'. reader_ok blen st' f' \<and>
     ((\<exists>n. next_line blen (fg_held st @ fd_data f) = Some n \<and> 0 < n \<and> n \<le> length (fg_held st @ fd_data f) \<and>
         audit_fgets blen st f = Some (1, take n (fg_held st @ fd_data f), st', f') \<and>
         fg_held st' @ fd_data f' = drop n (fg_held st @ fd_data f) \<and> length (fd_data f') \<le> length (fd_data f)) \<or>
      (audit_fgets blen st f = Some (0, [], st', f') \<and> fg_held st' @ fd_data f' = fg_held st @ fd_data f \<and>
         (if fg_eof st' then next_line blen (fg_held st @ fd_data f) = None \<and> fd_data f' = []
          else length (fd_data f') < length (fd_data f))))"
proof (cases "next_line blen (fg_held st)")
  case (Some n)
  note ok = reader_okD [OF assms]
  note n = next_line_bounds [OF Some ok(1)]
  have "audit_fgets blen st f = Some (1, take n (fg_held st), st\<lparr>fg_held := drop n (fg_held st)\<rparr>, f)"
    using ok(1) Some buffered_end_None [OF ok(3,1)] hand_out_held [OF ok(3,1,2,5), of "buffered_end blen (fg_held st)" f]
    by (auto simp: audit_fgets_def Let_def)
  moreover have "reader_ok blen (st\<lparr>fg_held := drop n (fg_held st)\<rparr>) f"
    using assms by (auto simp: reader_ok_def is_cstr_def dest: in_set_dropD)
  ultimately show ?thesis
    using n next_line_append [OF Some ok(1), of "fd_data f"]
    by (intro exI [of _ "st\<lparr>fg_held := drop n (fg_held st)\<rparr>"] exI [of _ f]) auto
next
  case None
  note ok = reader_okD [OF assms]
  have le: "buffered_end blen (fg_held st) = None" using None buffered_end_None [OF ok(3,1)] by simp
  have short: "length (fg_held st) < 2 * BUF_SIZE" using None ok(1,2) by (auto simp: next_line_def split: if_splits)
  show ?thesis
  proof (cases "fg_eof st")
    case True
    then have "audit_fgets blen st f = Some (0, [], st, f)" "fd_data f = []"
      using assms ok(1) None le hand_out_held [OF ok(3,1,2,5), of None f] by (auto simp: audit_fgets_def reader_ok_def)
    with True assms None show ?thesis by (intro exI [of _ st] exI [of _ f]) simp
  next
    case False
    obtain b f' where b: "read_retry (2 * BUF_SIZE - length (fg_held st)) (fd_data f) (fd_sched f) = (Some b, f')"
      "b @ fd_data f' = fd_data f" "length b \<le> 2 * BUF_SIZE - length (fg_held st)" "b = [] \<longrightarrow> fd_data f = []"
      "Rd_fail \<notin> set (fd_sched f')"
      using read_retry_ok [OF ok(6), of "2 * BUF_SIZE - length (fg_held st)" "fd_data f"] short by auto
    define st' where "st' = \<lparr>fg_held = fg_held st @ b, fg_eof = (b = [])\<rparr>"
    have cs: "is_cstr (fg_held st')" "is_cstr (fd_data f')"
      using ok(3,4) b(2) [symmetric] by (simp_all add: st'_def)
    have len: "length (fg_held st') \<le> 2 * BUF_SIZE" using b(3) short by (simp add: st'_def)
    have rest: "fd_data f' = []" if "b = []" using b(2,4) that by simp
    have "reader_ok blen st' f'"
      using ok(1,2) cs len b(5) rest by (simp add: reader_ok_def st'_def)
    have call: "audit_fgets blen st f = hand_out blen (find_newline (fg_held st')) st' f'"
      using ok(1) le short False b(1) by (simp add: audit_fgets_def st'_def Let_def)
    have all: "fg_held st' @ fd_data f' = fg_held st @ fd_data f" using b(2) by (simp add: st'_def)
    note out = hand_out_held [OF cs(1) ok(1,2) len, of "find_newline (fg_held st')" f']
    show ?thesis
    proof (cases "next_line blen (fg_held st')")
      case None
      then have "audit_fgets blen st f = Some (0, [], st', f')" using call out by simp
      moreover have "if fg_eof st' then next_line blen (fg_held st @ fd_data f) = None \<and> fd_data f' = []
          else length (fd_data f') < length (fd_data f)"
        using None b(2) [symmetric] rest by (auto simp: st'_def)
      ultimately show ?thesis using \<open>reader_ok blen st' f'\<close> all by blast
    next
      case (Some n)
      note n = next_line_bounds [OF Some ok(1)]
      have "audit_fgets blen st f = Some (1, take n (fg_held st'), st'\<lparr>fg_held := drop n (fg_held st')\<rparr>, f')"
        using Some call out by simp
      moreover have "reader_ok blen (st'\<lparr>fg_held := drop n (fg_held st')\<rparr>) f'"
        using \<open>reader_ok blen st' f'\<close> by (auto simp: reader_ok_def is_cstr_def dest: in_set_dropD)
      moreover have "next_line blen (fg_held st @ fd_data f) = Some n"
        using next_line_append [OF Some ok(1), of "fd_data f'"] all by simp
      moreover have "take n (fg_held st') = take n (fg_held st @ fd_data f)"
        "drop n (fg_held st') @ fd_data f' = drop n (fg_held st @ fd_data f)"
        using n(2) all [symmetric] by simp_all
      moreover have "n \<le> length (fg_held st @ fd_data f)" using n(2) all [symmetric] by simp
      moreover have "length (fd_data f') \<le> length (fd_data f)" using b(2) [symmetric] by simp
      ultimately show ?thesis
        using n(1) by (intro exI [of _ "st'\<lparr>fg_held := drop n (fg_held st')\<rparr>"] exI [of _ f']) simp
    qed
  qed
qed

lemma read_lines_ok:
  "reader_ok blen st f \<Longrightarrow> 2 * length (fd_data f) + length (fg_held st) < n \<Longrightarrow>
     \<exists>st' f'. read_lines n blen st f = Some (text_lines blen (fg_held st @ fd_data f), st', f') \<and>
       fg_held st' = text_rest blen (fg_held st @ fd_data f) \<and> fd_data f' = []"
proof (induction n arbitrary: st f)
  case (Suc k)
  let ?t = "fg_held st @ fd_data f"
  obtain st1 f1 where s: "reader_ok blen st1 f1"
     "(\<exists>n. next_line blen ?t = Some n \<and> 0 < n \<and> n \<le> length ?t \<and>
         audit_fgets blen st f = Some (1, take n ?t, st1, f1) \<and>
         fg_held st1 @ fd_data f1 = drop n ?t \<and> length (fd_data f1) \<le> length (fd_data f)) \<or>
      (audit_fgets blen st f = Some (0, [], st1, f1) \<and> fg_held st1 @ fd_data f1 = ?t \<and>
         (if fg_eof st1 then next_line blen ?t = None \<and> fd_data f1 = []
          else length (fd_data f1) < length (fd_data f)))"
    using audit_fgets_step [OF Suc.prems(1)] by blast
  from s(2) show ?case
  proof (elim disjE exE conjE)
    fix n
    assume a: "next_line blen ?t = Some n" "0 < n" "n \<le> length ?t" "audit_fgets blen st f = Some (1, take n ?t, st1, f1)"
      "fg_held st1 @ fd_data f1 = drop n ?t" "length (fd_data f1) \<le> length (fd_data f)"
    have "length (fg_held st1) + length (fd_data f1) + n = length (fg_held st) + length (fd_data f)"
      using arg_cong [OF a(5), of length] a(3) by simp
    then have "2 * length (fd_data f1) + length (fg_held st1) < k" using Suc.prems(2) a(2,6) by simp
    from Suc.IH [OF s(1) this] a show ?thesis
      by (auto simp: text_lines.simps [of blen ?t] text_rest.simps [of blen ?t])
  next
    assume a: "audit_fgets blen st f = Some (0, [], st1, f1)" "fg_held st1 @ fd_data f1 = ?t"
      "if fg_eof st1 then next_line blen ?t = None \<and> fd_data f1 = [] else length (fd_data f1) < length (fd_data f)"
    show ?thesis
    proof (cases "fg_eof st1")
      case True
      with a show ?thesis
        by (simp add: text_lines.simps [of blen ?t] text_rest.simps [of blen ?t] audit_fgets_eof_def)
    next
      case False
      have "length (fg_held st1) + length (fd_data f1) = length (fg_held st) + length (fd_data f)"
        using arg_cong [OF a(2), of length] by simp
      then have "2 * length (fd_data f1) + length (fg_held st1) < k" using Suc.prems(2) a(3) False by simp
      from Suc.IH [OF s(1) this] a False show ?thesis by (auto simp: audit_fgets_eof_def)
    qed
  qed
qed simp

lemma text_lines_concat: "concat (text_lines blen d) @ text_rest blen d = d"
proof (induction blen d rule: text_lines.induct)
  case (1 blen d)
  then show ?case
    by (auto simp: text_lines.simps [of blen d] text_rest.simps [of blen d] split: option.split)
qed

section \<open>Properties\<close>

text \<open>C16: Reading a file of text line by line gives the same lines, in order, however the reads are cut
  short or interrupted: every line with its newline, cut into pieces of \<open>blen - 1\<close> characters when
  it is longer; together they are the text. What does not end in a newline at the end of the file stays in the buffer. The
  loop ends after at most two calls per character and one more.\<close>

theorem audit_fgets_lines:
  assumes "is_cstr d" "2 \<le> blen" "blen \<le> 2 * BUF_SIZE + 1" "Rd_fail \<notin> set s"
  shows "\<exists>st f. read_lines (2 * length d + 1) blen fgets_init \<lparr>fd_data = d, fd_sched = s\<rparr> =
           Some (text_lines blen d, st, f) \<and> fg_held st = text_rest blen d \<and> fd_data f = [] \<and>
           concat (text_lines blen d) @ fg_held st = d"
  using text_lines_concat [of blen d] read_lines_ok [of blen fgets_init "\<lparr>fd_data = d, fd_sched = s\<rparr>" "2 * length d + 1"] assms
  by (auto simp: reader_ok_def fgets_init_def)

theorem audit_fgets_lines_witness:
  "\<exists>st f. read_lines 17 8 fgets_init \<lparr>fd_data = ''ab'' @ [newline] @ ''cdefg'', fd_sched = [Rd_upto 0, Rd_eintr]\<rparr> =
           Some ([''ab'' @ [newline]], st, f) \<and> fg_held st = ''cdefg'' \<and> fd_data f = []"
proof -
  let ?d = "''ab'' @ [newline] @ ''cdefg''"
  have h: "is_cstr ?d" "2 \<le> (8::nat)" "(8::nat) \<le> 2 * BUF_SIZE + 1" "Rd_fail \<notin> set [Rd_upto 0, Rd_eintr]"
    by (simp_all add: BUF_SIZE_def is_cstr_def)
  have e: "text_lines 8 ?d = [''ab'' @ [newline]]" "text_rest 8 ?d = ''cdefg''" "2 * length ?d + 1 = 17"
    by code_simp+
  from audit_fgets_lines [OF h(1-4)] show ?thesis by (simp only: e) blast
qed

end
