(* ===== verification/Linked_List.thy ===== *)
theory Linked_List
  imports Audit_Prelude
begin

text \<open>
  The singly linked lists with a cursor that the search and report tools use over and over:
  \<open>slist\<close> (\<open>src/ausearch-string.c\<close>), \<open>ilist\<close> (\<open>src/ausearch-int.c\<close>), \<open>alist\<close>
  (\<open>src/ausearch-avc.c\<close>) and \<open>llist\<close> (\<open>src/ausearch-llist.c\<close>) differ in their nodes only.

  A list is the sequence of its nodes, the position of the cursor (\<open>None\<close> is NULL) and the count.
  Setting the \<open>next\<close> pointer of the cursor's node to a fresh node drops everything behind it. The
  sort by hits, which the first two share word for word, is here too.
\<close>

record 'a linked =
  ll_nodes :: "'a list"
  ll_cur :: "nat option"
  ll_cnt :: u32

definition ll_create :: "'a linked" where
  "ll_create = \<lparr>ll_nodes = [], ll_cur = None, ll_cnt = 0\<rparr>"

definition ll_first :: "'a linked \<Rightarrow> 'a linked" where
  "ll_first l = l\<lparr>ll_cur := (if ll_nodes l = [] then None else Some 0)\<rparr>"

definition ll_get_cur :: "'a linked \<Rightarrow> 'a option" where
  "ll_get_cur l = map_option (nth (ll_nodes l)) (ll_cur l)"

definition ll_last :: "'a linked \<Rightarrow> 'a linked" where
  "ll_last l = (if ll_nodes l = [] then l else l\<lparr>ll_cur := Some (length (ll_nodes l) - 1)\<rparr>)"

definition ll_next :: "'a linked \<Rightarrow> 'a linked" where
  "ll_next l =
     (case ll_cur l of
        None \<Rightarrow> l
      | Some i \<Rightarrow> l\<lparr>ll_cur := (if i + 1 < length (ll_nodes l) then Some (i + 1) else None)\<rparr>)"

text \<open>A fresh node becomes the head, or the successor of the cursor's node, and the cursor. A failed
  allocation, or a NULL cursor in a non-empty list, is followed.\<close>

definition ll_link :: "bool \<Rightarrow> 'a \<Rightarrow> 'a linked \<Rightarrow> 'a linked ub" where
  "ll_link mem_ok n l =
     (if \<not> mem_ok then None
      else if ll_nodes l = [] then Some \<lparr>ll_nodes = [n], ll_cur = Some 0, ll_cnt = ll_cnt l + 1\<rparr>
      else case ll_cur l of
        None \<Rightarrow> None
      | Some i \<Rightarrow>
          Some \<lparr>ll_nodes = take (i + 1) (ll_nodes l) @ [n], ll_cur = Some (i + 1), ll_cnt = ll_cnt l + 1\<rparr>)"

text \<open>The first node from position \<open>i\<close> on that satisfies a condition.\<close>

fun ll_search :: "('a \<Rightarrow> bool) \<Rightarrow> 'a list \<Rightarrow> nat \<Rightarrow> nat option" where
  "ll_search P [] i = None"
| "ll_search P (x # xs) i = (if P x then Some i else ll_search P xs (i + 1))"

definition ll_wf :: "'a linked \<Rightarrow> bool" where
  "ll_wf l \<longleftrightarrow> (\<forall>i. ll_cur l = Some i \<longrightarrow> i < length (ll_nodes l)) \<and> ll_cnt l = of_nat (length (ll_nodes l))"

text \<open>The cursor on the last node, where appending keeps the list.\<close>

definition at_last :: "'a linked \<Rightarrow> bool" where
  "at_last l \<longleftrightarrow> ll_wf l \<and> ll_cur l = (if ll_nodes l = [] then None else Some (length (ll_nodes l) - 1))"

lemma ll_wf_create [simp]: "ll_wf ll_create" "at_last ll_create"
  by (simp_all add: ll_wf_def ll_create_def at_last_def)

lemma ll_wf_last: "ll_wf l \<Longrightarrow> ll_wf (ll_last l)"
  by (auto simp: ll_wf_def ll_last_def)

lemma ll_last_simps [simp]: "ll_nodes (ll_last l) = ll_nodes l" "ll_cnt (ll_last l) = ll_cnt l"
  by (auto simp: ll_last_def)

lemma ll_wf_first: "ll_wf l \<Longrightarrow> ll_wf (ll_first l)"
  by (auto simp: ll_wf_def ll_first_def)

lemma ll_wf_next: "ll_wf l \<Longrightarrow> ll_wf (ll_next l)"
  by (auto simp: ll_wf_def ll_next_def split: option.split)

text \<open>Appending behind the last node.\<close>

lemma ll_link_last:
  assumes "ll_wf l"
  shows "\<exists>l'. ll_link True n (ll_last l) = Some l' \<and> ll_nodes l' = ll_nodes l @ [n] \<and> at_last l'"
  using assms by (auto simp: ll_link_def ll_last_def ll_wf_def at_last_def)

lemma ll_link_at_last:
  assumes "at_last l"
  shows "\<exists>l'. ll_link True n l = Some l' \<and> ll_nodes l' = ll_nodes l @ [n] \<and> at_last l'"
  using assms by (auto simp: ll_link_def ll_wf_def at_last_def)

lemma ll_search_None: "ll_search P xs i = None \<longleftrightarrow> (\<forall>x \<in> set xs. \<not> P x)"
  by (induction xs arbitrary: i) auto

lemma ll_search_split:
  "ll_search P xs i = Some k \<Longrightarrow> \<exists>as x bs. xs = as @ x # bs \<and> P x \<and> (\<forall>y \<in> set as. \<not> P y) \<and> k = i + length as"
proof (induction xs arbitrary: i)
  case (Cons x xs)
  show ?case
  proof (cases "P x")
    case True
    with Cons.prems show ?thesis by (intro exI [of _ "[]"]) auto
  next
    case False
    with Cons obtain as y bs where "xs = as @ y # bs" "P y" "\<forall>z \<in> set as. \<not> P z" "k = Suc i + length as" by fastforce
    with False show ?thesis by (intro exI [of _ "x # as"] exI [of _ y] exI [of _ bs]) auto
  qed
qed simp

section \<open>Sorting by hits\<close>

definition swap_nodes :: "nat \<Rightarrow> 'a list \<Rightarrow> 'a list" where
  "swap_nodes i xs = xs[i := xs ! (i + 1), i + 1 := xs ! i]"

text \<open>The potential that every swap lowers.\<close>

fun weight :: "('a \<Rightarrow> nat) \<Rightarrow> nat \<Rightarrow> 'a list \<Rightarrow> nat" where
  "weight f k [] = 0"
| "weight f k (x # xs) = k * f x + weight f (k + 1) xs"

lemma weight_append: "weight f k (xs @ ys) = weight f k xs + weight f (k + length xs) ys"
  by (induction xs arbitrary: k) auto

lemma swap_nodes_split: "swap_nodes (length as) (as @ x # y # bs) = as @ y # x # bs"
  by (simp add: swap_nodes_def list_update_append nth_append)

lemma split_at_two:
  assumes "i + 1 < length xs"
  obtains as x y bs where "xs = as @ x # y # bs" "length as = i"
proof -
  have "xs = take i xs @ xs ! i # xs ! (i + 1) # drop (i + 2) xs"
    using assms by (simp add: Cons_nth_drop_Suc)
  with assms show thesis using that [of "take i xs" "xs ! i" "xs ! (i + 1)" "drop (i + 2) xs"] by simp
qed

lemma weight_swap:
  assumes "i + 1 < length xs" "f (xs ! i) < f (xs ! (i + 1))"
  shows "weight f 0 (swap_nodes i xs) < weight f 0 xs"
proof -
  obtain as x y bs where xs: "xs = as @ x # y # bs" "length as = i" using split_at_two [OF assms(1)] .
  with assms(2) have "f x < f y" by (simp add: nth_append)
  moreover have "swap_nodes i xs = as @ y # x # bs" using xs swap_nodes_split by metis
  ultimately show ?thesis using xs by (simp add: weight_append algebra_simps)
qed

text \<open>The loop with the cursor at position \<open>i\<close>: a swap starts over at the head.\<close>

function sort_from :: "('a \<Rightarrow> nat) \<Rightarrow> nat \<Rightarrow> 'a list \<Rightarrow> 'a list" where
  "sort_from hits i xs =
     (if i + 1 < length xs then
        if hits (xs ! i) < hits (xs ! (i + 1)) then sort_from hits 0 (swap_nodes i xs)
        else sort_from hits (i + 1) xs
      else xs)"
  by pat_completeness auto
termination
  by (relation "measures [\<lambda>(f, i, xs). weight f 0 xs, \<lambda>(f, i, xs). length xs - i]") (auto intro: weight_swap [simplified])

declare sort_from.simps [simp del]

text \<open>\<open>slist_sort_by_hits\<close> and \<open>ilist_sort_by_hits\<close>; the cursor ends at the head.\<close>

definition ll_sort_by_hits :: "('a \<Rightarrow> nat) \<Rightarrow> 'a linked \<Rightarrow> 'a linked" where
  "ll_sort_by_hits hits l =
     (if ll_cnt l \<le> 1 then l else ll_first (l\<lparr>ll_nodes := sort_from hits 0 (ll_nodes l)\<rparr>))"

text \<open>A swap keeps the elements, and the order of those with equally many hits.\<close>

lemma sort_from_stable:
  "mset (sort_from hits i xs) = mset xs \<and> filter (\<lambda>x. hits x = k) (sort_from hits i xs) = filter (\<lambda>x. hits x = k) xs"
proof (induction hits i xs rule: sort_from.induct)
  case (1 hits i xs)
  show ?case
  proof (cases "i + 1 < length xs \<and> hits (xs ! i) < hits (xs ! (i + 1))")
    case True
    then obtain as x y bs where xs: "xs = as @ x # y # bs" "length as = i" using split_at_two by metis
    then have "swap_nodes i xs = as @ y # x # bs" "hits x < hits y"
      using swap_nodes_split [of as x y bs] True by (simp_all add: nth_append)
    then have "mset (swap_nodes i xs) = mset xs" "filter (\<lambda>x. hits x = k) (swap_nodes i xs) = filter (\<lambda>x. hits x = k) xs"
      using xs by auto
    with True 1 show ?thesis by (simp add: sort_from.simps [of hits i xs])
  next
    case False
    with 1 show ?thesis by (auto simp: sort_from.simps [of hits i xs])
  qed
qed

lemma sort_from_sorted:
  "\<forall>j. j < i \<longrightarrow> j + 1 < length xs \<longrightarrow> hits (xs ! j) \<ge> hits (xs ! (j + 1)) \<Longrightarrow>
   \<forall>j. j + 1 < length (sort_from hits i xs) \<longrightarrow> hits (sort_from hits i xs ! j) \<ge> hits (sort_from hits i xs ! (j + 1))"
proof (induction hits i xs rule: sort_from.induct)
  case (1 hits i xs)
  show ?case
  proof (cases "i + 1 < length xs")
    case True
    show ?thesis
    proof (cases "hits (xs ! i) < hits (xs ! (i + 1))")
      case True': True
      with True 1 show ?thesis by (simp add: sort_from.simps [of hits i xs])
    next
      case False
      have "\<forall>j. j < i + 1 \<longrightarrow> j + 1 < length xs \<longrightarrow> hits (xs ! j) \<ge> hits (xs ! (j + 1))"
        using "1.prems" False by (auto simp: less_Suc_eq)
      with True False "1.IH"(2) show ?thesis by (simp add: sort_from.simps [of hits i xs])
    qed
  next
    case False
    with "1.prems" show ?thesis by (auto simp: sort_from.simps [of hits i xs])
  qed
qed

lemma sort_from_eq: "sort_from hits 0 xs = sort_key (\<lambda>x. - int (hits x)) xs"
proof (rule sym, rule properties_for_sort_key)
  let ?ys = "sort_from hits 0 xs"
  show "mset ?ys = mset xs" using sort_from_stable by blast
  show "filter (\<lambda>x. - int (hits k) = - int (hits x)) ?ys = filter (\<lambda>x. - int (hits k) = - int (hits x)) xs" if "k \<in> set ?ys" for k
    using sort_from_stable [of hits 0 xs "hits k"] by (simp add: eq_commute)
  show "sorted (map (\<lambda>x. - int (hits x)) ?ys)"
    using sort_from_sorted [of 0 xs hits] by (simp add: sorted_iff_nth_Suc)
qed

lemma ll_sort_by_hits_ok:
  assumes "ll_wf l" "length (ll_nodes l) < 2 ^ 32"
  shows "ll_nodes (ll_sort_by_hits hits l) = sort_key (\<lambda>x. - int (hits x)) (ll_nodes l)"
    "ll_wf (ll_sort_by_hits hits l)"
proof -
  let ?n = "length (ll_nodes l)"
  have "unat (ll_cnt l) = ?n" using assms by (simp add: ll_wf_def unat_of_nat)
  then have small: "?n \<le> 1" if "ll_cnt l \<le> 1" using that by (simp add: word_le_nat_alt)
  have one: "sort_key (\<lambda>x. - int (hits x)) xs = xs" if "length xs \<le> 1" for xs :: "'a list"
    using that by (cases xs) auto
  show "ll_nodes (ll_sort_by_hits hits l) = sort_key (\<lambda>x. - int (hits x)) (ll_nodes l)"
    using one [OF small] by (simp add: ll_sort_by_hits_def ll_first_def sort_from_eq)
  show "ll_wf (ll_sort_by_hits hits l)"
    using assms by (auto simp: ll_sort_by_hits_def ll_first_def ll_wf_def sort_from_eq)
qed

section \<open>The earliest entry\<close>

text \<open>A loop that keeps the position and the event of the earliest entry so far; entries without an event
  are passed.\<close>

fun pick_lowest :: "('n \<Rightarrow> 'e option) \<Rightarrow> ('e \<Rightarrow> 't :: linorder) \<Rightarrow> 'n list \<Rightarrow> nat \<Rightarrow> (nat \<times> 'e) option \<Rightarrow> (nat \<times> 'e) option" where
  "pick_lowest ev t [] i best = best"
| "pick_lowest ev t (n # ns) i best =
     pick_lowest ev t ns (i + 1)
       (case ev n of
          None \<Rightarrow> best
        | Some e \<Rightarrow> (case best of None \<Rightarrow> Some (i, e) | Some (_, e0) \<Rightarrow> if t e < t e0 then Some (i, e) else best))"

text \<open>The result is the earliest among the entries seen and the candidate.\<close>

lemma pick_lowest_ok:
  "case pick_lowest ev t ns i best of
     None \<Rightarrow> best = None \<and> (\<forall>n \<in> set ns. ev n = None)
   | Some (k, e) \<Rightarrow>
       (best = Some (k, e) \<or> (i \<le> k \<and> k < i + length ns \<and> ev (ns ! (k - i)) = Some e)) \<and>
       (\<forall>n \<in> set ns. \<forall>e'. ev n = Some e' \<longrightarrow> t e \<le> t e') \<and>
       (\<forall>k' e'. best = Some (k', e') \<longrightarrow> t e \<le> t e')"
proof (induction ns arbitrary: i best)
  case Nil
  then show ?case by (auto split: option.split)
next
  case (Cons n ns)
  define best' where "best' = (case ev n of None \<Rightarrow> best
     | Some e \<Rightarrow> (case best of None \<Rightarrow> Some (i, e) | Some (_, e0) \<Rightarrow> if t e < t e0 then Some (i, e) else best))"
  have step: "pick_lowest ev t (n # ns) i best = pick_lowest ev t ns (i + 1) best'" by (simp add: best'_def)
  have b1: "best' = None \<longleftrightarrow> best = None \<and> ev n = None"
    by (auto simp: best'_def split: option.splits)
  have b2: "best' = Some (k, e) \<Longrightarrow> best = Some (k, e) \<or> (k = i \<and> ev n = Some e)" for k e
    by (auto simp: best'_def split: option.splits if_splits)
  have b3: "t e \<le> t e'" if "best' = Some (k, e)" "ev n = Some e' \<or> best = Some (k', e')" for k e k' e'
    using that by (auto simp: best'_def not_less split: option.splits if_splits)
  show ?case
  proof (cases "pick_lowest ev t ns (i + 1) best'")
    case None
    with Cons.IH [where i = "i + 1" and best = best'] b1 show ?thesis unfolding step by simp
  next
    case (Some r)
    obtain k e where r: "r = (k, e)" by (cases r)
    have IH:
      "best' = Some (k, e) \<or> (i + 1 \<le> k \<and> k < i + 1 + length ns \<and> ev (ns ! (k - (i + 1))) = Some e)"
      "\<forall>n \<in> set ns. \<forall>e'. ev n = Some e' \<longrightarrow> t e \<le> t e'"
      "\<forall>k' e'. best' = Some (k', e') \<longrightarrow> t e \<le> t e'"
      using Cons.IH [where i = "i + 1" and best = best'] unfolding Some r option.case prod.case by blast+
    have "best = Some (k, e) \<or> (i \<le> k \<and> k < i + length (n # ns) \<and> ev ((n # ns) ! (k - i)) = Some e)"
      using IH(1)
    proof
      assume "best' = Some (k, e)"
      from b2 [OF this] show ?thesis by auto
    next
      assume k: "i + 1 \<le> k \<and> k < i + 1 + length ns \<and> ev (ns ! (k - (i + 1))) = Some e"
      then have "k - i = Suc (k - (i + 1))" by auto
      with k show ?thesis by simp
    qed
    moreover have "t e \<le> t e'" if "ev n = Some e' \<or> best = Some (k', e')" for k' e'
    proof -
      have "best' \<noteq> None" using b1 that by auto
      then obtain kb eb where b: "best' = Some (kb, eb)" by auto
      then have "t e \<le> t eb" using IH(3) by blast
      also have "\<dots> \<le> t e'" by (rule b3 [OF b that])
      finally show ?thesis .
    qed
    ultimately show ?thesis unfolding step Some r option.case prod.case using IH(2) by auto
  qed
qed

end
