(* ===== verification/Hit_Lists.thy ===== *)
theory Hit_Lists
  imports Linked_List "HOL-Library.Monad_Syntax"
begin

text \<open>
  The lists in which the tools count how often something occurred: strings (\<open>slist\<close>,
  \<open>src/ausearch-string.c\<close>) and numbers (\<open>ilist\<close>, \<open>src/ausearch-int.c\<close>), and the list of
  the SELinux results of an event (\<open>alist\<close>, \<open>src/ausearch-avc.c\<close>).

  Both counting lists implement the interface \<open>hit_list\<close>: after any sequence of additions the tally
  of a key is the number of its additions.
\<close>

section \<open>The interface of counting lists\<close>

locale hit_list =
  fixes inv :: "'s \<Rightarrow> bool"
    and add :: "'k \<Rightarrow> 's \<Rightarrow> 's option"
    and tally :: "'s \<Rightarrow> 'k \<Rightarrow> u32"
    and keys :: "'s \<Rightarrow> 'k set"
  assumes add_ok: "inv s \<Longrightarrow> \<exists>s'. add k s = Some s' \<and> inv s' \<and> tally s' = (tally s)(k := tally s k + 1) \<and> keys s' = insert k (keys s)"
begin

primrec add_all :: "'k list \<Rightarrow> 's \<Rightarrow> 's option" where
  "add_all [] s = Some s"
| "add_all (k # ks) s = (case add k s of None \<Rightarrow> None | Some s' \<Rightarrow> add_all ks s')"

lemma add_all_ok:
  "inv s \<Longrightarrow> \<exists>s'. add_all ks s = Some s' \<and> inv s' \<and> (\<forall>k. tally s' k = tally s k + of_nat (count_list ks k)) \<and> keys s' = keys s \<union> set ks"
proof (induction ks arbitrary: s)
  case (Cons k ks)
  obtain s1 where s1: "add k s = Some s1" "inv s1" "tally s1 = (tally s)(k := tally s k + 1)" "keys s1 = insert k (keys s)"
    using add_ok [OF Cons.prems, of k] by blast
  obtain s2 where "add_all ks s1 = Some s2" "inv s2" "\<forall>k. tally s2 k = tally s1 k + of_nat (count_list ks k)" "keys s2 = keys s1 \<union> set ks"
    using Cons.IH [OF s1(2)] by blast
  with s1 show ?case by auto
qed simp

end

section \<open>Strings\<close>

record snode =
  sn_str :: "string option"
  sn_key :: "string option"
  sn_hits :: u32

type_synonym slist = "snode linked"

definition slist_create :: slist where
  "slist_create = ll_create"

definition slist_first :: "slist \<Rightarrow> slist" where
  "slist_first l = ll_first l"

definition slist_last :: "slist \<Rightarrow> slist" where
  "slist_last l = ll_last l"

definition slist_next :: "slist \<Rightarrow> snode option \<times> slist" where
  "slist_next l = (let l' = ll_next l in (ll_get_cur l', l'))"

definition slist_append :: "bool \<Rightarrow> snode \<Rightarrow> slist \<Rightarrow> slist ub" where
  "slist_append mem_ok node l = ll_link mem_ok node (slist_last l)"

definition slist_clear :: "slist \<Rightarrow> slist" where
  "slist_clear l = l\<lparr>ll_nodes := [], ll_cur := None, ll_cnt := 0\<rparr>"

text \<open>
  The return value and the list. The comparison with a node without a string is undefined, so the
  search is: up to the first node that has none or has this one. \<open>dup_ok\<close> and \<open>mem_ok\<close> are the outcomes
  of \<open>strdup\<close> and of the allocation of the node.
\<close>

definition slist_add_if_uniq :: "bool \<Rightarrow> bool \<Rightarrow> string option \<Rightarrow> slist \<Rightarrow> (int \<times> slist) ub" where
  "slist_add_if_uniq dup_ok mem_ok str l =
     (case str of
        None \<Rightarrow> Some (- 1, l)
      | Some s \<Rightarrow>
          (case ll_search (\<lambda>n. sn_str n = None \<or> sn_str n = Some s) (ll_nodes l) 0 of
             Some i \<Rightarrow>
               let n = ll_nodes l ! i in
               if sn_str n = None then None
               else Some (0, l\<lparr>ll_nodes := (ll_nodes l)[i := n\<lparr>sn_hits := sn_hits n + 1\<rparr>], ll_cur := Some i\<rparr>)
           | None \<Rightarrow>
               map_option (Pair 1)
                 (slist_append mem_ok \<lparr>sn_str = (if dup_ok then Some s else None), sn_key = None, sn_hits = 1\<rparr> l)))"

definition slist_sort_by_hits :: "slist \<Rightarrow> slist" where
  "slist_sort_by_hits l = ll_sort_by_hits (\<lambda>n. unat (sn_hits n)) l"

section \<open>Numbers\<close>

record int_node =
  in_num :: int
  in_hits :: u32
  in_aux1 :: int

type_synonym ilist = "int_node linked"

definition ilist_create :: ilist where
  "ilist_create = ll_create"

definition ilist_next :: "ilist \<Rightarrow> int_node option \<times> ilist" where
  "ilist_next l = (let l' = ll_next l in (ll_get_cur l', l'))"

definition ilist_append :: "bool \<Rightarrow> int \<Rightarrow> u32 \<Rightarrow> int \<Rightarrow> ilist \<Rightarrow> ilist ub" where
  "ilist_append mem_ok num hits aux l = ll_link mem_ok \<lparr>in_num = num, in_hits = hits, in_aux1 = aux\<rparr> l"

definition ilist_clear :: "ilist \<Rightarrow> ilist" where
  "ilist_clear l = l\<lparr>ll_nodes := [], ll_cur := None, ll_cnt := 0\<rparr>"

text \<open>The loop stops at the first node whose number is not smaller. A new head is linked in by emptying
  the list first, any other node behind its predecessor; both times the rest is put back behind it.\<close>

definition ilist_add_if_uniq :: "bool \<Rightarrow> int \<Rightarrow> int \<Rightarrow> ilist \<Rightarrow> (int \<times> ilist) ub" where
  "ilist_add_if_uniq mem_ok num aux l =
     (case ll_search (\<lambda>n. num \<le> in_num n) (ll_nodes l) 0 of
        Some i \<Rightarrow>
          let n = ll_nodes l ! i in
          if in_num n = num then
            Some (0, l\<lparr>ll_nodes := (ll_nodes l)[i := n\<lparr>in_hits := in_hits n + 1\<rparr>]\<rparr>)
          else do {
            let l1 = (if i = 0 then l\<lparr>ll_nodes := []\<rparr> else l\<lparr>ll_cur := Some (i - 1)\<rparr>);
            l2 \<leftarrow> ilist_append mem_ok num 1 aux l1;
            Some (1, l2\<lparr>ll_nodes := ll_nodes l2 @ drop i (ll_nodes l)\<rparr>)
          }
      | None \<Rightarrow> map_option (Pair 1) (ilist_append mem_ok num 1 aux (ll_last l)))"

definition ilist_sort_by_hits :: "ilist \<Rightarrow> ilist" where
  "ilist_sort_by_hits l = ll_sort_by_hits (\<lambda>n. unat (in_hits n)) l"

section \<open>SELinux results\<close>

datatype avc_t = AVC_UNSET | AVC_DENIED | AVC_GRANTED

record anode =
  an_scontext :: "string option"
  an_tcontext :: "string option"
  an_avc_result :: avc_t
  an_avc_perm :: "string option"
  an_avc_class :: "string option"

type_synonym alist = "anode linked"

definition alist_create :: alist where
  "alist_create = ll_create"

definition alist_next :: "alist \<Rightarrow> anode option \<times> alist" where
  "alist_next l = (let l' = ll_next l in (ll_get_cur l', l'))"

definition alist_last :: "alist \<Rightarrow> alist" where
  "alist_last l = ll_last l"

definition alist_append :: "bool \<Rightarrow> anode \<Rightarrow> alist \<Rightarrow> alist ub" where
  "alist_append mem_ok node l = ll_link mem_ok node (alist_last l)"

text \<open>The three searches from the head, and the three steps to the next such node, which leave the
  cursor on the last node when there is none.\<close>

definition alist_find :: "(anode \<Rightarrow> bool) \<Rightarrow> alist \<Rightarrow> bool \<times> alist" where
  "alist_find P l =
     (case ll_search P (ll_nodes l) 0 of
        Some i \<Rightarrow> (True, l\<lparr>ll_cur := Some i\<rparr>)
      | None \<Rightarrow> (False, l))"

definition alist_step :: "(anode \<Rightarrow> bool) \<Rightarrow> alist \<Rightarrow> anode option \<times> alist" where
  "alist_step P l =
     (case ll_cur l of
        None \<Rightarrow> (None, l)
      | Some c \<Rightarrow>
          (case ll_search P (drop (c + 1) (ll_nodes l)) (c + 1) of
             Some i \<Rightarrow> (Some (ll_nodes l ! i), l\<lparr>ll_cur := Some i\<rparr>)
           | None \<Rightarrow> (None, l\<lparr>ll_cur := Some (length (ll_nodes l) - 1)\<rparr>)))"

definition alist_find_subj :: "alist \<Rightarrow> bool \<times> alist" where
  "alist_find_subj = alist_find (\<lambda>n. an_scontext n \<noteq> None)"

definition alist_next_subj :: "alist \<Rightarrow> anode option \<times> alist" where
  "alist_next_subj = alist_step (\<lambda>n. an_scontext n \<noteq> None)"

definition alist_find_obj :: "alist \<Rightarrow> bool \<times> alist" where
  "alist_find_obj = alist_find (\<lambda>n. an_tcontext n \<noteq> None)"

definition alist_next_obj :: "alist \<Rightarrow> anode option \<times> alist" where
  "alist_next_obj = alist_step (\<lambda>n. an_tcontext n \<noteq> None)"

definition alist_find_avc :: "alist \<Rightarrow> bool \<times> alist" where
  "alist_find_avc = alist_find (\<lambda>n. an_avc_result n \<noteq> AVC_UNSET)"

definition alist_next_avc :: "alist \<Rightarrow> anode option \<times> alist" where
  "alist_next_avc = alist_step (\<lambda>n. an_avc_result n \<noteq> AVC_UNSET)"

definition alist_clear :: "alist \<Rightarrow> alist" where
  "alist_clear l = l\<lparr>ll_nodes := [], ll_cur := None, ll_cnt := 0\<rparr>"

definition anode_init :: anode where
  "anode_init = \<lparr>an_scontext = None, an_tcontext = None, an_avc_result = AVC_UNSET, an_avc_perm = None, an_avc_class = None\<rparr>"

section \<open>Counting\<close>

text \<open>The hits of a key: those of its first node, 0 without one.\<close>

definition hits_in :: "('k \<times> u32) list \<Rightarrow> 'k \<Rightarrow> u32" where
  "hits_in xs k = (case map_of xs k of None \<Rightarrow> 0 | Some h \<Rightarrow> h)"

lemma hits_in_simps [simp]:
  "hits_in [] k = 0" "hits_in ((j, h) # xs) k = (if k = j then h else hits_in xs k)"
  by (simp_all add: hits_in_def)

lemma hits_in_append: "hits_in (xs @ ys) k = (if k \<in> fst ` set xs then hits_in xs k else hits_in ys k)"
  by (induction xs) force+

lemma hits_in_absent: "k \<notin> fst ` set xs \<Longrightarrow> hits_in xs k = 0"
  by (induction xs) auto

lemma hits_in_update:
  assumes "k \<notin> fst ` set as"
  shows "hits_in (as @ (k, h + 1) # bs) = (hits_in (as @ (k, h) # bs))(k := hits_in (as @ (k, h) # bs) k + 1)"
  using assms by (rule_tac ext) (simp add: hits_in_append)

lemma hits_in_insert:
  assumes "k \<notin> fst ` set as" "k \<notin> fst ` set bs"
  shows "hits_in (as @ (k, 1) # bs) = (hits_in (as @ bs))(k := hits_in (as @ bs) k + 1)"
  using assms by (rule_tac ext) (simp add: hits_in_append hits_in_absent)

definition slist_tally :: "slist \<Rightarrow> string \<Rightarrow> u32" where
  "slist_tally l s = hits_in (map (\<lambda>n. (sn_str n, sn_hits n)) (ll_nodes l)) (Some s)"

definition slist_inv :: "slist \<Rightarrow> bool" where
  "slist_inv l \<longleftrightarrow> ll_wf l \<and> distinct (map sn_str (ll_nodes l)) \<and> None \<notin> sn_str ` set (ll_nodes l)"

definition slist_keys :: "slist \<Rightarrow> string set" where
  "slist_keys l = {s. Some s \<in> sn_str ` set (ll_nodes l)}"

definition slist_add :: "string \<Rightarrow> slist \<Rightarrow> slist ub" where
  "slist_add s l = map_option snd (slist_add_if_uniq True True (Some s) l)"

lemma slist_add_ok:
  assumes "slist_inv l"
  shows "\<exists>l'. slist_add s l = Some l' \<and> slist_inv l' \<and> slist_tally l' = (slist_tally l)(s := slist_tally l s + 1) \<and>
           slist_keys l' = insert s (slist_keys l) \<and>
           map sn_str (ll_nodes l') = (if s \<in> slist_keys l then map sn_str (ll_nodes l) else map sn_str (ll_nodes l) @ [Some s])"
proof (cases "ll_search (\<lambda>n. sn_str n = None \<or> sn_str n = Some s) (ll_nodes l) 0")
  case None
  then have new: "Some s \<notin> sn_str ` set (ll_nodes l)" by (auto simp: ll_search_None)
  let ?n = "\<lparr>sn_str = Some s, sn_key = None, sn_hits = 1\<rparr>"
  obtain l' where l': "ll_link True ?n (ll_last l) = Some l'" "ll_nodes l' = ll_nodes l @ [?n]" "at_last l'"
    using ll_link_last [of l ?n] assms by (auto simp: slist_inv_def)
  have "Some s \<notin> fst ` set (map (\<lambda>n. (sn_str n, sn_hits n)) (ll_nodes l))" using new by force
  from hits_in_insert [OF this, of "[]"] have "slist_tally l' = (slist_tally l)(s := slist_tally l s + 1)"
    unfolding slist_tally_def l'(2) by (simp add: fun_eq_iff)
  moreover have "slist_inv l'" using assms l'(2,3) new by (auto simp: slist_inv_def at_last_def)
  moreover have "slist_add s l = Some l'"
    using None l'(1) by (simp add: slist_add_def slist_add_if_uniq_def slist_append_def slist_last_def)
  moreover have "slist_keys l' = insert s (slist_keys l)" "s \<notin> slist_keys l"
    using l'(2) new by (auto simp: slist_keys_def)
  ultimately show ?thesis using l'(2) by (intro exI [of _ l']) simp
next
  case (Some i)
  from ll_search_split [OF Some] obtain as n bs where
    n: "ll_nodes l = as @ n # bs" "sn_str n = None \<or> sn_str n = Some s" "i = length as"
    by (elim exE conjE) simp
  have str: "sn_str n = Some s" using n(1,2) assms by (auto simp: slist_inv_def)
  define l' where "l' = l\<lparr>ll_nodes := as @ n\<lparr>sn_hits := sn_hits n + 1\<rparr> # bs, ll_cur := Some i\<rparr>"
  have "slist_add s l = Some l'"
    using Some n(1,3) str by (simp add: slist_add_def slist_add_if_uniq_def l'_def)
  moreover have "slist_inv l'" using assms n by (auto simp: slist_inv_def ll_wf_def l'_def)
  moreover have "Some s \<notin> sn_str ` set as" using assms n(1) str by (auto simp: slist_inv_def)
  then have "Some s \<notin> fst ` set (map (\<lambda>n. (sn_str n, sn_hits n)) as)" by force
  from hits_in_update [OF this, of "sn_hits n" "map (\<lambda>n. (sn_str n, sn_hits n)) bs"]
  have "slist_tally l' = (slist_tally l)(s := slist_tally l s + 1)"
    unfolding slist_tally_def n(1) l'_def by (simp add: fun_eq_iff str)
  moreover have "map sn_str (ll_nodes l') = map sn_str (ll_nodes l)" using n(1) by (simp add: l'_def)
  moreover from this have "slist_keys l' = slist_keys l" unfolding slist_keys_def by (metis set_map)
  moreover have "s \<in> slist_keys l" using n(1) str by (auto simp: slist_keys_def)
  ultimately show ?thesis by (intro exI [of _ l'] conjI) (simp_all add: insert_absorb)
qed

interpretation sl: hit_list slist_inv slist_add slist_tally slist_keys
  using slist_add_ok by unfold_locales blast

definition ilist_inv :: "ilist \<Rightarrow> bool" where
  "ilist_inv l \<longleftrightarrow> ll_wf l \<and> sorted_wrt (<) (map in_num (ll_nodes l))"

definition ilist_tally :: "ilist \<Rightarrow> int \<Rightarrow> u32" where
  "ilist_tally l = hits_in (map (\<lambda>n. (in_num n, in_hits n)) (ll_nodes l))"

definition ilist_keys :: "ilist \<Rightarrow> int set" where
  "ilist_keys l = in_num ` set (ll_nodes l)"

definition ilist_add :: "int \<Rightarrow> ilist \<Rightarrow> ilist ub" where
  "ilist_add k l = map_option snd (ilist_add_if_uniq True k 0 l)"

text \<open>What an addition does to the nodes: one more hit, or a new node at its place.\<close>

lemma ilist_add_nodes:
  assumes "ilist_inv l"
  shows "\<exists>l' as bs. ilist_add k l = Some l' \<and> ll_wf l' \<and> (\<forall>n \<in> set as. in_num n < k) \<and> (\<forall>n \<in> set bs. k < in_num n) \<and>
     ((\<exists>n. in_num n = k \<and> ll_nodes l = as @ n # bs \<and> ll_nodes l' = as @ n\<lparr>in_hits := in_hits n + 1\<rparr> # bs) \<or>
      (ll_nodes l = as @ bs \<and> ll_nodes l' = as @ \<lparr>in_num = k, in_hits = 1, in_aux1 = 0\<rparr> # bs))"
proof (cases "ll_search (\<lambda>n. k \<le> in_num n) (ll_nodes l) 0")
  case None
  then have lt: "\<forall>n \<in> set (ll_nodes l). in_num n < k" by (auto simp: ll_search_None)
  let ?n = "\<lparr>in_num = k, in_hits = 1, in_aux1 = 0\<rparr>"
  obtain l' where "ll_link True ?n (ll_last l) = Some l'" "ll_nodes l' = ll_nodes l @ [?n]" "at_last l'"
    using ll_link_last [of l ?n] assms by (auto simp: ilist_inv_def)
  with None lt show ?thesis
    by (intro exI [of _ l'] exI [of _ "ll_nodes l"] exI [of _ "[]"])
       (auto simp: ilist_add_def ilist_add_if_uniq_def ilist_append_def at_last_def)
next
  case (Some i)
  then obtain as n bs where n: "ll_nodes l = as @ n # bs" "k \<le> in_num n" "\<forall>m \<in> set as. in_num m < k" "i = length as"
    using ll_search_split by (fastforce simp: not_le)
  have gt: "\<forall>m \<in> set bs. in_num n < in_num m" using assms n(1) by (auto simp: ilist_inv_def sorted_wrt_append)
  have wf: "ll_wf l" using assms by (simp add: ilist_inv_def)
  show ?thesis
  proof (cases "in_num n = k")
    case True
    define l' where "l' = l\<lparr>ll_nodes := as @ n\<lparr>in_hits := in_hits n + 1\<rparr> # bs\<rparr>"
    have "ilist_add k l = Some l'" using Some n(1,4) True by (simp add: ilist_add_def ilist_add_if_uniq_def l'_def)
    moreover have "ll_wf l'" using wf n(1) by (simp add: ll_wf_def l'_def)
    ultimately show ?thesis
      using True n gt by (intro exI [of _ l'] exI [of _ as] exI [of _ bs]) (auto simp: l'_def)
  next
    case False
    let ?n = "\<lparr>in_num = k, in_hits = 1, in_aux1 = 0\<rparr>"
    define l' where "l' = \<lparr>ll_nodes = as @ ?n # n # bs, ll_cur = Some i, ll_cnt = ll_cnt l + 1\<rparr>"
    have "ilist_add k l = Some l'"
      using Some n(1,4) False
      by (cases as) (simp_all add: ilist_add_def ilist_add_if_uniq_def ilist_append_def ll_link_def l'_def)
    moreover have "ll_wf l'" using wf n(1,4) by (simp add: ll_wf_def l'_def)
    ultimately show ?thesis
      using False n gt by (intro exI [of _ l'] exI [of _ as] exI [of _ "n # bs"]) (auto simp: l'_def)
  qed
qed

lemma ilist_add_ok:
  assumes "ilist_inv l"
  shows "\<exists>l'. ilist_add k l = Some l' \<and> ilist_inv l' \<and> ilist_tally l' = (ilist_tally l)(k := ilist_tally l k + 1) \<and>
           ilist_keys l' = insert k (ilist_keys l)"
proof -
  obtain l' as bs where l': "ilist_add k l = Some l'" "ll_wf l'" "\<forall>n \<in> set as. in_num n < k" "\<forall>n \<in> set bs. k < in_num n"
    "(\<exists>n. in_num n = k \<and> ll_nodes l = as @ n # bs \<and> ll_nodes l' = as @ n\<lparr>in_hits := in_hits n + 1\<rparr> # bs) \<or>
     (ll_nodes l = as @ bs \<and> ll_nodes l' = as @ \<lparr>in_num = k, in_hits = 1, in_aux1 = 0\<rparr> # bs)"
    using ilist_add_nodes [OF assms, of k] by (elim exE conjE) rule
  let ?h = "map (\<lambda>n. (in_num n, in_hits n))"
  have none: "k \<notin> fst ` set (?h as)" "k \<notin> fst ` set (?h bs)" using l'(3,4) by auto
  have nums: "map in_num (ll_nodes l') = map in_num as @ k # map in_num bs"
    "map in_num (ll_nodes l) = map in_num as @ k # map in_num bs \<or> map in_num (ll_nodes l) = map in_num as @ map in_num bs"
    using l'(5) by (elim disjE exE conjE; simp)+
  have "sorted_wrt (<) (map in_num as)" "sorted_wrt (<) (map in_num bs)"
    using assms nums(2) unfolding ilist_inv_def by (elim disjE; simp only: sorted_wrt_append sorted_wrt.simps)+
  then have "ilist_inv l'"
    using l'(2-4) unfolding ilist_inv_def nums(1) by (force simp: sorted_wrt_append)
  moreover have "ilist_tally l' = (ilist_tally l)(k := ilist_tally l k + 1)"
    using l'(5)
  proof (elim disjE exE conjE)
    fix n
    assume "in_num n = k" "ll_nodes l = as @ n # bs" "ll_nodes l' = as @ n\<lparr>in_hits := in_hits n + 1\<rparr> # bs"
    then show ?thesis using hits_in_update [OF none(1), of "in_hits n" "?h bs"] by (simp add: ilist_tally_def)
  next
    assume "ll_nodes l = as @ bs" "ll_nodes l' = as @ \<lparr>in_num = k, in_hits = 1, in_aux1 = 0\<rparr> # bs"
    then show ?thesis using hits_in_insert [OF none] by (simp add: ilist_tally_def)
  qed
  moreover have "ilist_keys l' = insert k (ilist_keys l)"
    using nums unfolding ilist_keys_def set_map [symmetric] by (elim disjE; simp only: set_append list.set) blast+
  ultimately show ?thesis using l'(1) by blast
qed

interpretation il: hit_list ilist_inv ilist_add ilist_tally ilist_keys
  using ilist_add_ok by unfold_locales blast

lemma slist_init: "slist_inv slist_create" "slist_tally slist_create s = 0" "slist_keys slist_create = {}"
  by (simp_all add: slist_inv_def slist_create_def ll_create_def ll_wf_def slist_tally_def slist_keys_def)

lemma ilist_init: "ilist_inv ilist_create" "ilist_tally ilist_create k = 0" "ilist_keys ilist_create = {}"
  by (simp_all add: ilist_inv_def ilist_create_def ll_create_def ll_wf_def ilist_tally_def ilist_keys_def)

section \<open>Walking a list of results\<close>

fun walk_from :: "(alist \<Rightarrow> anode option \<times> alist) \<Rightarrow> nat \<Rightarrow> alist \<Rightarrow> anode list" where
  "walk_from next_fn 0 l = []"
| "walk_from next_fn (Suc n) l = (case next_fn l of (None, _) \<Rightarrow> [] | (Some a, l') \<Rightarrow> a # walk_from next_fn n l')"

definition walk :: "(alist \<Rightarrow> bool \<times> alist) \<Rightarrow> (alist \<Rightarrow> anode option \<times> alist) \<Rightarrow> alist \<Rightarrow> anode list" where
  "walk find_fn next_fn l =
     (case find_fn l of
        (False, _) \<Rightarrow> []
      | (True, l') \<Rightarrow> (case ll_get_cur l' of None \<Rightarrow> [] | Some a \<Rightarrow> a # walk_from next_fn (length (ll_nodes l)) l'))"

lemma filter_none: "ll_search P xs i = None \<Longrightarrow> filter P xs = []"
  by (simp add: ll_search_None filter_empty_conv)

lemma filter_false: "\<forall>y \<in> set as. \<not> P y \<Longrightarrow> filter P (as @ x # bs) = filter P (x # bs)"
  by (simp add: filter_empty_conv)

lemma walk_from_filter:
  "ll_cur l = Some c \<Longrightarrow> length (ll_nodes l) \<le> n + c + 1 \<Longrightarrow> walk_from (alist_step P) n l = filter P (drop (c + 1) (ll_nodes l))"
proof (induction n arbitrary: l c)
  case (Suc n)
  show ?case
  proof (cases "ll_search P (drop (c + 1) (ll_nodes l)) (c + 1)")
    case None
    with Suc.prems show ?thesis by (simp add: alist_step_def [of P l] filter_none)
  next
    case (Some i)
    then obtain as x bs where x: "drop (c + 1) (ll_nodes l) = as @ x # bs" "P x" "\<forall>y \<in> set as. \<not> P y" "i = c + 1 + length as"
      using ll_search_split by blast
    have nth: "ll_nodes l ! i = x" "drop (i + 1) (ll_nodes l) = bs"
      using x(1,4) nth_drop [of "c + 1" "ll_nodes l" "length as"] drop_drop [of "length as + 1" "c + 1" "ll_nodes l", symmetric]
      by (cases "c + 1 \<le> length (ll_nodes l)"; simp add: nth_append add_ac)+
    have "walk_from (alist_step P) n (l\<lparr>ll_cur := Some i\<rparr>) = filter P (drop (i + 1) (ll_nodes l))"
      using Suc.IH [of "l\<lparr>ll_cur := Some i\<rparr>" i] Suc.prems(2) x(4) by simp
    with Some Suc.prems x nth show ?thesis by (simp add: alist_step_def [of P l] filter_false)
  qed
qed simp

lemma walk_filter: "walk (alist_find P) (alist_step P) l = filter P (ll_nodes l)"
proof (cases "ll_search P (ll_nodes l) 0")
  case None
  then show ?thesis by (simp add: walk_def alist_find_def filter_none)
next
  case (Some i)
  then obtain as x bs where x: "ll_nodes l = as @ x # bs" "P x" "\<forall>y \<in> set as. \<not> P y" "i = length as"
    using ll_search_split by fastforce
  with Some walk_from_filter [of "l\<lparr>ll_cur := Some i\<rparr>" i "length (ll_nodes l)" P] show ?thesis
    by (simp add: walk_def alist_find_def ll_get_cur_def filter_false)
qed

section \<open>Properties\<close>

text \<open>After adding any sequence of strings to an empty list, when memory is available, every string
  has exactly one node, whose hits are the number of times it was added (modulo the width of the
  counter), and no other string has one.\<close>

theorem slist_counts:
  "\<exists>l. sl.add_all ss slist_create = Some l \<and> distinct (map sn_str (ll_nodes l)) \<and>
       sn_str ` set (ll_nodes l) = Some ` set ss \<and> (\<forall>s. slist_tally l s = of_nat (count_list ss s))"
proof -
  obtain l where l: "sl.add_all ss slist_create = Some l" "slist_inv l" "\<forall>s. slist_tally l s = of_nat (count_list ss s)"
    "slist_keys l = set ss"
    using sl.add_all_ok [OF slist_init(1), of ss] by (auto simp: slist_init)
  have "sn_str ` set (ll_nodes l) = Some ` slist_keys l"
  proof -
    have "x \<in> Some ` slist_keys l" if "x \<in> sn_str ` set (ll_nodes l)" for x
      using that l(2) by (cases x) (auto simp: slist_keys_def slist_inv_def)
    then show ?thesis by (auto simp: slist_keys_def)
  qed
  with l show ?thesis by (auto simp: slist_inv_def)
qed

text \<open>After adding any sequence of numbers to an empty list, the nodes carry exactly the numbers
  added, in increasing order and each once, with the number of times each was added.\<close>

theorem ilist_counts:
  "\<exists>l. il.add_all ks ilist_create = Some l \<and> map in_num (ll_nodes l) = sorted_list_of_set (set ks) \<and>
       (\<forall>k. ilist_tally l k = of_nat (count_list ks k))"
proof -
  obtain l where l: "il.add_all ks ilist_create = Some l" "ilist_inv l" "\<forall>k. ilist_tally l k = of_nat (count_list ks k)"
    "ilist_keys l = set ks"
    using il.add_all_ok [OF ilist_init(1), of ks] by (auto simp: ilist_init)
  then have "sorted_wrt (<) (map in_num (ll_nodes l))" "set (map in_num (ll_nodes l)) = set ks"
    by (auto simp: ilist_inv_def ilist_keys_def)
  then have "map in_num (ll_nodes l) = sorted_list_of_set (set ks)"
    by (metis strict_sorted_iff sorted_list_of_set.idem_if_sorted_distinct)
  with l show ?thesis by blast
qed

text \<open>C35: Sorting by hits ends and orders the nodes from most to fewest hits; nodes with equally many keep
  their order. It is the stable sort, although it restarts at the head after every exchange.\<close>

theorem sort_by_hits_stable:
  assumes "ll_wf l" "length (ll_nodes l) < 2 ^ 32" "ll_wf l'" "length (ll_nodes l') < 2 ^ 32"
  shows "ll_nodes (slist_sort_by_hits l) = sort_key (\<lambda>n. - int (unat (sn_hits n))) (ll_nodes l) \<and>
         ll_nodes (ilist_sort_by_hits l') = sort_key (\<lambda>n. - int (unat (in_hits n))) (ll_nodes l') \<and>
         ll_wf (slist_sort_by_hits l) \<and> ll_wf (ilist_sort_by_hits l')"
  using ll_sort_by_hits_ok [OF assms(1,2)] ll_sort_by_hits_ok [OF assms(3,4)]
  by (simp add: slist_sort_by_hits_def ilist_sort_by_hits_def)

definition demo_ilist :: ilist where
  "demo_ilist = \<lparr>ll_nodes = [\<lparr>in_num = 1, in_hits = 1, in_aux1 = 0\<rparr>, \<lparr>in_num = 2, in_hits = 3, in_aux1 = 0\<rparr>],
     ll_cur = None, ll_cnt = 2\<rparr>"

theorem sort_by_hits_stable_witness:
  "map in_num (ll_nodes (ilist_sort_by_hits demo_ilist)) = [2, 1]"
proof -
  have "ll_wf demo_ilist" "length (ll_nodes demo_ilist) < 2 ^ 32" "ll_wf slist_create" "length (ll_nodes slist_create) < 2 ^ 32"
    by (simp_all add: ll_wf_def demo_ilist_def slist_create_def ll_create_def)
  from sort_by_hits_stable [OF this(3,4,1,2)] show ?thesis by (simp add: demo_ilist_def)
qed

text \<open>A client that starts with \<open>alist_find_subj\<close> (or the same for objects or results) and goes on with
  \<open>alist_next_subj\<close> until it returns NULL visits exactly the nodes that have a subject context, in
  order, wherever the cursor was before.\<close>

theorem alist_walk_complete:
  "walk alist_find_subj alist_next_subj l = filter (\<lambda>n. an_scontext n \<noteq> None) (ll_nodes l) \<and>
   walk alist_find_obj alist_next_obj l = filter (\<lambda>n. an_tcontext n \<noteq> None) (ll_nodes l) \<and>
   walk alist_find_avc alist_next_avc l = filter (\<lambda>n. an_avc_result n \<noteq> AVC_UNSET) (ll_nodes l)"
  by (simp add: alist_find_subj_def alist_next_subj_def alist_find_obj_def alist_next_obj_def
        alist_find_avc_def alist_next_avc_def walk_filter)

end
