(* ===== verification/Event_List.thy ===== *)
theory Event_List
  imports Hit_Lists
begin

text \<open>
  The records of one audit event, as the search and report tools keep them: the linked list of
  \<open>src/ausearch-llist.c\<close> with the event's time stamp and the items that can be searched for.
\<close>

section \<open>Data\<close>

record event =
  ev_sec :: int
  ev_milli :: nat
  ev_serial :: nat
  ev_node :: "string option"
  ev_type :: int

datatype success_t = S_UNSET | S_FAILED | S_SUCCESS

record search_items =
  si_ppid :: int
  si_pid :: int
  si_uid :: u32
  si_euid :: u32
  si_loginuid :: u32
  si_gid :: u32
  si_egid :: u32
  si_success :: success_t
  si_arch :: int
  si_syscall :: int
  si_session_id :: u32
  si_exit :: int
  si_exit_is_set :: bool
  si_hostname :: "string option"
  si_filename :: "slist option"
  si_cwd :: "string option"
  si_exe :: "string option"
  si_key :: "slist option"
  si_terminal :: "string option"
  si_comm :: "string option"
  si_avc :: "alist option"
  si_acct :: "string option"
  si_uuid :: "string option"
  si_vmname :: "string option"
  si_tuid :: "string option"
  si_teuid :: "string option"
  si_tauid :: "string option"

text \<open>A record: its text up to the separator, the interpretations behind it, and its number.\<close>

record lnode =
  ln_message :: string
  ln_interp :: "string option"
  ln_mlen :: nat
  ln_tlen :: nat
  ln_type :: int
  ln_a0 :: nat
  ln_a1 :: nat
  ln_item :: u32

record llist =
  l_list :: "lnode linked"
  l_e :: event
  l_s :: search_items
  l_fmt :: int

definition LF_RAW :: int where "LF_RAW = 0"
definition LF_ENRICHED :: int where "LF_ENRICHED = 2"

section \<open>Operations\<close>

text \<open>The values \<open>list_create\<close> and \<open>list_clear\<close> give to the event and to the items.\<close>

definition event_unset :: event where
  "event_unset = \<lparr>ev_sec = 0, ev_milli = 0, ev_serial = 0, ev_node = None, ev_type = 0\<rparr>"

definition items_unset :: search_items where
  "items_unset =
     \<lparr>si_ppid = - 1, si_pid = - 1, si_uid = - 1, si_euid = - 1, si_loginuid = - 2, si_gid = - 1, si_egid = - 1,
      si_success = S_UNSET, si_arch = 0, si_syscall = 0, si_session_id = - 2, si_exit = 0, si_exit_is_set = False,
      si_hostname = None, si_filename = None, si_cwd = None, si_exe = None, si_key = None, si_terminal = None,
      si_comm = None, si_avc = None, si_acct = None, si_uuid = None, si_vmname = None, si_tuid = None,
      si_teuid = None, si_tauid = None\<rparr>"

definition list_create :: llist where
  "list_create = \<lparr>l_list = ll_create, l_e = event_unset, l_s = items_unset, l_fmt = LF_RAW\<rparr>"

definition list_first :: "llist \<Rightarrow> llist" where
  "list_first l = l\<lparr>l_list := ll_first (l_list l)\<rparr>"

definition list_last :: "llist \<Rightarrow> llist" where
  "list_last l = l\<lparr>l_list := ll_last (l_list l)\<rparr>"

definition list_get_cur :: "llist \<Rightarrow> lnode option" where
  "list_get_cur l = ll_get_cur (l_list l)"

definition list_next :: "llist \<Rightarrow> lnode option \<times> llist" where
  "list_next l = (let l' = l\<lparr>l_list := ll_next (l_list l)\<rparr> in (list_get_cur l', l'))"

definition list_append :: "bool \<Rightarrow> lnode \<Rightarrow> llist \<Rightarrow> llist ub" where
  "list_append mem_ok node l =
     map_option (\<lambda>ll. l\<lparr>l_list := ll\<rparr>) (ll_link mem_ok (node\<lparr>ln_item := ll_cnt (l_list l)\<rparr>) (l_list l))"

text \<open>The search starts at the cursor when the record asked for is not before it.\<close>

definition list_find_item :: "u32 \<Rightarrow> llist \<Rightarrow> bool \<times> llist" where
  "list_find_item i l =
     (let nodes = ll_nodes (l_list l);
          start = (case ll_cur (l_list l) of
                     Some c \<Rightarrow> if ln_item (nodes ! c) \<le> i then c else 0
                   | None \<Rightarrow> 0)
      in case ll_search (\<lambda>n. ln_item n = i) (drop start nodes) start of
           Some k \<Rightarrow> (True, l\<lparr>l_list := (l_list l)\<lparr>ll_cur := Some k\<rparr>\<rparr>)
         | None \<Rightarrow> (False, l))"

definition list_prev :: "llist \<Rightarrow> lnode option \<times> llist" where
  "list_prev l =
     (case list_get_cur l of
        None \<Rightarrow> (None, l)
      | Some n \<Rightarrow>
          if ln_item n = 0 then (None, l)
          else let l' = snd (list_find_item (ln_item n - 1) l) in (list_get_cur l', l'))"

definition list_clear :: "llist \<Rightarrow> llist" where
  "list_clear l =
     l\<lparr>l_list := \<lparr>ll_nodes = [], ll_cur = None, ll_cnt = 0\<rparr>, l_e := event_unset, l_s := items_unset\<rparr>"

text \<open>\<open>list_get_event\<close> copies the time and the serial number.\<close>

definition list_get_event :: "llist \<Rightarrow> event \<Rightarrow> event" where
  "list_get_event l e = e\<lparr>ev_sec := ev_sec (l_e l), ev_milli := ev_milli (l_e l), ev_serial := ev_serial (l_e l)\<rparr>"

definition find_from_head :: "(lnode \<Rightarrow> bool) \<Rightarrow> llist \<Rightarrow> lnode option \<times> llist" where
  "find_from_head P l =
     (case ll_search P (ll_nodes (l_list l)) 0 of
        Some k \<Rightarrow> (Some (ll_nodes (l_list l) ! k), l\<lparr>l_list := (l_list l)\<lparr>ll_cur := Some k\<rparr>\<rparr>)
      | None \<Rightarrow> (None, l))"

definition list_find_msg :: "int \<Rightarrow> llist \<Rightarrow> lnode option \<times> llist" where
  "list_find_msg i = find_from_head (\<lambda>n. ln_type n = i)"

definition list_find_msg_range :: "int \<Rightarrow> int \<Rightarrow> llist \<Rightarrow> lnode option \<times> llist" where
  "list_find_msg_range low high l =
     (if high \<le> low then (None, l) else find_from_head (\<lambda>n. low \<le> ln_type n \<and> ln_type n \<le> high) l)"

section \<open>Numbered lists\<close>

text \<open>The records of a list that was built by appending carry their position.\<close>

definition numbered :: "llist \<Rightarrow> bool" where
  "numbered l \<longleftrightarrow>
     ll_wf (l_list l) \<and> length (ll_nodes (l_list l)) < 2 ^ 32 \<and>
     (\<forall>j < length (ll_nodes (l_list l)). ln_item (ll_nodes (l_list l) ! j) = of_nat j)"

text \<open>A list under construction has its cursor on the last record.\<close>

definition building :: "llist \<Rightarrow> bool" where
  "building l \<longleftrightarrow> at_last (l_list l)"

lemma building_create: "building (list_create\<lparr>l_e := e, l_fmt := f\<rparr>)" "ll_nodes (l_list (list_create\<lparr>l_e := e, l_fmt := f\<rparr>)) = []"
  by (simp_all add: building_def list_create_def, simp add: ll_create_def)

lemma list_create_nodes [simp]: "ll_nodes (l_list list_create) = []"
  by (simp add: list_create_def ll_create_def)

lemma list_append_ok:
  assumes "building l"
  shows "\<exists>l'. list_append True n l = Some l' \<and> building l' \<and> l_e l' = l_e l \<and> l_fmt l' = l_fmt l \<and>
     ll_nodes (l_list l') = ll_nodes (l_list l) @ [n\<lparr>ln_item := of_nat (length (ll_nodes (l_list l)))\<rparr>]"
proof -
  have "ll_cnt (l_list l) = of_nat (length (ll_nodes (l_list l)))"
    using assms by (simp add: building_def at_last_def ll_wf_def)
  then show ?thesis
    using ll_link_at_last [of "l_list l" "n\<lparr>ln_item := ll_cnt (l_list l)\<rparr>"] assms
    by (auto simp: list_append_def building_def)
qed

lemma list_append_numbered:
  assumes "building l" "numbered l" "length (ll_nodes (l_list l)) + 1 < 2 ^ 32" "list_append True n l = Some l'"
  shows "numbered l'"
  using list_append_ok [OF assms(1), of n] assms(2-4)
  by (auto simp: numbered_def building_def at_last_def nth_append less_Suc_eq)

lemma of_nat_word_eq: "i < 2 ^ 32 \<Longrightarrow> j < 2 ^ 32 \<Longrightarrow> (of_nat i :: u32) = of_nat j \<longleftrightarrow> i = j"
  by (simp add: word_unat_eq_iff unat_of_nat)

lemma of_nat_word_le: "i < 2 ^ 32 \<Longrightarrow> j < 2 ^ 32 \<Longrightarrow> (of_nat i :: u32) \<le> of_nat j \<longleftrightarrow> i \<le> j"
  by (simp add: word_le_nat_alt unat_of_nat)

text \<open>The search from a start not behind the record finds it.\<close>

lemma numbered_search:
  assumes "numbered l" "s \<le> length (ll_nodes (l_list l))" "i < 2 ^ 32" "i < length (ll_nodes (l_list l)) \<longrightarrow> s \<le> i"
  shows "ll_search (\<lambda>n. ln_item n = of_nat i) (drop s (ll_nodes (l_list l))) s =
     (if i < length (ll_nodes (l_list l)) then Some i else None)"
proof (cases "ll_search (\<lambda>n. ln_item n = of_nat i) (drop s (ll_nodes (l_list l))) s")
  case None
  let ?ns = "ll_nodes (l_list l)"
  have "\<not> i < length ?ns"
  proof
    assume i: "i < length ?ns"
    then have "?ns ! i \<in> set (drop s ?ns)" using assms(4) in_set_conv_nth [of "?ns ! i" "drop s ?ns"]
      by (auto intro!: exI [of _ "i - s"])
    moreover have "ln_item (?ns ! i) = of_nat i" using assms(1) i by (simp add: numbered_def)
    ultimately show False using None by (auto simp: ll_search_None)
  qed
  with None show ?thesis by simp
next
  case (Some k)
  let ?ns = "ll_nodes (l_list l)"
  from ll_search_split [OF Some] obtain as n bs where
    n: "drop s ?ns = as @ n # bs" "ln_item n = of_nat i" "k = s + length as"
    by (elim exE conjE) simp
  have k: "k < length ?ns" using arg_cong [OF n(1), of length] n(3) by simp
  have "?ns ! k = n" using nth_drop [of s ?ns "length as"] n(1,3) assms(2) by (simp add: nth_append)
  then have "of_nat k = (of_nat i :: u32)" using assms(1) n(2) k unfolding numbered_def by metis
  then have "k = i" using of_nat_word_eq [of k i] assms(1,3) k by (simp add: numbered_def)
  with Some k show ?thesis by simp
qed

lemma list_find_item_ok:
  assumes "numbered l" "i < 2 ^ 32"
  shows "list_find_item (of_nat i) l =
    (if i < length (ll_nodes (l_list l)) then (True, l\<lparr>l_list := (l_list l)\<lparr>ll_cur := Some i\<rparr>\<rparr>) else (False, l))"
proof -
  let ?ns = "ll_nodes (l_list l)"
  define start where "start = (case ll_cur (l_list l) of Some c \<Rightarrow> if ln_item (?ns ! c) \<le> of_nat i then c else 0 | None \<Rightarrow> 0)"
  have "start \<le> length ?ns \<and> (i < length ?ns \<longrightarrow> start \<le> i)"
  proof (cases "ll_cur (l_list l)")
    case (Some c)
    then have c: "c < length ?ns" "c < 2 ^ 32" "ln_item (?ns ! c) = of_nat c"
      using assms(1) by (auto simp: numbered_def ll_wf_def)
    with Some of_nat_word_le [OF c(2) assms(2)] show ?thesis by (simp add: start_def)
  qed (simp add: start_def)
  then have "ll_search (\<lambda>n. ln_item n = of_nat i) (drop start ?ns) start = (if i < length ?ns then Some i else None)"
    using numbered_search [OF assms(1) _ assms(2)] by blast
  then show ?thesis by (simp add: list_find_item_def start_def [symmetric])
qed

section \<open>Properties\<close>

text \<open>On a list built by appending, \<open>list_find_item\<close> reaches every record by its number wherever the
  cursor is, and reports the others as missing without moving; \<open>list_prev\<close> steps back one record
  and stays at the first.\<close>

theorem list_navigation:
  assumes "numbered l" "i < 2 ^ 32"
  shows "list_find_item (of_nat i) l =
      (if i < length (ll_nodes (l_list l)) then (True, l\<lparr>l_list := (l_list l)\<lparr>ll_cur := Some i\<rparr>\<rparr>) else (False, l)) \<and>
    (ll_cur (l_list l) = Some c \<longrightarrow>
       list_prev l = (if c = 0 then (None, l)
                      else (Some (ll_nodes (l_list l) ! (c - 1)), l\<lparr>l_list := (l_list l)\<lparr>ll_cur := Some (c - 1)\<rparr>\<rparr>)))"
proof (intro conjI impI)
  assume cur: "ll_cur (l_list l) = Some c"
  let ?ns = "ll_nodes (l_list l)"
  have c: "c < length ?ns" "c < 2 ^ 32" "ln_item (?ns ! c) = of_nat c"
    using assms(1) cur by (auto simp: numbered_def ll_wf_def)
  have zero: "(of_nat c :: u32) = 0 \<longleftrightarrow> c = 0" using of_nat_word_eq [of c 0] c(2) by simp
  have pred: "of_nat c - 1 = (of_nat (c - 1) :: u32)" if "c \<noteq> 0" using that by (cases c) simp_all
  show "list_prev l = (if c = 0 then (None, l)
     else (Some (?ns ! (c - 1)), l\<lparr>l_list := (l_list l)\<lparr>ll_cur := Some (c - 1)\<rparr>\<rparr>))"
  proof (cases "c = 0")
    case False
    have "list_find_item (of_nat c - 1) l = (True, l\<lparr>l_list := (l_list l)\<lparr>ll_cur := Some (c - 1)\<rparr>\<rparr>)"
      unfolding pred [OF False] using list_find_item_ok [OF assms(1), of "c - 1"] c(1,2) by simp
    with False cur c(3) zero show ?thesis by (simp add: list_prev_def list_get_cur_def ll_get_cur_def Let_def)
  qed (use cur c(3) in \<open>simp add: list_prev_def list_get_cur_def ll_get_cur_def\<close>)
qed (rule list_find_item_ok [OF assms])

definition demo_llist :: llist where
  "demo_llist = list_create\<lparr>l_list := \<lparr>ll_nodes =
     [\<lparr>ln_message = ''a'', ln_interp = None, ln_mlen = 1, ln_tlen = 1, ln_type = 1300, ln_a0 = 0, ln_a1 = 0, ln_item = 0\<rparr>,
      \<lparr>ln_message = ''b'', ln_interp = None, ln_mlen = 1, ln_tlen = 1, ln_type = 1302, ln_a0 = 0, ln_a1 = 0, ln_item = 1\<rparr>],
     ll_cur = Some 1, ll_cnt = 2\<rparr>\<rparr>"

theorem list_navigation_witness:
  "fst (list_find_item 0 demo_llist) \<and> map_option ln_message (fst (list_prev demo_llist)) = Some ''a''"
proof -
  have "numbered demo_llist" by (auto simp: numbered_def demo_llist_def ll_wf_def less_Suc_eq)
  from list_navigation [OF this, of 0 1] show ?thesis by (simp add: demo_llist_def)
qed

end
