(* ===== verification/Event_Assembly.thy ===== *)
theory Event_Assembly
  imports Event_List Strsplit Lookup_Table "HOL-Library.Product_Lexorder"
begin

text \<open>
  How the search and report tools put the records of a log back together into events: the list of
  lists of \<open>src/ausearch-lol.c\<close>.

  Every record is a line; its time stamp, serial number and node name say to which event it belongs.
  Events under construction wait in a growing array until they are known to be complete and no
  older event is waiting. A slot of the array is its status together with the list it owns; the
  pointer of an empty slot is never read. The static counter \<open>ready\<close> and the time of the very
  first event are part of the state. Constants of the kernel's header \<open>linux/audit.h\<close>, the search
  interval and the table of record types are parameters.
\<close>

section \<open>Data\<close>

datatype lolnode = L_EMPTY | L_BUILDING llist | L_COMPLETE llist

record lol =
  lo_array :: "lolnode list"
  lo_maxi :: int
  lo_limit :: nat
  lo_ready :: int
  lo_first :: "int \<times> nat"

record lol_env =
  le_tables :: gen_tables
  le_start_time :: int
  le_end_time :: int
  le_AUDIT_KERNEL :: int
  le_AUDIT_EOE :: int
  le_AUDIT_MAC_UNLBL_ALLOW :: int

text \<open>The outcome of the allocations of one call: the copies of node and message, the list, its
  node, the growth of the array.\<close>

record lol_mem =
  m_node :: bool
  m_message :: bool
  m_llist :: bool
  m_lnode :: bool
  m_array :: bool

definition all_mem :: lol_mem where
  "all_mem = \<lparr>m_node = True, m_message = True, m_llist = True, m_lnode = True, m_array = True\<rparr>"

definition ARRAY_LIMIT :: nat where "ARRAY_LIMIT = 80"
definition AUDIT_PROCTITLE :: int where "AUDIT_PROCTITLE = 1327"
definition AUDIT_FIRST_EVENT :: int where "AUDIT_FIRST_EVENT = 1300"
definition AUDIT_FIRST_ANOM_MSG :: int where "AUDIT_FIRST_ANOM_MSG = 2100"
definition AUDIT_MAC_CALIPSO_DEL :: int where "AUDIT_MAC_CALIPSO_DEL = 1419"
definition MAX_AUDIT_MESSAGE_LENGTH :: nat where "MAX_AUDIT_MESSAGE_LENGTH = 8970"

abbreviation AUDIT_INTERP_SEPARATOR :: char where
  "AUDIT_INTERP_SEPARATOR \<equiv> CHR 0x1D"

section \<open>The array\<close>

text \<open>The slots the loops run over: up to \<open>maxi\<close>.\<close>

definition used :: "lol \<Rightarrow> nat" where
  "used lo = nat (lo_maxi lo + 1)"

definition lol_create :: "bool \<Rightarrow> lol \<Rightarrow> lol ub" where
  "lol_create mem_ok lo =
     (if mem_ok then Some (lo\<lparr>lo_maxi := - 1, lo_limit := ARRAY_LIMIT, lo_array := replicate ARRAY_LIMIT L_EMPTY\<rparr>)
      else None)"

text \<open>The lists are cleared and freed with the array.\<close>

definition lol_clear :: "lol \<Rightarrow> lol" where
  "lol_clear lo = lo\<lparr>lo_array := [], lo_maxi := - 1\<rparr>"

definition lol_append :: "bool \<Rightarrow> llist \<Rightarrow> lol \<Rightarrow> lol" where
  "lol_append mem_ok l lo =
     (case ll_search (\<lambda>n. n = L_EMPTY) (take (lo_limit lo) (lo_array lo)) 0 of
        Some i \<Rightarrow> lo\<lparr>lo_array := (lo_array lo)[i := L_BUILDING l], lo_maxi := max (lo_maxi lo) (int i)\<rparr>
      | None \<Rightarrow>
          if mem_ok then
            lo\<lparr>lo_array := (lo_array lo @ replicate ARRAY_LIMIT L_EMPTY)[lo_limit lo := L_BUILDING l],
               lo_maxi := int (lo_limit lo), lo_limit := lo_limit lo + ARRAY_LIMIT\<rparr>
          else lo)"

section \<open>Time stamps\<close>

text \<open>The conversion of an \<open>unsigned long\<close> to the signed \<open>time_t\<close>.\<close>

definition to_time :: "nat \<Rightarrow> int" where
  "to_time n = (if n < 2 ^ 63 then int n else int n - 2 ^ 64)"

text \<open>The part of a string behind the first occurrence of a character.\<close>

definition after_char :: "char \<Rightarrow> string \<Rightarrow> string option" where
  "after_char c s = (case strchr c s of None \<Rightarrow> None | Some k \<Rightarrow> Some (drop (k + 1) s))"

definition str2event :: "string \<Rightarrow> (int \<times> nat \<times> nat) option" where
  "str2event s =
     (case strtoul s of
        (_, True) \<Rightarrow> None
      | (sec, False) \<Rightarrow>
          (case (case after_char CHR ''.'' s of
                   Some p \<Rightarrow> (case strtoul p of (_, True) \<Rightarrow> None | (m, False) \<Rightarrow> Some (m mod 2 ^ 32, p))
                 | None \<Rightarrow> Some (0, s)) of
             None \<Rightarrow> None
           | Some (milli, s') \<Rightarrow>
               (case after_char CHR '':'' s' of
                  Some p \<Rightarrow> (case strtoul p of (_, True) \<Rightarrow> None | (n, False) \<Rightarrow> Some (to_time sec, milli, n))
                | None \<Rightarrow> Some (to_time sec, milli, 0))))"

definition events_are_equal :: "event \<Rightarrow> event \<Rightarrow> bool" where
  "events_are_equal e1 e2 \<longleftrightarrow>
     ev_serial e1 = ev_serial e2 \<and> ev_milli e1 = ev_milli e2 \<and> ev_sec e1 = ev_sec e2 \<and>
     (case (ev_node e1, ev_node e2) of
        (Some n1, Some n2) \<Rightarrow> n1 = n2
      | (None, None) \<Rightarrow> True
      | _ \<Rightarrow> False)"

definition compare_event_time :: "event \<Rightarrow> event \<Rightarrow> int" where
  "compare_event_time e1 e2 =
     (if ev_sec e1 \<noteq> ev_sec e2 then (if ev_sec e1 > ev_sec e2 then 1 else - 1)
      else if ev_milli e1 \<noteq> ev_milli e2 then (if ev_milli e1 > ev_milli e2 then 1 else - 1)
      else if ev_serial e1 \<noteq> ev_serial e2 then (if ev_serial e1 > ev_serial e2 then 1 else - 1)
      else 0)"

text \<open>Reading one character of a block of memory.\<close>

definition mem_at :: "string \<Rightarrow> nat \<Rightarrow> char ub" where
  "mem_at mem i = (if i < length mem then Some (mem ! i) else None)"

text \<open>The end of \<open>extract_timestamp\<close>: an event in the search interval gets its node and its type.\<close>

definition event_in_time :: "lol_env \<Rightarrow> bool \<Rightarrow> nat option \<Rightarrow> nat \<Rightarrow> string \<Rightarrow> int \<times> nat \<times> nat \<Rightarrow> int \<times> nat \<Rightarrow> (event option \<times> int \<times> nat) ub" where
  "event_in_time env dup_ok tnode ttype mem t first =
     (case t of (sec, milli, serial) \<Rightarrow>
        if (le_start_time env \<noteq> 0 \<and> sec < le_start_time env) \<or> (le_end_time env \<noteq> 0 \<and> sec > le_end_time env) then
          Some (None, if fst first = 0 then (sec, milli) else first)
        else do {
          let first' = (if fst first = 0 \<and> le_start_time env = 0 then (sec, milli) else first);
          node \<leftarrow> (case tnode of
                     None \<Rightarrow> Some None
                   | Some p \<Rightarrow> do { n \<leftarrow> string_at mem p; Some (if dup_ok then Some n else None) });
          ty \<leftarrow> string_at mem ttype;
          Some (Some \<lparr>ev_sec = sec, ev_milli = milli, ev_serial = serial, ev_node = node,
                      ev_type = audit_name_to_msg_type (le_tables env) ty\<rparr>, first')
        })"

text \<open>The part from the token \<open>msg=\<close> (at \<open>q\<close>) on.\<close>

definition timestamp_from :: "lol_env \<Rightarrow> bool \<Rightarrow> nat option \<Rightarrow> nat \<Rightarrow> string \<Rightarrow> nat \<Rightarrow> int \<times> nat \<Rightarrow> (event option \<times> int \<times> nat) ub" where
  "timestamp_from env dup_ok tnode ttype mem q first = do {
     c \<leftarrow> mem_at mem (q + 9);
     ptr \<leftarrow> (if c = CHR ''('' then Some (Some (q + 9))
            else do { s \<leftarrow> string_at mem q; Some (map_option (\<lambda>k. q + k) (strchr CHR ''('' s)) });
     case ptr of
       None \<Rightarrow> Some (None, first)
     | Some p \<Rightarrow> do {
         s \<leftarrow> string_at mem (p + 1);
         let (ts, mem') = (case strchr CHR '')'' s of
                             Some k \<Rightarrow> (take k s, mem[p + 1 + k := NUL])
                           | None \<Rightarrow> (s, mem));
         case str2event ts of
           None \<Rightarrow> Some (None, first)
         | Some t \<Rightarrow> event_in_time env dup_ok tnode ttype mem' t first
       }
   }"

text \<open>
  \<open>extract_timestamp\<close>: the event of a line, or \<open>None\<close> for a line that is malformed or out of the
  search interval, and the time of the very first event. The line is cut in a copy of its start;
  \<open>None\<close> of the outer type is a read outside the copy.
\<close>

definition extract_timestamp :: "lol_env \<Rightarrow> bool \<Rightarrow> string \<Rightarrow> int \<times> nat \<Rightarrow> (event option \<times> int \<times> nat) ub" where
  "extract_timestamp env dup_ok b first = do {
     let mem = take (if peek b = CHR ''n'' then 340 else 80) b @ [NUL];
     (p1, mem1, str1) \<leftarrow> audit_strsplit (Some 0) None mem;
     case p1 of
       None \<Rightarrow> Some (None, first)
     | Some q1 \<Rightarrow> do {
         c \<leftarrow> mem_at mem1 q1;
         (tnode, p2, mem2, str2) \<leftarrow>
           (if c = CHR ''n'' then do { (p, m, s) \<leftarrow> audit_strsplit None str1 mem1; Some (Some (q1 + 5), p, m, s) }
            else Some (None, p1, mem1, str1));
         (p3, mem3, str3) \<leftarrow> audit_strsplit None str2 mem2;
         case (p2, p3) of
           (Some q2, Some q3) \<Rightarrow> timestamp_from env dup_ok tnode (q2 + 5) mem3 q3 first
         | _ \<Rightarrow> Some (None, first)
       }
   }"

section \<open>Adding a record\<close>

definition known_complete :: "lol_env \<Rightarrow> event \<Rightarrow> bool" where
  "known_complete env e \<longleftrightarrow>
     ev_type e = AUDIT_PROCTITLE \<or> ev_type e < AUDIT_FIRST_EVENT \<or> ev_type e \<ge> AUDIT_FIRST_ANOM_MSG \<or>
     ev_type e = le_AUDIT_KERNEL env \<or>
     (ev_type e \<ge> le_AUDIT_MAC_UNLBL_ALLOW env \<and> ev_type e \<le> AUDIT_MAC_CALIPSO_DEL)"

definition completes :: "lol_env \<Rightarrow> int \<Rightarrow> lolnode \<Rightarrow> bool" where
  "completes env sec n \<longleftrightarrow>
     (case n of L_BUILDING l \<Rightarrow> ev_sec (l_e l) + 2 \<le> sec \<or> known_complete env (l_e l) | _ \<Rightarrow> False)"

definition complete_node :: "lolnode \<Rightarrow> lolnode" where
  "complete_node n = (case n of L_BUILDING l \<Rightarrow> L_COMPLETE l | _ \<Rightarrow> n)"

text \<open>\<open>check_events\<close>; the addition to a signed \<open>time_t\<close> must not overflow.\<close>

definition sec_overflows :: "lolnode \<Rightarrow> bool" where
  "sec_overflows n \<longleftrightarrow> (case n of L_BUILDING l \<Rightarrow> ev_sec (l_e l) + 2 \<ge> 2 ^ 63 | _ \<Rightarrow> False)"

definition check_events :: "lol_env \<Rightarrow> int \<Rightarrow> lol \<Rightarrow> lol ub" where
  "check_events env sec lo =
     (let slots = take (used lo) (lo_array lo) in
      if \<exists>n \<in> set slots. sec_overflows n then None
      else Some (lo\<lparr>lo_array := map (\<lambda>n. if completes env sec n then complete_node n else n) slots @ drop (used lo) (lo_array lo),
                    lo_ready := lo_ready lo + int (length (filter (completes env sec) slots))\<rparr>))"

text \<open>The position of the last newline.\<close>

definition last_newline :: "string \<Rightarrow> nat option" where
  "last_newline s = map_option (\<lambda>k. length s - 1 - k) (strchr CHR 0x0A (rev s))"

text \<open>The record of a line and the format of its event: the text before the separator, the
  interpretations behind it up to the last newline.\<close>

definition make_lnode :: "int \<Rightarrow> string \<Rightarrow> lnode \<times> int" where
  "make_lnode ty buff =
     (let limit = (\<lambda>n. min n MAX_AUDIT_MESSAGE_LENGTH);
          node = (\<lambda>msg interp mlen tlen.
            \<lparr>ln_message = msg, ln_interp = interp, ln_mlen = mlen, ln_tlen = tlen, ln_type = ty, ln_a0 = 0, ln_a1 = 0, ln_item = 0\<rparr>)
      in case strchr AUDIT_INTERP_SEPARATOR buff of
           Some k \<Rightarrow>
             let interp = drop (k + 1) buff in
             (case last_newline interp of
                Some j \<Rightarrow> (node (take k buff) (Some (take j interp)) (limit k) (limit (k + 1 + j)), LF_ENRICHED)
              | None \<Rightarrow> (node (take k buff) (Some interp) (limit k) (limit k), LF_ENRICHED))
         | None \<Rightarrow>
             (case last_newline buff of
                Some j \<Rightarrow> (node (take j buff) None (limit j) (limit j), LF_RAW)
              | None \<Rightarrow> (node buff None (length buff) (length buff), LF_RAW)))"

definition is_event :: "event \<Rightarrow> lolnode \<Rightarrow> bool" where
  "is_event e n \<longleftrightarrow> (case n of L_BUILDING l \<Rightarrow> events_are_equal (l_e l) e | _ \<Rightarrow> False)"

definition lol_add_record :: "lol_env \<Rightarrow> lol_mem \<Rightarrow> string \<Rightarrow> lol \<Rightarrow> (bool \<times> lol) ub" where
  "lol_add_record env mem buff lo0 = do {
     (r, first) \<leftarrow> extract_timestamp env (m_node mem) buff (lo_first lo0);
     let lo = lo0\<lparr>lo_first := first\<rparr>;
     case r of
       None \<Rightarrow> Some (False, lo)
     | Some e \<Rightarrow>
         if \<not> m_message mem then None
         else
           let (n, fmt) = make_lnode (ev_type e) buff in
           (case ll_search (is_event e) (take (used lo) (lo_array lo)) 0 of
              Some i \<Rightarrow>
                (case lo_array lo ! i of
                   L_BUILDING l \<Rightarrow> do {
                     l' \<leftarrow> list_append (m_lnode mem) n l;
                     Some (True, lo\<lparr>lo_array := (lo_array lo)[i := L_BUILDING (l'\<lparr>l_fmt := max (l_fmt l') fmt\<rparr>)]\<rparr>)
                   }
                 | _ \<Rightarrow> None)
            | None \<Rightarrow>
                if ev_type e = le_AUDIT_EOE env then Some (False, lo)
                else if \<not> m_llist mem then None
                else do {
                  l \<leftarrow> list_append (m_lnode mem) n (list_create\<lparr>l_e := e, l_fmt := fmt\<rparr>);
                  lo' \<leftarrow> check_events env (ev_sec e) (lol_append (m_array mem) l lo);
                  Some (True, lo')
                })
   }"

section \<open>Taking events out\<close>

definition terminate_all_events :: "lol \<Rightarrow> lol" where
  "terminate_all_events lo =
     (let slots = take (used lo) (lo_array lo) in
      lo\<lparr>lo_array := map complete_node slots @ drop (used lo) (lo_array lo),
         lo_ready := lo_ready lo + int (length (filter (\<lambda>n. complete_node n \<noteq> n) slots))\<rparr>)"

definition slot_event :: "lolnode \<Rightarrow> event option" where
  "slot_event n = (case n of L_EMPTY \<Rightarrow> None | L_BUILDING l \<Rightarrow> Some (l_e l) | L_COMPLETE l \<Rightarrow> Some (l_e l))"

text \<open>The loop of \<open>get_ready_event\<close>: the position of the lowest event so far, and its time stamp.\<close>

fun find_lowest :: "lolnode list \<Rightarrow> nat \<Rightarrow> (nat \<times> event) option \<Rightarrow> (nat \<times> event) option" where
  "find_lowest [] i lowest = lowest"
| "find_lowest (n # ns) i lowest =
     find_lowest ns (i + 1)
       (case slot_event n of
          None \<Rightarrow> lowest
        | Some e \<Rightarrow>
            (case lowest of
               None \<Rightarrow> Some (i, e)
             | Some (_, e0) \<Rightarrow> if compare_event_time e0 e = 1 then Some (i, e) else lowest))"

fun shrink_maxi :: "lolnode list \<Rightarrow> nat \<Rightarrow> nat" where
  "shrink_maxi array 0 = 0"
| "shrink_maxi array (Suc m) = (if array ! Suc m = L_EMPTY then shrink_maxi array m else Suc m)"

definition get_ready_event :: "lol \<Rightarrow> llist option \<times> lol" where
  "get_ready_event lo =
     (if lo_ready lo = 0 then (None, lo)
      else
        case find_lowest (take (used lo) (lo_array lo)) 0 None of
          None \<Rightarrow> (None, lo)
        | Some (i, _) \<Rightarrow>
            (case lo_array lo ! i of
               L_COMPLETE l \<Rightarrow>
                 let array = (lo_array lo)[i := L_EMPTY];
                     maxi = (if int i = lo_maxi lo then int (shrink_maxi array i) else lo_maxi lo)
                 in (Some l, lo\<lparr>lo_array := array, lo_ready := lo_ready lo - 1, lo_maxi := maxi\<rparr>)
             | _ \<Rightarrow> (None, lo)))"

section \<open>The invariant\<close>

definition is_building :: "lolnode \<Rightarrow> bool" where
  "is_building n \<longleftrightarrow> (case n of L_BUILDING _ \<Rightarrow> True | _ \<Rightarrow> False)"

definition is_complete :: "lolnode \<Rightarrow> bool" where
  "is_complete n \<longleftrightarrow> (case n of L_COMPLETE _ \<Rightarrow> True | _ \<Rightarrow> False)"

lemma slot_status [simp]:
  "\<not> is_building L_EMPTY" "is_building (L_BUILDING l)" "\<not> is_building (L_COMPLETE l)"
  "\<not> is_complete L_EMPTY" "\<not> is_complete (L_BUILDING l)" "is_complete (L_COMPLETE l)"
  "complete_node L_EMPTY = L_EMPTY" "complete_node (L_BUILDING l) = L_COMPLETE l" "complete_node (L_COMPLETE l) = L_COMPLETE l"
  by (simp_all add: is_building_def is_complete_def complete_node_def)

definition slot_ok :: "lolnode \<Rightarrow> bool" where
  "slot_ok n \<longleftrightarrow> (case n of L_BUILDING l \<Rightarrow> building l \<and> ev_sec (l_e l) + 2 < 2 ^ 63 | _ \<Rightarrow> True)"

definition lol_wf :: "lol \<Rightarrow> bool" where
  "lol_wf lo \<longleftrightarrow>
     length (lo_array lo) = lo_limit lo \<and> - 1 \<le> lo_maxi lo \<and> lo_maxi lo < int (lo_limit lo) \<and>
     (\<forall>n \<in> set (drop (used lo) (lo_array lo)). n = L_EMPTY) \<and>
     lo_ready lo = int (length (filter is_complete (lo_array lo))) \<and> (\<forall>n \<in> set (lo_array lo). slot_ok n)"

text \<open>The abstract state: the multiset of the events in the array.\<close>

definition live :: "lol \<Rightarrow> lolnode multiset" where
  "live lo = filter_mset (\<lambda>n. n \<noteq> L_EMPTY) (mset (lo_array lo))"

lemma lol_wfD:
  assumes "lol_wf lo"
  shows "length (lo_array lo) = lo_limit lo" "- 1 \<le> lo_maxi lo" "lo_maxi lo < int (lo_limit lo)" "used lo \<le> lo_limit lo"
    "\<And>n. n \<in> set (drop (used lo) (lo_array lo)) \<Longrightarrow> n = L_EMPTY"
    "lo_ready lo = int (length (filter is_complete (lo_array lo)))" "\<And>n. n \<in> set (lo_array lo) \<Longrightarrow> slot_ok n"
  using assms by (auto simp: lol_wf_def used_def)

lemma slots_split: "lo_array lo = take (used lo) (lo_array lo) @ drop (used lo) (lo_array lo)"
  by simp

lemma empty_slots:
  assumes "\<And>n. n \<in> set ns \<Longrightarrow> n = L_EMPTY"
  shows "filter is_complete ns = []" "filter_mset (\<lambda>n. n \<noteq> L_EMPTY) (mset ns) = {#}"
proof -
  have "\<forall>n \<in> set ns. n = L_EMPTY" using assms by blast
  then show "filter is_complete ns = []" "filter_mset (\<lambda>n. n \<noteq> L_EMPTY) (mset ns) = {#}"
    by (induction ns) auto
qed

lemma live_used:
  assumes "lol_wf lo"
  shows "live lo = filter_mset (\<lambda>n. n \<noteq> L_EMPTY) (mset (take (used lo) (lo_array lo)))"
proof -
  have "live lo = filter_mset (\<lambda>n. n \<noteq> L_EMPTY) (mset (take (used lo) (lo_array lo) @ drop (used lo) (lo_array lo)))"
    by (simp add: live_def)
  also have "\<dots> = filter_mset (\<lambda>n. n \<noteq> L_EMPTY) (mset (take (used lo) (lo_array lo)))"
    unfolding mset_append filter_union_mset using empty_slots(2) [OF lol_wfD(5) [OF assms]] by simp
  finally show ?thesis .
qed

text \<open>Marking some of the events under construction as complete.\<close>

definition mark :: "(lolnode \<Rightarrow> bool) \<Rightarrow> lolnode \<Rightarrow> lolnode" where
  "mark P n = (if P n then complete_node n else n)"

lemma mark_count:
  assumes "\<And>n. P n \<Longrightarrow> is_building n"
  shows "length (filter is_complete (map (mark P) ns)) = length (filter is_complete ns) + length (filter P ns)"
proof (induction ns)
  case (Cons n ns)
  then show ?case using assms [of n] by (cases n) (auto simp: mark_def)
qed simp

lemma mark_empty [simp]: "mark P L_EMPTY = L_EMPTY" and mark_nonempty: "mark P n = L_EMPTY \<longleftrightarrow> n = L_EMPTY"
  and mark_ok: "slot_ok n \<Longrightarrow> slot_ok (mark P n)"
  by (cases n; auto simp: mark_def slot_ok_def)+

lemma filter_mark: "filter_mset (\<lambda>n. n \<noteq> L_EMPTY) (image_mset (mark P) M) = image_mset (mark P) (filter_mset (\<lambda>n. n \<noteq> L_EMPTY) M)"
  by (induction M) (auto simp: mark_nonempty)

lemma mark_slots_ok:
  assumes "lol_wf lo" "\<And>n. P n \<Longrightarrow> is_building n"
    "lo' = lo\<lparr>lo_array := map (mark P) (take (used lo) (lo_array lo)) @ drop (used lo) (lo_array lo),
              lo_ready := lo_ready lo + int (length (filter P (take (used lo) (lo_array lo))))\<rparr>"
  shows "lol_wf lo'" "live lo' = image_mset (mark P) (live lo)"
proof -
  note wf = lol_wfD [OF assms(1)]
  let ?u = "take (used lo) (lo_array lo)" and ?d = "drop (used lo) (lo_array lo)"
  have used: "used lo' = used lo" "lo_limit lo' = lo_limit lo" "lo_maxi lo' = lo_maxi lo"
    by (simp_all add: used_def assms(3))
  have len: "length ?u = used lo" using wf(1,4) by simp
  have drop: "drop (used lo') (lo_array lo') = ?d"
    unfolding used(1) using len by (simp add: assms(3))
  have "filter is_complete (lo_array lo) = filter is_complete ?u"
    using empty_slots(1) [OF wf(5)] by (subst slots_split) (simp del: append_take_drop_id)
  moreover have "filter is_complete (lo_array lo') = filter is_complete (map (mark P) ?u)"
    using empty_slots(1) [OF wf(5)] by (simp add: assms(3))
  ultimately have "lo_ready lo' = int (length (filter is_complete (lo_array lo')))"
    using wf(6) mark_count [OF assms(2), where ns = ?u] by (simp add: assms(3))
  moreover have "\<forall>n \<in> set (lo_array lo'). slot_ok n"
    using wf(7) mark_ok by (auto simp: assms(3) dest!: in_set_takeD in_set_dropD)
  moreover have "length (lo_array lo') = lo_limit lo'"
    using wf(1,4) by (simp add: assms(3))
  moreover have "\<forall>n \<in> set (drop (used lo') (lo_array lo')). n = L_EMPTY"
    unfolding drop using wf(5) by blast
  ultimately show "lol_wf lo'"
    using wf(2,3) used by (simp add: lol_wf_def)
  show "live lo' = image_mset (mark P) (live lo)"
    unfolding live_used [OF \<open>lol_wf lo'\<close>] live_used [OF assms(1)] used
    using len by (simp add: assms(3) filter_mark)
qed

lemma check_events_ok:
  assumes "lol_wf lo"
  shows "\<exists>lo'. check_events env sec lo = Some lo' \<and> lol_wf lo' \<and> live lo' = image_mset (mark (completes env sec)) (live lo)"
proof -
  have P: "completes env sec n \<Longrightarrow> is_building n" for n by (cases n) (auto simp: completes_def)
  have "\<not> sec_overflows n" if "n \<in> set (take (used lo) (lo_array lo))" for n
    using lol_wfD(7) [OF assms, of n] in_set_takeD [OF that] by (cases n) (auto simp: sec_overflows_def slot_ok_def)
  moreover have "(\<lambda>n. if completes env sec n then complete_node n else n) = mark (completes env sec)"
    by (simp add: mark_def fun_eq_iff)
  ultimately show ?thesis
    using mark_slots_ok [where P = "completes env sec", OF assms P refl] by (auto simp: check_events_def Let_def)
qed

lemma terminate_all_events_ok:
  assumes "lol_wf lo"
  shows "lol_wf (terminate_all_events lo)" "live (terminate_all_events lo) = image_mset complete_node (live lo)"
proof -
  have "mark is_building = complete_node" "(\<lambda>n. complete_node n \<noteq> n) = is_building"
    by (auto simp: mark_def fun_eq_iff is_building_def complete_node_def split: lolnode.splits)
  then have "terminate_all_events lo =
     lo\<lparr>lo_array := map (mark is_building) (take (used lo) (lo_array lo)) @ drop (used lo) (lo_array lo),
        lo_ready := lo_ready lo + int (length (filter is_building (take (used lo) (lo_array lo))))\<rparr>"
    by (simp add: terminate_all_events_def Let_def)
  from mark_slots_ok [OF assms _ this] \<open>mark is_building = complete_node\<close>
  show "lol_wf (terminate_all_events lo)" "live (terminate_all_events lo) = image_mset complete_node (live lo)" by auto
qed

lemma lol_append_ok:
  assumes "lol_wf lo" "slot_ok (L_BUILDING l)"
  shows "lol_wf (lol_append True l lo)" "live (lol_append True l lo) = add_mset (L_BUILDING l) (live lo)"
proof -
  note wf = lol_wfD [OF assms(1)]
  have "lol_wf (lol_append True l lo) \<and> live (lol_append True l lo) = add_mset (L_BUILDING l) (live lo)"
  proof (cases "ll_search (\<lambda>n. n = L_EMPTY) (lo_array lo) 0")
    case (Some i)
    from ll_search_split [OF Some] obtain as bs where a: "lo_array lo = as @ L_EMPTY # bs" "i = length as"
      by (elim exE conjE) simp
    define lo' where "lo' = lo\<lparr>lo_array := as @ L_BUILDING l # bs, lo_maxi := max (lo_maxi lo) (int i)\<rparr>"
    have eq: "lol_append True l lo = lo'" using Some a wf(1) by (simp add: lol_append_def lo'_def)
    have "used lo' = max (used lo) (i + 1)" using wf(2) by (simp add: used_def lo'_def max_def) arith
    then have "set (drop (used lo') (lo_array lo')) \<subseteq> set (drop (used lo) (lo_array lo))"
      using a by (auto simp: lo'_def max_def drop_Cons' split: if_splits dest: in_set_dropD)
    moreover have "length (lo_array lo') = lo_limit lo'" using wf(1) a by (simp add: lo'_def)
    ultimately have "lol_wf lo'"
      using wf(2,3,5,6,7) a assms(2) by (auto simp: lol_wf_def lo'_def)
    moreover have "live lo' = add_mset (L_BUILDING l) (live lo)" using a by (simp add: live_def lo'_def)
    ultimately show ?thesis using eq by simp
  next
    case None
    define lo' where "lo' = lo\<lparr>lo_array := lo_array lo @ L_BUILDING l # replicate 79 L_EMPTY,
      lo_maxi := int (lo_limit lo), lo_limit := lo_limit lo + ARRAY_LIMIT\<rparr>"
    have rep: "replicate ARRAY_LIMIT L_EMPTY = L_EMPTY # replicate 79 L_EMPTY"
      by (simp add: ARRAY_LIMIT_def numeral_eq_Suc)
    have eq: "lol_append True l lo = lo'"
      unfolding lol_append_def lo'_def rep using None wf(1) by (simp add: list_update_append)
    have "used lo' = lo_limit lo + 1" by (simp add: used_def lo'_def nat_add_distrib)
    then have "lol_wf lo'"
      using wf(1,6,7) assms(2) by (auto simp: lol_wf_def lo'_def ARRAY_LIMIT_def filter_empty_conv slot_ok_def)
    moreover have "live lo' = add_mset (L_BUILDING l) (live lo)" by (simp add: live_def lo'_def)
    ultimately show ?thesis using eq by simp
  qed
  then show "lol_wf (lol_append True l lo)" "live (lol_append True l lo) = add_mset (L_BUILDING l) (live lo)" by blast+
qed

section \<open>The order of events\<close>

definition time_of :: "event \<Rightarrow> int \<times> nat \<times> nat" where
  "time_of e = (ev_sec e, ev_milli e, ev_serial e)"

lemma compare_event_time: "compare_event_time e1 e2 = 1 \<longleftrightarrow> time_of e2 < time_of e1"
  by (auto simp: compare_event_time_def time_of_def)

lemma find_lowest_pick: "find_lowest ns i best = pick_lowest slot_event time_of ns i best"
  by (induction ns arbitrary: i best) (simp_all add: compare_event_time cong: option.case_cong)

lemma shrink_maxi_le: "shrink_maxi a i \<le> i"
  by (induction i) auto

lemma shrink_maxi_empty: "a ! i = L_EMPTY \<Longrightarrow> shrink_maxi a i < k \<Longrightarrow> k \<le> i \<Longrightarrow> a ! k = L_EMPTY"
proof (induction i arbitrary: k)
  case (Suc i)
  show ?case
  proof (cases "k = Suc i")
    case False
    then have "k \<le> i" "shrink_maxi a i < k" using Suc.prems by simp_all
    moreover have "a ! i = L_EMPTY" using \<open>k \<le> i\<close> \<open>shrink_maxi a i < k\<close> by (cases i) (auto split: if_splits)
    ultimately show ?thesis using Suc.IH by blast
  qed (use Suc.prems in simp)
qed simp

lemma drop_all_nth: "(\<forall>n \<in> set (drop k xs). P n) \<longleftrightarrow> (\<forall>j. k \<le> j \<longrightarrow> j < length xs \<longrightarrow> P (xs ! j))"
proof
  assume all: "\<forall>n \<in> set (drop k xs). P n"
  show "\<forall>j. k \<le> j \<longrightarrow> j < length xs \<longrightarrow> P (xs ! j)"
  proof (intro allI impI)
    fix j assume "k \<le> j" "j < length xs"
    then have "xs ! j = drop k xs ! (j - k)" "j - k < length (drop k xs)" by simp_all
    with all show "P (xs ! j)" by (metis nth_mem)
  qed
qed (auto simp: in_set_conv_nth)

lemma get_ready_event_ok:
  assumes "lol_wf lo"
  shows "case get_ready_event lo of
     (None, lo') \<Rightarrow> lo' = lo \<and>
       (\<forall>l. L_COMPLETE l \<in># live lo \<longrightarrow>
          (\<exists>l0. L_BUILDING l0 \<in># live lo \<and> time_of (l_e l0) \<le> time_of (l_e l)))
   | (Some l, lo') \<Rightarrow> lol_wf lo' \<and> live lo = add_mset (L_COMPLETE l) (live lo') \<and>
       (\<forall>n \<in># live lo. \<forall>e. slot_event n = Some e \<longrightarrow> time_of (l_e l) \<le> time_of e)"
proof -
  note wf = lol_wfD [OF assms]
  let ?u = "take (used lo) (lo_array lo)"
  have live: "n \<in># live lo \<longleftrightarrow> n \<in> set ?u \<and> n \<noteq> L_EMPTY" for n by (simp add: live_used [OF assms])
  have ev: "slot_event n = None \<longleftrightarrow> n = L_EMPTY" for n by (cases n) (auto simp: slot_event_def)
  note low = pick_lowest_ok [where ev = slot_event and t = time_of and ns = ?u and i = 0 and best = None, folded find_lowest_pick]
  show ?thesis
  proof (cases "lo_ready lo = 0")
    case True
    then have "filter is_complete (lo_array lo) = []" using wf(6) by simp
    then have "L_COMPLETE l \<notin># live lo" for l using filter_empty_conv [of is_complete "lo_array lo"] by (auto simp: live_def)
    with True show ?thesis by (simp add: get_ready_event_def)
  next
    case ready: False
    show ?thesis
    proof (cases "find_lowest ?u 0 None")
      case None
      with low ev live ready show ?thesis by (auto simp: get_ready_event_def)
    next
      case (Some r)
      obtain k e where r: "r = (k, e)" by (cases r)
      from low have k: "k < length ?u" "slot_event (?u ! k) = Some e"
        "\<forall>n \<in> set ?u. \<forall>e'. slot_event n = Some e' \<longrightarrow> time_of e \<le> time_of e'"
        unfolding Some r option.case prod.case diff_zero by auto
      then have ku: "k < used lo" "k < length (lo_array lo)" "?u ! k = lo_array lo ! k" by simp_all
      have mem: "lo_array lo ! k \<in> set ?u" using k(1) ku(3) by (metis nth_mem)
      show ?thesis
      proof (cases "lo_array lo ! k")
        case L_EMPTY
        with k(2) ku(3) show ?thesis by (simp add: slot_event_def)
      next
        case (L_BUILDING l0)
        then have "e = l_e l0" using k(2) ku(3) by (simp add: slot_event_def)
        moreover have "L_BUILDING l0 \<in># live lo" using L_BUILDING mem live by simp
        ultimately show ?thesis
          using ready Some r L_BUILDING k(3) live by (force simp: get_ready_event_def slot_event_def)
      next
        case (L_COMPLETE l)
        then have e: "e = l_e l" using k(2) ku(3) by (simp add: slot_event_def)
        define array where "array = (lo_array lo)[k := L_EMPTY]"
        define lo' where "lo' = lo\<lparr>lo_array := array, lo_ready := lo_ready lo - 1,
          lo_maxi := (if int k = lo_maxi lo then int (shrink_maxi array k) else lo_maxi lo)\<rparr>"
        have call: "get_ready_event lo = (Some l, lo')"
          using ready Some r L_COMPLETE by (simp add: get_ready_event_def lo'_def array_def Let_def)
        have split: "lo_array lo = take k (lo_array lo) @ L_COMPLETE l # drop (k + 1) (lo_array lo)"
          "array = take k (lo_array lo) @ L_EMPTY # drop (k + 1) (lo_array lo)"
          using ku(2) id_take_nth_drop [OF ku(2)] L_COMPLETE by (simp_all add: array_def upd_conv_take_nth_drop)
        have lv: "live lo = add_mset (L_COMPLETE l) (live lo')"
          unfolding live_def lo'_def by (subst split(1)) (simp add: split(2))
        have cnt: "lo_ready lo' = int (length (filter is_complete (lo_array lo')))"
          unfolding lo'_def using wf(6) by (subst (asm) split(1)) (simp add: split(2))
        have "array ! j = L_EMPTY" if "used lo' \<le> j" "j < length array" for j
        proof (cases "used lo \<le> j")
          case True
          then have "lo_array lo ! j = L_EMPTY" using wf(5) that(2) drop_all_nth [of "used lo" "lo_array lo" "\<lambda>n. n = L_EMPTY"]
            by (auto simp: array_def)
          with ku(2) show ?thesis by (simp add: array_def nth_list_update)
        next
          case False
          then have "int k = lo_maxi lo" using that(1) by (auto simp: lo'_def used_def split: if_splits)
          then have "shrink_maxi array k < j" "j \<le> k"
            using that(1) False by (auto simp: lo'_def used_def)
          then show ?thesis using shrink_maxi_empty [of array k j] ku(2) by (simp add: array_def)
        qed
        then have "\<forall>n \<in> set (drop (used lo') (lo_array lo')). n = L_EMPTY"
          by (subst drop_all_nth) (simp add: lo'_def)
        moreover have "- 1 \<le> lo_maxi lo'" "lo_maxi lo' < int (lo_limit lo')"
          using wf(1-3) ku(2) shrink_maxi_le [of array k] by (auto simp: lo'_def)
        moreover have "\<forall>n \<in> set (lo_array lo'). slot_ok n"
          using wf(7) by (auto simp: lo'_def array_def slot_ok_def dest!: set_update_subset_insert [THEN subsetD])
        ultimately have "lol_wf lo'" using cnt wf(1) by (simp add: lol_wf_def lo'_def array_def)
        moreover have "\<forall>n \<in># live lo. \<forall>e'. slot_event n = Some e' \<longrightarrow> time_of (l_e l) \<le> time_of e'"
          using k(3) e live by (intro ballI allI impI) blast
        ultimately show ?thesis using call lv by simp
      qed
    qed
  qed
qed

section \<open>Sequences of operations\<close>

text \<open>What a slot holds, whatever the numbering of the records.\<close>

definition content :: "lnode \<Rightarrow> lnode" where
  "content n = n\<lparr>ln_item := 0\<rparr>"

definition list_records :: "llist \<Rightarrow> lnode multiset" where
  "list_records l = mset (map content (ll_nodes (l_list l)))"

definition slot_records :: "lolnode \<Rightarrow> lnode multiset" where
  "slot_records n = (case n of L_EMPTY \<Rightarrow> {#} | L_BUILDING l \<Rightarrow> list_records l | L_COMPLETE l \<Rightarrow> list_records l)"

definition records :: "lol \<Rightarrow> lnode multiset" where
  "records lo = \<Sum>\<^sub># (image_mset slot_records (live lo))"

lemma slot_records_mark [simp]: "slot_records (mark P n) = slot_records n" "slot_records (complete_node n) = slot_records n"
  by (cases n; simp add: mark_def slot_records_def)+

lemma slot_records_mark_comp: "image_mset slot_records (image_mset (mark P) M) = image_mset slot_records M"
  "image_mset slot_records (image_mset complete_node M) = image_mset slot_records M"
  by (induction M) auto

text \<open>A line whose time stamp can be read without leaving it, and is not at the end of time.\<close>

definition sane_line :: "lol_env \<Rightarrow> string \<Rightarrow> bool" where
  "sane_line env b \<longleftrightarrow>
     (\<forall>first. case extract_timestamp env True b first of
        None \<Rightarrow> False
      | Some (None, _) \<Rightarrow> True
      | Some (Some e, _) \<Rightarrow> ev_sec e + 2 < 2 ^ 63)"

lemma content_make_lnode [simp]: "content (fst (make_lnode ty b)) = fst (make_lnode ty b)"
  by (auto simp: make_lnode_def content_def Let_def split: option.split)

text \<open>The time of the first event has no influence on the event of a line.\<close>

lemma map_bind_cong: "(\<And>y. x = Some y \<Longrightarrow> map_option h (f y) = map_option h (g y)) \<Longrightarrow> map_option h (Option.bind x f) = map_option h (Option.bind x g)"
  by (cases x) simp_all

lemma event_in_time_first:
  "map_option fst (event_in_time env d tnode ttype mem t f1) = map_option fst (event_in_time env d tnode ttype mem t f2)"
  unfolding event_in_time_def Let_def by (cases t) (auto intro!: map_bind_cong)

lemma timestamp_from_first:
  "map_option fst (timestamp_from env d tnode ttype mem q f1) = map_option fst (timestamp_from env d tnode ttype mem q f2)"
  unfolding timestamp_from_def
proof (intro map_bind_cong, goal_cases)
  case (1 c ptr)
  show ?case
  proof (cases ptr)
    case (Some p)
    show ?thesis unfolding Some option.case Let_def
      by (intro map_bind_cong) (auto intro!: event_in_time_first split: option.split prod.split)
  qed simp
qed

lemma extract_timestamp_first:
  "map_option fst (extract_timestamp env d b f1) = map_option fst (extract_timestamp env d b f2)"
  unfolding extract_timestamp_def Let_def
  by (intro map_bind_cong) (auto intro!: map_bind_cong timestamp_from_first split: option.split prod.split)

text \<open>The event of a line, when it has one.\<close>

definition line_event :: "lol_env \<Rightarrow> string \<Rightarrow> event option" where
  "line_event env b = (case extract_timestamp env True b (0, 0) of Some (r, _) \<Rightarrow> r | None \<Rightarrow> None)"

text \<open>The record a line stands for.\<close>

definition line_record :: "lol_env \<Rightarrow> string \<Rightarrow> lnode" where
  "line_record env b = fst (make_lnode (case line_event env b of Some e \<Rightarrow> ev_type e | None \<Rightarrow> 0) b)"

lemma sane_extract:
  assumes "sane_line env b"
  shows "\<exists>first'. extract_timestamp env True b first = Some (line_event env b, first')"
    "line_event env b = Some e \<Longrightarrow> ev_sec e + 2 < 2 ^ 63"
proof -
  obtain r f where rf: "extract_timestamp env True b (0, 0) = Some (r, f)"
    using assms unfolding sane_line_def by (metis not_None_eq old.prod.exhaust option.simps(4))
  then have le: "line_event env b = r" by (simp add: line_event_def)
  from extract_timestamp_first [of env True b first "(0, 0)"] rf le
  show "\<exists>first'. extract_timestamp env True b first = Some (line_event env b, first')"
    by (cases "extract_timestamp env True b first") auto
  show "ev_sec e + 2 < 2 ^ 63" if "line_event env b = Some e"
    using assms rf le that unfolding sane_line_def by (metis (mono_tags, lifting) case_prod_conv option.simps(5))
qed

text \<open>
  What adding a line does to the abstract state: the record joins the event it belongs to, or is
  dropped, or starts a new event, which may complete others.
\<close>

definition new_list :: "event \<Rightarrow> string \<Rightarrow> llist \<Rightarrow> bool" where
  "new_list e b l \<longleftrightarrow>
     building l \<and> l_e l = e \<and> l_fmt l = snd (make_lnode (ev_type e) b) \<and> ll_nodes (l_list l) = [fst (make_lnode (ev_type e) b)]"

definition extends :: "event \<Rightarrow> string \<Rightarrow> llist \<Rightarrow> llist \<Rightarrow> bool" where
  "extends e b l l' \<longleftrightarrow>
     building l' \<and> l_e l' = l_e l \<and> l_fmt l' = max (l_fmt l) (snd (make_lnode (ev_type e) b)) \<and>
     map content (ll_nodes (l_list l')) = map content (ll_nodes (l_list l)) @ [fst (make_lnode (ev_type e) b)]"

lemma list_append_new:
  "\<exists>l. list_append True (fst (make_lnode (ev_type e) b)) (list_create\<lparr>l_e := e, l_fmt := snd (make_lnode (ev_type e) b)\<rparr>) = Some l \<and> new_list e b l"
proof -
  let ?n = "fst (make_lnode (ev_type e) b)"
  have "?n\<lparr>ln_item := 0\<rparr> = ?n" using content_make_lnode by (simp add: content_def)
  with list_append_ok [OF building_create(1) [where e = e and f = "snd (make_lnode (ev_type e) b)"], of ?n] show ?thesis
    by (auto simp: new_list_def building_create(2))
qed

lemma list_append_extends:
  assumes "building l"
  shows "\<exists>l'. list_append True (fst (make_lnode (ev_type e) b)) l = Some l' \<and>
     extends e b l (l'\<lparr>l_fmt := max (l_fmt l') (snd (make_lnode (ev_type e) b))\<rparr>)"
proof -
  have c: "content (n\<lparr>ln_item := i\<rparr>) = content n" for n i by (simp add: content_def)
  from list_append_ok [OF assms, of "fst (make_lnode (ev_type e) b)"] show ?thesis
    by (auto simp: extends_def c) (auto simp: building_def)
qed

lemma lol_add_record_cases:
  assumes "lol_wf lo" "sane_line env b"
  shows "\<exists>acc lo'. lol_add_record env all_mem b lo = Some (acc, lo') \<and> lol_wf lo' \<and>
    (case line_event env b of
       None \<Rightarrow> \<not> acc \<and> live lo' = live lo
     | Some e \<Rightarrow>
         if \<exists>n \<in># live lo. is_event e n then
           acc \<and> (\<exists>l l' M. live lo = add_mset (L_BUILDING l) M \<and> events_are_equal (l_e l) e \<and> extends e b l l' \<and>
                          live lo' = add_mset (L_BUILDING l') M)
         else if ev_type e = le_AUDIT_EOE env then \<not> acc \<and> live lo' = live lo
         else acc \<and> (\<exists>l. new_list e b l \<and>
                live lo' = image_mset (mark (completes env (ev_sec e))) (add_mset (L_BUILDING l) (live lo))))"
proof -
  obtain first where ex: "extract_timestamp env True b (lo_first lo) = Some (line_event env b, first)"
    using sane_extract(1) [OF assms(2)] by blast
  define lo1 where "lo1 = lo\<lparr>lo_first := first\<rparr>"
  have lo1: "lol_wf lo1" "live lo1 = live lo" "used lo1 = used lo" "lo_array lo1 = lo_array lo"
    using assms(1) by (simp_all add: lo1_def lol_wf_def used_def live_def)
  note wf = lol_wfD [OF assms(1)]
  show ?thesis
  proof (cases "line_event env b")
    case None
    then have "lol_add_record env all_mem b lo = Some (False, lo1)"
      using ex by (simp add: lol_add_record_def all_mem_def lo1_def)
    with lo1(1,2) show ?thesis unfolding None option.case by blast
  next
    case (Some e)
    let ?n = "fst (make_lnode (ev_type e) b)" and ?f = "snd (make_lnode (ev_type e) b)"
    show ?thesis
    proof (cases "ll_search (is_event e) (take (used lo) (lo_array lo)) 0")
      case srch: None
      then have none: "\<not> (\<exists>n \<in># live lo. is_event e n)" by (auto simp: ll_search_None live_used [OF assms(1)])
      show ?thesis
      proof (cases "ev_type e = le_AUDIT_EOE env")
        case True
        then have "lol_add_record env all_mem b lo = Some (False, lo1)"
          using ex Some srch by (simp add: lol_add_record_def all_mem_def lo1_def [symmetric] lo1 case_prod_beta)
        with lo1(1,2) show ?thesis unfolding Some option.case if_not_P [OF none] if_P [OF True] by blast
      next
        case False
        obtain l where l: "list_append True ?n (list_create\<lparr>l_e := e, l_fmt := ?f\<rparr>) = Some l" "new_list e b l"
          using list_append_new by blast
        have "slot_ok (L_BUILDING l)" using l(2) sane_extract(2) [OF assms(2) Some] by (simp add: slot_ok_def new_list_def)
        from lol_append_ok [OF lo1(1) this] obtain lo2 where
          lo2: "check_events env (ev_sec e) (lol_append True l lo1) = Some lo2" "lol_wf lo2"
          "live lo2 = image_mset (mark (completes env (ev_sec e))) (add_mset (L_BUILDING l) (live lo))"
          using check_events_ok [of "lol_append True l lo1" env "ev_sec e"] lo1(2) by auto
        have "lol_add_record env all_mem b lo = Some (True, lo2)"
          using ex Some srch False l(1) lo2(1) by (simp add: lol_add_record_def all_mem_def lo1_def [symmetric] lo1 case_prod_beta)
        with lo2(2,3) l(2) show ?thesis unfolding Some option.case if_not_P [OF none] if_not_P [OF False] by blast
      qed
    next
      case srch: (Some i)
      from ll_search_split [OF srch] obtain as n bs where
        a: "take (used lo) (lo_array lo) = as @ n # bs" "is_event e n" "i = length as" by (elim exE conjE) simp
      then obtain l where n: "n = L_BUILDING l" "events_are_equal (l_e l) e" by (cases n) (auto simp: is_event_def)
      define ds where "ds = bs @ drop (used lo) (lo_array lo)"
      have arr: "lo_array lo = as @ L_BUILDING l # ds"
        using a(1) n(1) append_take_drop_id [of "used lo" "lo_array lo"] by (simp add: ds_def)
      have sl: "slot_ok (L_BUILDING l)" using wf(7) arr by simp
      then have bl: "building l" "ev_sec (l_e l) + 2 < 2 ^ 63" by (simp_all add: slot_ok_def)
      obtain l0 where l0: "list_append True ?n l = Some l0" "extends e b l (l0\<lparr>l_fmt := max (l_fmt l0) ?f\<rparr>)"
        using list_append_extends [OF bl(1)] by blast
      define l' where "l' = l0\<lparr>l_fmt := max (l_fmt l0) ?f\<rparr>"
      define lo2 where "lo2 = lo1\<lparr>lo_array := as @ L_BUILDING l' # ds\<rparr>"
      have call: "lol_add_record env all_mem b lo = Some (True, lo2)"
        using ex Some srch l0(1) arr a(3)
        by (simp add: lol_add_record_def all_mem_def lo1_def [symmetric] lo1 case_prod_beta l'_def lo2_def)
      have "slot_ok (L_BUILDING l')"
        using l0(2) bl(2) unfolding l'_def [symmetric] by (simp add: slot_ok_def extends_def)
      have "used lo2 = used lo" using lo1(3) by (simp add: used_def lo2_def)
      moreover have "length as < used lo" using arg_cong [OF a(1), of length] by simp
      ultimately have "drop (used lo2) (lo_array lo2) = drop (used lo) (lo_array lo)"
        using arr by (simp add: lo2_def drop_Cons')
      then have "lol_wf lo2"
        using wf arr \<open>slot_ok (L_BUILDING l')\<close> \<open>used lo2 = used lo\<close> by (auto simp: lol_wf_def lo2_def lo1_def)
      moreover have "live lo = add_mset (L_BUILDING l) (filter_mset (\<lambda>n. n \<noteq> L_EMPTY) (mset (as @ ds)))"
        "live lo2 = add_mset (L_BUILDING l') (filter_mset (\<lambda>n. n \<noteq> L_EMPTY) (mset (as @ ds)))"
        using arr by (simp_all add: live_def lo2_def)
      moreover have ex_n: "\<exists>n \<in># live lo. is_event e n"
        using a(2) n(1) arr by (auto simp: live_def)
      ultimately show ?thesis
        unfolding Some option.case if_P [OF ex_n] using call n(2) l0(2) unfolding l'_def [symmetric] by blast
    qed
  qed
qed

lemma records_add: "live lo' = add_mset n M \<Longrightarrow> records lo' = slot_records n + \<Sum>\<^sub># (image_mset slot_records M)"
  by (simp add: records_def)

lemma lol_add_record_ok:
  assumes "lol_wf lo" "sane_line env b"
  shows "\<exists>acc lo'. lol_add_record env all_mem b lo = Some (acc, lo') \<and> lol_wf lo' \<and>
    records lo' = records lo + (if acc then {#line_record env b#} else {#})"
proof -
  obtain acc lo' where add: "lol_add_record env all_mem b lo = Some (acc, lo')" "lol_wf lo'"
    and cs: "case line_event env b of
       None \<Rightarrow> \<not> acc \<and> live lo' = live lo
     | Some e \<Rightarrow>
         if \<exists>n \<in># live lo. is_event e n then
           acc \<and> (\<exists>l l' M. live lo = add_mset (L_BUILDING l) M \<and> events_are_equal (l_e l) e \<and> extends e b l l' \<and>
                          live lo' = add_mset (L_BUILDING l') M)
         else if ev_type e = le_AUDIT_EOE env then \<not> acc \<and> live lo' = live lo
         else acc \<and> (\<exists>l. new_list e b l \<and>
                live lo' = image_mset (mark (completes env (ev_sec e))) (add_mset (L_BUILDING l) (live lo)))"
    using lol_add_record_cases [OF assms] by blast
  have "records lo' = records lo + (if acc then {#line_record env b#} else {#})"
  proof (cases "line_event env b")
    case None
    with cs show ?thesis by (simp add: records_def)
  next
    case (Some e)
    have lr: "line_record env b = fst (make_lnode (ev_type e) b)" using Some by (simp add: line_record_def)
    show ?thesis
    proof (cases "\<exists>n \<in># live lo. is_event e n")
      case True
      with cs Some obtain l l' M where m: "acc" "live lo = add_mset (L_BUILDING l) M" "extends e b l l'" "live lo' = add_mset (L_BUILDING l') M"
        by auto
      have "slot_records (L_BUILDING l') = slot_records (L_BUILDING l) + {#line_record env b#}"
        using m(3) lr by (simp add: slot_records_def list_records_def extends_def)
      with m(1) records_add [OF m(2)] records_add [OF m(4)] show ?thesis by simp
    next
      case False
      show ?thesis
      proof (cases "ev_type e = le_AUDIT_EOE env")
        case True
        with cs Some False show ?thesis by (simp add: records_def)
      next
        case eoe: False
        with cs Some False obtain l where l: "acc" "new_list e b l"
          "live lo' = image_mset (mark (completes env (ev_sec e))) (add_mset (L_BUILDING l) (live lo))" by auto
        have "slot_records (L_BUILDING l) = {#line_record env b#}"
          using l(2) lr by (simp add: slot_records_def list_records_def new_list_def)
        moreover have "records lo' = slot_records (L_BUILDING l) + records lo"
          unfolding records_def l(3) slot_records_mark_comp by simp
        ultimately show ?thesis using l(1) by simp
      qed
    qed
  qed
  with add show ?thesis by blast
qed

text \<open>The calls of a tool: add a line, finish all events, take the next one.\<close>

datatype lol_op = Add_line string | Finish | Take

fun run_lol :: "lol_env \<Rightarrow> lol_op list \<Rightarrow> lol \<Rightarrow> (lnode list \<times> llist list \<times> lol) ub" where
  "run_lol env [] lo = Some ([], [], lo)"
| "run_lol env (Add_line b # ops) lo =
     (case lol_add_record env all_mem b lo of
        None \<Rightarrow> None
      | Some (acc, lo') \<Rightarrow>
          map_option (\<lambda>(ins, outs, s). ((if acc then [line_record env b] else []) @ ins, outs, s)) (run_lol env ops lo'))"
| "run_lol env (Finish # ops) lo = run_lol env ops (terminate_all_events lo)"
| "run_lol env (Take # ops) lo =
     (case get_ready_event lo of
        (None, lo') \<Rightarrow> run_lol env ops lo'
      | (Some l, lo') \<Rightarrow> map_option (\<lambda>(ins, outs, s). (ins, l # outs, s)) (run_lol env ops lo'))"

definition lines :: "lol_op list \<Rightarrow> string set" where
  "lines ops = {b. Add_line b \<in> set ops}"

lemma lines_simps [simp]:
  "lines [] = {}" "lines (Add_line b # ops) = insert b (lines ops)" "lines (Finish # ops) = lines ops" "lines (Take # ops) = lines ops"
  by (auto simp: lines_def)

lemma run_lol_ok:
  "lol_wf lo \<Longrightarrow> \<forall>b \<in> lines ops. sane_line env b \<Longrightarrow>
     \<exists>ins outs lo'. run_lol env ops lo = Some (ins, outs, lo') \<and> lol_wf lo' \<and>
       records lo + mset ins = \<Sum>\<^sub># (mset (map list_records outs)) + records lo'"
proof (induction env ops lo rule: run_lol.induct)
  case (2 env b ops lo)
  then obtain acc lo1 where a: "lol_add_record env all_mem b lo = Some (acc, lo1)" "lol_wf lo1"
    "records lo1 = records lo + (if acc then {#line_record env b#} else {#})"
    using lol_add_record_ok [of lo env b] by auto
  with 2 obtain ins outs lo' where "run_lol env ops lo1 = Some (ins, outs, lo')" "lol_wf lo'"
    "records lo1 + mset ins = \<Sum>\<^sub># (mset (map list_records outs)) + records lo'" by fastforce
  with a show ?case by (cases acc) (simp_all add: add_ac)
next
  case (3 env ops lo)
  have "records (terminate_all_events lo) = records lo"
    using terminate_all_events_ok(2) [OF "3.prems"(1)] by (simp add: records_def slot_records_mark_comp)
  with 3 terminate_all_events_ok(1) [OF "3.prems"(1)] show ?case by simp
next
  case (4 env ops lo)
  show ?case
  proof (cases "get_ready_event lo")
    case (Pair r lo1)
    note ok = get_ready_event_ok [OF "4.prems"(1)]
    show ?thesis
    proof (cases r)
      case None
      with ok Pair have "lo1 = lo" by simp
      with 4 Pair None show ?thesis by simp
    next
      case (Some l)
      with ok Pair have l: "lol_wf lo1" "live lo = add_mset (L_COMPLETE l) (live lo1)" by auto
      from l(2) have "records lo = list_records l + records lo1" by (simp add: records_def slot_records_def)
      moreover obtain ins outs lo' where "run_lol env ops lo1 = Some (ins, outs, lo')" "lol_wf lo'"
        "records lo1 + mset ins = \<Sum>\<^sub># (mset (map list_records outs)) + records lo'"
        using "4.IH"(2) [OF Pair [symmetric] Some l(1)] "4.prems"(2) by auto
      ultimately show ?thesis using Pair Some by (auto simp: add_ac)
    qed
  qed
qed simp

text \<open>Taking until there is nothing more.\<close>

fun take_all :: "nat \<Rightarrow> lol \<Rightarrow> llist list \<times> lol" where
  "take_all 0 lo = ([], lo)"
| "take_all (Suc n) lo =
     (case get_ready_event lo of
        (None, lo') \<Rightarrow> ([], lo')
      | (Some l, lo') \<Rightarrow> (let (ls, lo'') = take_all n lo' in (l # ls, lo'')))"

definition slot_list :: "lolnode \<Rightarrow> llist option" where
  "slot_list n = (case n of L_EMPTY \<Rightarrow> None | L_BUILDING l \<Rightarrow> Some l | L_COMPLETE l \<Rightarrow> Some l)"

lemma take_all_ok:
  "lol_wf lo \<Longrightarrow> \<forall>n \<in># live lo. is_complete n \<Longrightarrow> size (live lo) = k \<Longrightarrow>
     \<exists>ls lo'. take_all k lo = (ls, lo') \<and> lol_wf lo' \<and> live lo' = {#} \<and> live lo = mset (map L_COMPLETE ls) \<and>
       sorted (map (\<lambda>l. time_of (l_e l)) ls)"
proof (induction k arbitrary: lo)
  case (Suc k)
  then obtain n where "n \<in># live lo" by fastforce
  with Suc.prems(2) obtain l0 where "L_COMPLETE l0 \<in># live lo" by (cases n) auto
  moreover have "L_BUILDING l \<notin># live lo" for l using Suc.prems(2) by auto
  ultimately obtain l lo1 where l: "get_ready_event lo = (Some l, lo1)"
    using get_ready_event_ok [OF Suc.prems(1)] by (cases "get_ready_event lo"; cases "fst (get_ready_event lo)") auto
  with get_ready_event_ok [OF Suc.prems(1)] have lo1: "lol_wf lo1" "live lo = add_mset (L_COMPLETE l) (live lo1)"
    "\<forall>n \<in># live lo. \<forall>e. slot_event n = Some e \<longrightarrow> time_of (l_e l) \<le> time_of e" by auto
  then have "\<forall>n \<in># live lo1. is_complete n" "size (live lo1) = k" using Suc.prems(2,3) by auto
  from Suc.IH [OF lo1(1) this] obtain ls lo' where
    ls: "take_all k lo1 = (ls, lo')" "lol_wf lo'" "live lo' = {#}" "live lo1 = mset (map L_COMPLETE ls)"
    "sorted (map (\<lambda>l. time_of (l_e l)) ls)" by blast
  have "time_of (l_e l) \<le> time_of (l_e l')" if "l' \<in> set ls" for l'
    using lo1(2,3) ls(4) that by (auto simp: slot_event_def)
  with l lo1(2) ls show ?case by (intro exI [of _ "l # ls"] exI [of _ lo']) simp
qed simp

lemma image_slot_list_complete:
  "image_mset complete_node M = mset (map L_COMPLETE ls) \<Longrightarrow> image_mset slot_list M = mset (map Some ls)"
proof -
  assume M: "image_mset complete_node M = mset (map L_COMPLETE ls)"
  have "slot_list n = slot_list (complete_node n)" for n by (cases n) (simp_all add: slot_list_def)
  then have "image_mset slot_list M = image_mset slot_list (image_mset complete_node M)"
    by (simp add: image_mset.compositionality comp_def)
  also have "\<dots> = mset (map Some ls)" unfolding M by (simp add: image_mset.compositionality comp_def slot_list_def)
  finally show ?thesis .
qed

section \<open>Lines of a log\<close>

lemma after_char_first: "c \<notin> set w \<Longrightarrow> after_char c (w @ c # s) = Some s"
  by (simp add: after_char_def strchr_first)

lemma show_nat_not_in: "\<not> isdigit c \<Longrightarrow> c \<notin> set (show_nat n)"
  using show_nat_digits by blast

lemma separators [simp]: "\<not> isdigit CHR ''.''" "\<not> isdigit CHR '':''" "\<not> isdigit CHR '')''" "\<not> isdigit blank"
  by (simp_all add: isdigit_def)

text \<open>The way time stamps are printed, \<open>%lu.%03u:%lu\<close>: the milliseconds have at least three digits.\<close>

definition show_milli :: "nat \<Rightarrow> string" where
  "show_milli n = replicate (3 - length (show_nat n)) CHR ''0'' @ show_nat n"

definition show_timestamp :: "nat \<Rightarrow> nat \<Rightarrow> nat \<Rightarrow> string" where
  "show_timestamp sec milli serial = show_nat sec @ CHR ''.'' # show_milli milli @ CHR '':'' # show_nat serial"

text \<open>Leading zeros do not change the number, as the base is always 10.\<close>

lemma decimal_zeros: "decimal 0 (replicate k CHR ''0'' @ s) = decimal 0 s"
  by (induction k) (simp_all add: digit_val_def)

lemma strtoul_digits:
  assumes "ds \<noteq> []" "\<forall>c \<in> set ds. isdigit c" "decimal 0 ds \<le> ULONG_MAX" "\<not> isdigit (peek rest)"
  shows "strtoul (ds @ rest) = (decimal 0 ds, False)"
proof -
  obtain c cs where c: "ds = c # cs" "isdigit c" using assms(1,2) by (cases ds) auto
  have "takeWhile isdigit (ds @ rest) = ds" using assms(2,4) by (cases rest) (auto simp: takeWhile_append)
  then show ?thesis
    using c isdigit_not_special assms(3) by (simp add: strtoul_def scan_number_def ulong_of_def)
qed

lemma show_milli_digits: "show_milli n \<noteq> []" "\<forall>c \<in> set (show_milli n). isdigit c" "decimal 0 (show_milli n) = n"
  using show_nat_digits [of n] show_nat_nonempty [of n]
  by (auto simp: show_milli_def decimal_zeros decimal_show_nat isdigit_def)

lemma str2event_show:
  assumes "sec < 2 ^ 63" "milli < 2 ^ 32" "serial \<le> ULONG_MAX"
  shows "str2event (show_timestamp sec milli serial) = Some (int sec, milli, serial)"
proof -
  have "strtoul (show_nat sec @ CHR ''.'' # r) = (sec, False)" for r
    using assms by (simp add: strtoul_show ULONG_MAX_def)
  moreover have "strtoul (show_milli milli @ CHR '':'' # r) = (milli, False)" for r
    using strtoul_digits [OF show_milli_digits(1,2), of milli "CHR '':'' # r"] assms(2)
    by (simp add: show_milli_digits(3) ULONG_MAX_def)
  moreover have "strtoul (show_nat serial) = (serial, False)" using strtoul_show [OF assms(3), of "[]"] by simp
  moreover have "after_char CHR ''.'' (show_nat sec @ CHR ''.'' # r) = Some r" for r
    by (simp add: after_char_first show_nat_not_in)
  moreover have "after_char CHR '':'' (show_milli milli @ CHR '':'' # r) = Some r" for r
    using show_milli_digits(2) [of milli] separators(2) by (intro after_char_first) blast
  ultimately show ?thesis using assms by (simp add: str2event_def show_timestamp_def to_time_def)
qed

lemma show_timestamp_chars: "\<forall>c \<in> set (show_timestamp sec milli serial). isdigit c \<or> c = CHR ''.'' \<or> c = CHR '':''"
  using show_nat_digits show_milli_digits(2) [of milli] by (auto simp: show_timestamp_def)

lemma show_timestamp_plain:
  "CHR '')'' \<notin> set (show_timestamp sec milli serial)" "blank \<notin> set (show_timestamp sec milli serial)"
  "is_cstr (show_timestamp sec milli serial)"
  using show_timestamp_chars [of sec milli serial] unfolding is_cstr_def by (fastforce simp: isdigit_def)+

text \<open>The tokenizer on a word that ends at a blank, and on the rest of a line.\<close>

lemma strsplit_word:
  assumes "w \<noteq> []" "blank \<notin> set w" "is_cstr w" "is_cstr r"
  shows "strsplit_from (p @ w @ blank # r @ NUL # t) (length p) =
    Some (Some (length p), p @ w @ NUL # r @ NUL # t, Some (length p + length w))"
proof -
  have "string_at (p @ w @ blank # r @ NUL # t) (length p) = Some (w @ blank # r)"
    using string_at_append [of "w @ blank # r" p t] assms(3,4) by simp
  moreover have "strchr blank (w @ blank # r) = Some (length w)" using assms(2) by (rule strchr_first)
  ultimately show ?thesis
    using assms(1) by (simp add: strsplit_from.simps [of "p @ w @ blank # r @ NUL # t"] list_update_append)
qed

lemma strsplit_last:
  assumes "w \<noteq> []" "blank \<notin> set w" "is_cstr w"
  shows "strsplit_from (p @ w @ NUL # t) (length p) = Some (Some (length p), p @ w @ NUL # t, None)"
proof -
  have "strchr blank w = None" using assms(2) by (simp add: strchr_def)
  with string_at_append [OF assms(3), of p t] assms(1) show ?thesis
    by (simp add: strsplit_from.simps [of "p @ w @ NUL # t"])
qed

lemma strsplit_start:
  assumes "w \<noteq> []" "blank \<notin> set w" "is_cstr w" "is_cstr r"
  shows "\<exists>r' t' saved. strsplit_from (p @ (w @ r) @ [NUL]) (length p) = Some (Some (length p), p @ w @ r' @ NUL # t', saved) \<and> is_cstr r'"
proof (cases "blank \<in> set r")
  case True
  then obtain r' s where "r = r' @ blank # s" "blank \<notin> set r'" by (meson split_list_first)
  with strsplit_word [of "w @ r'" s p "[]"] assms show ?thesis by (auto simp: is_cstr_def)
next
  case False
  with strsplit_last [of "w @ r" p "[]"] assms show ?thesis by (auto simp: is_cstr_def)
qed

lemma timestamp_from_ok:
  assumes "CHR '')'' \<notin> set ts" "is_cstr ts" "is_cstr r" "str2event ts = Some tm"
    "mem = h @ (''msg=audit('' @ ts @ CHR '')'' # r) @ NUL # t" "mem' = h @ (''msg=audit('' @ ts) @ NUL # r @ NUL # t"
  shows "timestamp_from env d tn tt mem (length h) first = event_in_time env d tn tt mem' tm first"
proof -
  let ?a = "''msg=audit(''"
  have c: "mem_at mem (length h + 9) = Some CHR ''(''" by (simp add: mem_at_def assms(5) nth_append)
  have "string_at ((h @ ?a) @ (ts @ CHR '')'' # r) @ NUL # t) (length (h @ ?a)) = Some (ts @ CHR '')'' # r)"
    using assms(2,3) by (intro string_at_append) simp
  moreover have "length (h @ ?a) = length h + 9 + 1" by simp
  ultimately have s: "string_at mem (length h + 9 + 1) = Some (ts @ CHR '')'' # r)"
    unfolding assms(5) by (simp only: append.assoc append_Cons)
  have u: "mem[length h + 9 + 1 + length ts := NUL] = mem'"
    by (simp add: assms(5,6) list_update_append)
  show ?thesis
    using c s u assms(4) strchr_first [OF assms(1)] by (simp add: timestamp_from_def)
qed

lemma event_in_time_ok:
  assumes "le_start_time env = 0" "le_end_time env = 0" "string_at mem tt = Some ty"
    "case tn of None \<Rightarrow> node = None | Some p \<Rightarrow> \<exists>n. string_at mem p = Some n \<and> node = Some n"
  shows "\<exists>first'. event_in_time env True tn tt mem (sec, milli, serial) first =
     Some (Some \<lparr>ev_sec = sec, ev_milli = milli, ev_serial = serial, ev_node = node,
                 ev_type = audit_name_to_msg_type (le_tables env) ty\<rparr>, first')"
  using assms by (cases tn) (auto simp: event_in_time_def)

text \<open>A line without and with the name of a node.\<close>

definition show_line :: "string \<Rightarrow> nat \<Rightarrow> nat \<Rightarrow> nat \<Rightarrow> string \<Rightarrow> string" where
  "show_line ty sec milli serial rest = ''type='' @ ty @ '' msg=audit('' @ show_timestamp sec milli serial @ '')'' @ rest"

definition plain_word :: "string \<Rightarrow> bool" where
  "plain_word w \<longleftrightarrow> blank \<notin> set w \<and> is_cstr w"

lemma take_line: "length p \<le> n \<Longrightarrow> \<exists>r'. take n (p @ r) = p @ r' \<and> set r' \<subseteq> set r"
  by (auto intro!: exI [of _ "take (n - length p) r"] dest: in_set_takeD)

lemma extract_plain_line:
  assumes "le_start_time env = 0" "le_end_time env = 0" "plain_word ty" "is_cstr rest"
    "sec < 2 ^ 63" "milli < 2 ^ 32" "serial \<le> ULONG_MAX" "length (show_line ty sec milli serial []) \<le> 80"
  shows "\<exists>first'. extract_timestamp env True (show_line ty sec milli serial rest) first =
     Some (Some \<lparr>ev_sec = int sec, ev_milli = milli, ev_serial = serial, ev_node = None,
                 ev_type = audit_name_to_msg_type (le_tables env) ty\<rparr>, first')"
proof -
  let ?ts = "show_timestamp sec milli serial"
  let ?w1 = "''type='' @ ty" and ?w2 = "''msg=audit('' @ ?ts @ '')''"
  have w: "?w1 \<noteq> []" "blank \<notin> set ?w1" "is_cstr ?w1" "?w2 \<noteq> []" "blank \<notin> set ?w2" "is_cstr ?w2"
    using assms(3) show_timestamp_plain [of sec milli serial] by (auto simp: plain_word_def)
  obtain r where r: "take 80 (show_line ty sec milli serial rest) = ?w1 @ blank # (?w2 @ r)" "is_cstr r"
    using take_line [OF assms(8), of rest] assms(4) by (auto simp: show_line_def is_cstr_def)
  obtain r' t' saved where s2: "strsplit_from ((?w1 @ [NUL]) @ (?w2 @ r) @ [NUL]) (length (?w1 @ [NUL])) =
      Some (Some (length (?w1 @ [NUL])), (?w1 @ [NUL]) @ ?w2 @ r' @ NUL # t', saved)" "is_cstr r'"
    using strsplit_start [OF w(4-6) r(2)] by blast
  have s1: "strsplit_from (?w1 @ blank # (?w2 @ r) @ [NUL]) 0 = Some (Some 0, ?w1 @ NUL # (?w2 @ r) @ [NUL], Some (length ?w1))"
    using strsplit_word [OF w(1-3), of "?w2 @ r" "[]" "[]"] w(6) r(2) by simp
  define mem where "mem = (?w1 @ [NUL]) @ (''msg=audit('' @ ?ts @ CHR '')'' # r') @ NUL # t'"
  define mem' where "mem' = (?w1 @ [NUL]) @ (''msg=audit('' @ ?ts) @ NUL # r' @ NUL # t'"
  have ty: "string_at mem' 5 = Some ty"
    using string_at_append [of ty "''type=''"] assms(3) by (simp add: mem'_def plain_word_def eval_nat_numeral)
  have tf: "timestamp_from env True None 5 mem (length (?w1 @ [NUL])) first = event_in_time env True None 5 mem' (int sec, milli, serial) first"
    using timestamp_from_ok [OF show_timestamp_plain(1,3) s2(2) str2event_show [OF assms(5-7)] mem_def mem'_def] .
  define m0 where "m0 = ?w1 @ blank # (?w2 @ r) @ [NUL]"
  define m1 where "m1 = ?w1 @ NUL # (?w2 @ r) @ [NUL]"
  have m0: "take (if peek (show_line ty sec milli serial rest) = CHR ''n'' then 340 else 80) (show_line ty sec milli serial rest) @ [NUL] = m0"
    using r(1) by (simp add: m0_def show_line_def)
  have "strsplit_from m0 0 = Some (Some 0, m1, Some (length ?w1))" "mem_at m1 0 = Some CHR ''t''"
    "strsplit_from m1 (length ?w1 + 1) = Some (Some (length (?w1 @ [NUL])), mem, saved)"
    using s1 s2(1) by (simp_all add: m0_def m1_def mem_at_def mem_def)
  then have "extract_timestamp env True (show_line ty sec milli serial rest) first = timestamp_from env True None 5 mem (length (?w1 @ [NUL])) first"
    unfolding extract_timestamp_def Let_def m0 audit_strsplit_def by simp
  with tf event_in_time_ok [where tn = None and node = None, OF assms(1,2) ty] show ?thesis by simp
qed

lemma extract_node_line:
  assumes "le_start_time env = 0" "le_end_time env = 0" "plain_word nd" "plain_word ty" "is_cstr rest"
    "sec < 2 ^ 63" "milli < 2 ^ 32" "serial \<le> ULONG_MAX"
    "length (''node='' @ nd @ blank # show_line ty sec milli serial []) \<le> 340"
  shows "\<exists>first'. extract_timestamp env True (''node='' @ nd @ blank # show_line ty sec milli serial rest) first =
     Some (Some \<lparr>ev_sec = int sec, ev_milli = milli, ev_serial = serial, ev_node = Some nd,
                 ev_type = audit_name_to_msg_type (le_tables env) ty\<rparr>, first')"
proof -
  let ?b = "''node='' @ nd @ blank # show_line ty sec milli serial rest"
  let ?ts = "show_timestamp sec milli serial"
  let ?w0 = "''node='' @ nd" and ?w1 = "''type='' @ ty" and ?w2 = "''msg=audit('' @ ?ts @ '')''"
  let ?h = "?w0 @ NUL # ?w1 @ [NUL]"
  have w: "?w0 \<noteq> []" "blank \<notin> set ?w0" "is_cstr ?w0" "?w1 \<noteq> []" "blank \<notin> set ?w1" "is_cstr ?w1" "?w2 \<noteq> []" "blank \<notin> set ?w2" "is_cstr ?w2"
    using assms(3,4) show_timestamp_plain [of sec milli serial] by (auto simp: plain_word_def)
  obtain r where r: "take 340 ?b = ?w0 @ blank # ?w1 @ blank # (?w2 @ r)" "is_cstr r"
    using take_line [OF assms(9), of rest] assms(5) by (auto simp: show_line_def is_cstr_def)
  obtain r' t' saved where s3: "strsplit_from (?h @ (?w2 @ r) @ [NUL]) (length ?h) = Some (Some (length ?h), ?h @ ?w2 @ r' @ NUL # t', saved)" "is_cstr r'"
    using strsplit_start [OF w(7-9) r(2)] by blast
  define m0 where "m0 = ?w0 @ blank # (?w1 @ blank # (?w2 @ r)) @ [NUL]"
  define m1 where "m1 = ?w0 @ NUL # (?w1 @ blank # (?w2 @ r)) @ [NUL]"
  define m2 where "m2 = (?w0 @ [NUL]) @ ?w1 @ NUL # (?w2 @ r) @ [NUL]"
  define mem where "mem = ?h @ (''msg=audit('' @ ?ts @ CHR '')'' # r') @ NUL # t'"
  define mem' where "mem' = ?h @ (''msg=audit('' @ ?ts) @ NUL # r' @ NUL # t'"
  have s1: "strsplit_from m0 0 = Some (Some 0, m1, Some (length ?w0))"
    using strsplit_word [OF w(1-3), of "?w1 @ blank # (?w2 @ r)" "[]" "[]"] w(6,9) r(2) by (simp add: m0_def m1_def)
  have s2: "strsplit_from m1 (length ?w0 + 1) = Some (Some (length (?w0 @ [NUL])), m2, Some (length (?w0 @ [NUL] @ ?w1)))"
    using strsplit_word [OF w(4-6), of "?w2 @ r" "?w0 @ [NUL]" "[]"] w(9) r(2) by (simp add: m1_def m2_def)
  have s3': "strsplit_from m2 (length (?w0 @ [NUL] @ ?w1) + 1) = Some (Some (length ?h), mem, saved)"
    using s3(1) by (simp add: m2_def mem_def)
  have m0: "take (if peek ?b = CHR ''n'' then 340 else 80) ?b @ [NUL] = m0"
    using r(1) by (simp add: m0_def)
  have c: "mem_at m1 0 = Some CHR ''n''" by (simp add: m1_def mem_at_def)
  have call: "extract_timestamp env True ?b first =
     timestamp_from env True (Some 5) (length (?w0 @ [NUL]) + 5) mem (length ?h) first"
    unfolding extract_timestamp_def Let_def m0 audit_strsplit_def using s1 s2 s3' c
    by (simp del: length_append list.size append_Cons)
  have nd: "string_at mem' 5 = Some nd"
    using string_at_append [of nd "''node=''"] assms(3) by (simp add: mem'_def plain_word_def eval_nat_numeral)
  have ty: "string_at mem' (length (?w0 @ [NUL]) + 5) = Some ty"
    using string_at_append [of ty "?w0 @ NUL # ''type=''"] assms(4) by (simp add: mem'_def plain_word_def eval_nat_numeral)
  note tf = timestamp_from_ok [OF show_timestamp_plain(1,3) s3(2) str2event_show [OF assms(6-8)] mem_def mem'_def]
  from event_in_time_ok [where tn = "Some 5" and node = "Some nd", OF assms(1,2) ty] nd show ?thesis
    unfolding call tf by simp
qed

definition lol_initial :: lol where
  "lol_initial = \<lparr>lo_array = [], lo_maxi = - 1, lo_limit = 0, lo_ready = 0, lo_first = (0, 0)\<rparr>"

lemma lol_create_ok: "\<exists>lo. lol_create True lol_initial = Some lo \<and> lol_wf lo \<and> live lo = {#}"
  by (simp add: lol_create_def lol_initial_def lol_wf_def live_def used_def ARRAY_LIMIT_def slot_ok_def filter_mset_eq_conv)

lemma sane_extracted: "(\<And>first. \<exists>first'. extract_timestamp env True b first = Some (Some e, first')) \<Longrightarrow> ev_sec e + 2 < 2 ^ 63 \<Longrightarrow> sane_line env b"
  unfolding sane_line_def by (metis (mono_tags, lifting) case_prod_conv option.simps(5))

text \<open>A concrete environment and array.\<close>

definition demo_env :: lol_env where
  "demo_env = \<lparr>le_tables = sample_tables, le_start_time = 0, le_end_time = 0, le_AUDIT_KERNEL = 2000, le_AUDIT_EOE = 1320,
     le_AUDIT_MAC_UNLBL_ALLOW = 1406\<rparr>"

definition demo_event :: "int \<Rightarrow> llist" where
  "demo_event sec = list_create\<lparr>l_e := event_unset\<lparr>ev_sec := sec\<rparr>\<rparr>"

definition demo_lol :: lol where
  "demo_lol = \<lparr>lo_array = [L_COMPLETE (demo_event 5), L_EMPTY, L_COMPLETE (demo_event 3)], lo_maxi = 2, lo_limit = 3,
     lo_ready = 2, lo_first = (3, 0)\<rparr>"

lemma demo_lol_wf: "lol_wf demo_lol" "live demo_lol = {#L_COMPLETE (demo_event 5), L_COMPLETE (demo_event 3)#}"
  by (simp_all add: demo_lol_def lol_wf_def used_def slot_ok_def live_def)

lemma demo_show: "show_nat (Suc 0) = ''1''" "show_nat 2 = ''2''" "show_nat 3 = ''3''" "show_nat 77 = ''77''"
  by code_simp+

section \<open>Properties\<close>

text \<open>C3: Nothing is lost or duplicated when events are put together: for every sequence of calls on a
  new list in which all allocations succeed and every line is sane - its time stamp can be read
  without leaving the copy of the line and its seconds are not within two of the largest \<open>time_t\<close> -
  no call is undefined, and the records accepted are exactly those of the events taken out and of
  the events still held, while the array stays consistent with its counters.\<close>

theorem lol_conservation:
  assumes "\<forall>b \<in> lines ops. sane_line env b"
  shows "\<exists>lo ins outs lo'. lol_create True lol_initial = Some lo \<and> run_lol env ops lo = Some (ins, outs, lo') \<and>
     lol_wf lo' \<and> mset ins = \<Sum>\<^sub># (mset (map list_records outs)) + records lo'"
proof -
  obtain lo where lo: "lol_create True lol_initial = Some lo" "lol_wf lo" "live lo = {#}" using lol_create_ok by blast
  from run_lol_ok [OF lo(2) assms] lo(1,3) show ?thesis by (auto simp: records_def)
qed

theorem lol_conservation_witness:
  "\<exists>lo ins outs lo'. lol_create True lol_initial = Some lo \<and>
     run_lol demo_env [Add_line (show_line ''DAEMON_START'' 1 2 3 []), Finish, Take] lo = Some (ins, outs, lo') \<and>
     lol_wf lo' \<and> mset ins = \<Sum>\<^sub># (mset (map list_records outs)) + records lo'"
proof -
  have "\<exists>first'. extract_timestamp demo_env True (show_line ''DAEMON_START'' 1 2 3 []) first =
     Some (Some \<lparr>ev_sec = int 1, ev_milli = 2, ev_serial = 3, ev_node = None,
                 ev_type = audit_name_to_msg_type (le_tables demo_env) ''DAEMON_START''\<rparr>, first')" for first
    by (rule extract_plain_line)
       (simp_all add: demo_env_def plain_word_def ULONG_MAX_def show_line_def show_timestamp_def show_milli_def demo_show)
  from sane_extracted [OF this] have "\<forall>b \<in> lines [Add_line (show_line ''DAEMON_START'' 1 2 3 []), Finish, Take]. sane_line demo_env b"
    by simp
  from lol_conservation [OF this] show ?thesis .
qed

text \<open>C19: At the end of the input everything comes out: after \<open>terminate_all_events\<close>, taking as often
  as there are events held returns each of them exactly once, in the order of their time stamps
  and serial numbers, and leaves the array empty.\<close>

theorem lol_drains_in_order:
  assumes "lol_wf lo"
  shows "\<exists>ls lo'. take_all (size (live lo)) (terminate_all_events lo) = (ls, lo') \<and> live lo' = {#} \<and>
     mset (map Some ls) = image_mset slot_list (live lo) \<and> sorted (map (\<lambda>l. time_of (l_e l)) ls)"
proof -
  note t = terminate_all_events_ok [OF assms]
  have "\<forall>n \<in># live (terminate_all_events lo). is_complete n"
  proof
    fix n assume "n \<in># live (terminate_all_events lo)"
    then obtain m where "m \<in># live lo" "n = complete_node m" by (auto simp: t(2))
    then show "is_complete n" by (cases m) (auto simp: live_def)
  qed
  moreover have "size (live (terminate_all_events lo)) = size (live lo)" by (simp add: t(2))
  ultimately obtain ls lo' where "take_all (size (live lo)) (terminate_all_events lo) = (ls, lo')" "live lo' = {#}"
    "live (terminate_all_events lo) = mset (map L_COMPLETE ls)" "sorted (map (\<lambda>l. time_of (l_e l)) ls)"
    using take_all_ok [OF t(1)] by blast
  with image_slot_list_complete [of "live lo" ls] show ?thesis by (simp add: t(2))
qed

theorem lol_drains_in_order_witness:
  "\<exists>ls lo'. take_all 2 (terminate_all_events demo_lol) = (ls, lo') \<and> live lo' = {#} \<and>
     mset ls = {#demo_event 3, demo_event 5#} \<and> sorted (map (\<lambda>l. time_of (l_e l)) ls)"
proof -
  have "mset ls = {#demo_event 3, demo_event 5#}" if "mset (map Some ls) = image_mset slot_list (live demo_lol)" for ls
  proof -
    have "image_mset the (mset (map Some ls)) = {#demo_event 3, demo_event 5#}"
      unfolding that by (simp add: demo_lol_wf slot_list_def add_mset_commute)
    then show ?thesis by (simp add: image_mset.compositionality comp_def)
  qed
  with lol_drains_in_order [OF demo_lol_wf(1)] show ?thesis by (auto simp: demo_lol_wf eval_nat_numeral)
qed

text \<open>C22: \<open>get_ready_event\<close> only hands out an event that is complete and has the lowest time stamp and
  serial number of all events held, and takes exactly it out of the array; when it returns NULL
  although a complete event is held, an event that is not later is still under construction.\<close>

theorem get_ready_event_lowest:
  assumes "lol_wf lo"
  shows "case get_ready_event lo of
     (None, lo') \<Rightarrow> lo' = lo \<and>
       (\<forall>l. L_COMPLETE l \<in># live lo \<longrightarrow> (\<exists>l0. L_BUILDING l0 \<in># live lo \<and> time_of (l_e l0) \<le> time_of (l_e l)))
   | (Some l, lo') \<Rightarrow> lol_wf lo' \<and> live lo = add_mset (L_COMPLETE l) (live lo') \<and>
       (\<forall>n \<in># live lo. \<forall>e. slot_event n = Some e \<longrightarrow> time_of (l_e l) \<le> time_of e)"
  by (rule get_ready_event_ok [OF assms])

theorem get_ready_event_lowest_witness:
  "case get_ready_event demo_lol of
     (None, _) \<Rightarrow> False
   | (Some l, lo') \<Rightarrow> lol_wf lo' \<and> live demo_lol = add_mset (L_COMPLETE l) (live lo')"
proof -
  have "fst (get_ready_event demo_lol) \<noteq> None"
    by (simp add: get_ready_event_def demo_lol_def used_def slot_event_def Let_def eval_nat_numeral)
  with get_ready_event_lowest [OF demo_lol_wf(1)] show ?thesis by (auto split: option.splits)
qed

text \<open>C36: A line of a log is recognised: from a line with the time stamp printed as the daemon prints it
  (\<open>%lu.%03u:%u\<close>, the milliseconds with leading zeros), with any text behind it and with or without
  the name of a node, exactly the event's time, serial number, node and record type are read. The
  part up to the time stamp has to fit the copy that is cut, no search interval is set, and the
  allocation of the node name succeeds.\<close>

theorem extract_timestamp_lines:
  assumes "le_start_time env = 0" "le_end_time env = 0" "plain_word nd" "plain_word ty" "is_cstr rest"
    "sec < 2 ^ 63" "milli < 2 ^ 32" "serial \<le> ULONG_MAX" "length (show_line ty sec milli serial []) \<le> 80" "length nd \<le> 254"
  shows "(\<exists>first'. extract_timestamp env True (show_line ty sec milli serial rest) first =
     Some (Some \<lparr>ev_sec = int sec, ev_milli = milli, ev_serial = serial, ev_node = None,
                 ev_type = audit_name_to_msg_type (le_tables env) ty\<rparr>, first')) \<and>
    (\<exists>first'. extract_timestamp env True (''node='' @ nd @ blank # show_line ty sec milli serial rest) first =
     Some (Some \<lparr>ev_sec = int sec, ev_milli = milli, ev_serial = serial, ev_node = Some nd,
                 ev_type = audit_name_to_msg_type (le_tables env) ty\<rparr>, first'))"
  using extract_plain_line [OF assms(1,2,4-9)] extract_node_line [OF assms(1-8)] assms(9,10) by simp

theorem extract_timestamp_lines_witness:
  "\<exists>first'. extract_timestamp demo_env True ''node=vm type=CWD msg=audit(1.077:3): x'' (0, 0) =
     Some (Some \<lparr>ev_sec = 1, ev_milli = 77, ev_serial = 3, ev_node = Some ''vm'',
                 ev_type = audit_name_to_msg_type sample_tables ''CWD''\<rparr>, first')"
proof -
  have h: "le_start_time demo_env = 0" "le_end_time demo_env = 0" "plain_word ''vm''" "plain_word ''CWD''" "is_cstr '': x''"
    "(1::nat) < 2 ^ 63" "(77::nat) < 2 ^ 32" "3 \<le> ULONG_MAX" "length (show_line ''CWD'' 1 77 3 []) \<le> 80" "length ''vm'' \<le> 254"
    by (simp_all add: demo_env_def plain_word_def ULONG_MAX_def show_line_def show_timestamp_def show_milli_def demo_show)
  moreover have "''node='' @ ''vm'' @ blank # show_line ''CWD'' 1 77 3 '': x'' = ''node=vm type=CWD msg=audit(1.077:3): x''"
    by (simp add: show_line_def show_timestamp_def show_milli_def demo_show)
  ultimately show ?thesis using extract_timestamp_lines [OF h, of "(0, 0)"] by (simp add: demo_env_def)
qed

text \<open>A short line makes the extraction read behind the end of its copy: the tenth character of the
  token after the record type is looked at whether or not it exists.\<close>

theorem extract_timestamp_short_line:
  "extract_timestamp env dup_ok ''type=X a'' first = None"
proof -
  have s1: "strsplit_from (''type=X a'' @ [NUL]) 0 = Some (Some 0, ''type=X'' @ NUL # ''a'' @ [NUL], Some 6)"
    using strsplit_word [of "''type=X''" "''a''" "[]" "[]"] by (simp add: eval_nat_numeral)
  have s2: "strsplit_from (''type=X'' @ NUL # ''a'' @ [NUL]) 7 = Some (Some 7, ''type=X'' @ NUL # ''a'' @ [NUL], None)"
    using strsplit_last [of "''a''" "''type=X'' @ [NUL]" "[]"] by (simp add: eval_nat_numeral)
  have "timestamp_from env dup_ok None 5 (''type=X'' @ NUL # ''a'' @ [NUL]) 7 first = None"
    by (simp add: timestamp_from_def mem_at_def)
  with s1 s2 show ?thesis by (simp add: extract_timestamp_def audit_strsplit_def mem_at_def)
qed

end
