(* ===== verification/C_Numbers.thy ===== *)
theory C_Numbers
  imports Audit_Prelude
begin

text \<open>
  The number conversions of the C library in other bases than ten: \<open>strtoul (s, NULL, 0)\<close>,
  \<open>strtol (s, NULL, 0)\<close> and \<open>strtoul (s, NULL, 16)\<close>, and the case conversions of the ASCII range.
\<close>

definition hex_val :: "char \<Rightarrow> nat option" where
  "hex_val c =
     (let n = (of_char c :: nat) in
      if 48 \<le> n \<and> n \<le> 57 then Some (n - 48)
      else if 97 \<le> n \<and> n \<le> 102 then Some (n - 87)
      else if 65 \<le> n \<and> n \<le> 70 then Some (n - 55)
      else None)"

definition digit_in :: "nat \<Rightarrow> char \<Rightarrow> bool" where
  "digit_in base c = (case hex_val c of Some d \<Rightarrow> d < base | None \<Rightarrow> False)"

fun number_in :: "nat \<Rightarrow> nat \<Rightarrow> string \<Rightarrow> nat" where
  "number_in base acc [] = acc"
| "number_in base acc (c # cs) = number_in base (base * acc + the (hex_val c)) cs"

text \<open>Whether a prefix \<open>0x\<close> that is followed by a digit stands at the start.\<close>

definition hex_prefix :: "string \<Rightarrow> bool" where
  "hex_prefix s \<longleftrightarrow> char_at s 0 = CHR ''0'' \<and> (char_at s 1 = CHR ''x'' \<or> char_at s 1 = CHR ''X'') \<and> digit_in 16 (char_at s 2)"

text \<open>The sign and the absolute value: white space, a sign, the prefix that chooses or confirms the
  base (base 0: \<open>0x\<close> is 16, \<open>0\<close> is 8, otherwise 10), the digits.\<close>

definition scan_base :: "nat \<Rightarrow> string \<Rightarrow> bool \<times> nat" where
  "scan_base base s =
     (let s1 = dropWhile isspace s;
          neg = (peek s1 = CHR ''-'');
          s2 = (if peek s1 = CHR ''-'' \<or> peek s1 = CHR ''+'' then tl s1 else s1);
          (b, s3) = (if (base = 0 \<or> base = 16) \<and> hex_prefix s2 then (16, drop 2 s2)
                     else if base = 0 then (if peek s2 = CHR ''0'' then (8, s2) else (10, s2))
                     else (base, s2))
      in (neg, number_in b 0 (takeWhile (digit_in b) s3)))"

text \<open>The value, and whether \<open>errno\<close> was set.\<close>

definition strtoul_base :: "nat \<Rightarrow> string \<Rightarrow> nat \<times> bool" where
  "strtoul_base base s =
     (case scan_base base s of (neg, n) \<Rightarrow>
        if n > ULONG_MAX then (ULONG_MAX, True)
        else if neg then ((2 ^ 64 - n) mod 2 ^ 64, False)
        else (n, False))"

definition strtol_base :: "nat \<Rightarrow> string \<Rightarrow> int" where
  "strtol_base base s =
     (case scan_base base s of (neg, n) \<Rightarrow>
        max (- (2 ^ 63)) (min (2 ^ 63 - 1) (if neg then - int n else int n)))"

text \<open>Assignment to a 32-bit unsigned variable.\<close>

definition ulong_to_u32 :: "nat \<Rightarrow> u32" where
  "ulong_to_u32 n = of_nat n"

definition long_to_u32 :: "int \<Rightarrow> u32" where
  "long_to_u32 n = of_int n"

definition to_lower :: "char \<Rightarrow> char" where
  "to_lower c = (if 65 \<le> (of_char c :: nat) \<and> (of_char c :: nat) \<le> 90 then char_of ((of_char c :: nat) + 32) else c)"

definition strcaseeq :: "string \<Rightarrow> string \<Rightarrow> bool" where
  "strcaseeq s t \<longleftrightarrow> map to_lower s = map to_lower t"

section \<open>Decimal numbers\<close>

lemma hex_val_digit: "isdigit c \<Longrightarrow> hex_val c = Some (digit_val c)"
  by (simp add: hex_val_def isdigit_def digit_val_def)

lemma digit_in_10: "digit_in 10 c = isdigit c"
  by (auto simp: digit_in_def hex_val_def isdigit_def Let_def split: if_splits)

lemma number_in_10: "\<forall>c \<in> set s. isdigit c \<Longrightarrow> number_in 10 acc s = decimal acc s"
  by (induction s arbitrary: acc) (auto simp: hex_val_digit)

lemma peek_show_nat: "0 < n \<Longrightarrow> peek (show_nat n @ s) \<noteq> CHR ''0''"
proof (induction n arbitrary: s rule: show_nat.induct)
  case (1 n)
  show ?case
  proof (cases "n < 10")
    case True
    have "digit_char n \<noteq> CHR ''0''"
    proof
      assume "digit_char n = CHR ''0''"
      then have "of_char (digit_char n) = (48 :: nat)" by simp
      with True 1 show False by (simp add: of_char_digit_char)
    qed
    with True show ?thesis by (subst show_nat.simps) simp
  next
    case False
    then have "peek (show_nat (n div 10) @ [digit_char (n mod 10)] @ s) \<noteq> CHR ''0''" using 1 by simp
    with False show ?thesis by (subst show_nat.simps) simp
  qed
qed

lemma scan_base_show:
  assumes "0 < n" "\<not> isdigit (peek rest)"
  shows "scan_base 0 (show_nat n @ rest) = (False, n)"
proof -
  obtain c cs where c: "show_nat n = c # cs" "isdigit c" by (rule show_nat_first)
  note sp = isdigit_not_special [OF c(2)]
  have "c \<noteq> CHR ''0''" using peek_show_nat [OF assms(1), of "[]"] c(1) by simp
  moreover have "takeWhile (digit_in 10) (show_nat n @ rest) = show_nat n"
    using takeWhile_digits_show [OF assms(2)] by (simp add: digit_in_10 cong: takeWhile_cong)
  moreover have "number_in 10 0 (show_nat n) = n"
    using number_in_10 [OF show_nat_digits] by (simp add: decimal_show_nat)
  ultimately show ?thesis
    using c sp by (simp add: scan_base_def hex_prefix_def)
qed

lemma strtoul_base_show:
  "0 < n \<Longrightarrow> n \<le> ULONG_MAX \<Longrightarrow> \<not> isdigit (peek rest) \<Longrightarrow> strtoul_base 0 (show_nat n @ rest) = (n, False)"
  by (simp add: strtoul_base_def scan_base_show)

end
