(* ===== verification/Audit_Rules.thy ===== *)
theory Audit_Rules
  imports C_Numbers Lookup_Table
begin

text \<open>
  The construction of audit rules in \<open>lib/libaudit.c\<close>: how \<open>auditctl\<close> and other clients turn
  the pairs of a rule's text into the structure \<open>audit_rule_data\<close> that is sent to the kernel.

  The numbers of the fields, filter lists, actions and operators belong to the kernel's header
  \<open>linux/audit.h\<close>; they are the constructors of datatypes, and the parameter \<open>re_field\<close> says which
  field a number of the generated table stands for. The arrays have their full length and the slot
  behind the last field is written before a pair is known to be valid, as in the code; strings are
  collected in \<open>buf\<close>, of which the kernel takes as many bytes for each string field as its value
  says. The user database, the machine's name and the features of the kernel are parameters. A rule
  that was freed is \<open>None\<close>.
\<close>

section \<open>Data\<close>

datatype rule_field =
    AUDIT_PID | AUDIT_UID | AUDIT_EUID | AUDIT_SUID | AUDIT_FSUID | AUDIT_GID | AUDIT_EGID | AUDIT_SGID | AUDIT_FSGID
  | AUDIT_LOGINUID | AUDIT_ARCH | AUDIT_MSGTYPE | AUDIT_SUBJ_USER | AUDIT_SUBJ_ROLE | AUDIT_SUBJ_TYPE | AUDIT_SUBJ_SEN
  | AUDIT_SUBJ_CLR | AUDIT_PPID | AUDIT_OBJ_USER | AUDIT_OBJ_ROLE | AUDIT_OBJ_TYPE | AUDIT_OBJ_LEV_LOW | AUDIT_OBJ_LEV_HIGH
  | AUDIT_SESSIONID | AUDIT_FSTYPE | AUDIT_DEVMAJOR | AUDIT_DEVMINOR | AUDIT_INODE | AUDIT_EXIT | AUDIT_SUCCESS
  | AUDIT_WATCH | AUDIT_PERM | AUDIT_DIR | AUDIT_FILETYPE | AUDIT_OBJ_UID | AUDIT_OBJ_GID | AUDIT_FIELD_COMPARE | AUDIT_EXE
  | AUDIT_SADDR_FAM | AUDIT_ARG0 | AUDIT_ARG1 | AUDIT_ARG2 | AUDIT_ARG3 | AUDIT_FILTERKEY | Other_field int

datatype rule_filter = AUDIT_FILTER_USER | AUDIT_FILTER_TASK | AUDIT_FILTER_EXIT | AUDIT_FILTER_EXCLUDE | AUDIT_FILTER_FS

datatype rule_action = AUDIT_NEVER | AUDIT_POSSIBLE | AUDIT_ALWAYS

datatype rule_op = AUDIT_NOT_EQUAL | AUDIT_GREATER_THAN_OR_EQUAL | AUDIT_LESS_THAN_OR_EQUAL | AUDIT_BIT_TEST
  | AUDIT_EQUAL | AUDIT_GREATER_THAN | AUDIT_LESS_THAN | AUDIT_BIT_MASK

record audit_rule =
  r_flags :: rule_filter
  r_action :: rule_action
  r_field_count :: nat
  r_mask :: "u32 list"
  r_fields :: "rule_field list"
  r_values :: "u32 list"
  r_fieldflags :: "rule_op option list"
  r_buflen :: nat
  r_buf :: string

record rule_globals =
  g_permadded :: bool
  g_archadded :: bool
  g_syscalladded :: bool
  g_exeadded :: bool
  g_filterfsadded :: bool
  g_elf :: u32

record rule_env =
  re_tables :: gen_tables
  re_field :: "int \<Rightarrow> rule_field"
  re_MAX_FIELDS :: nat
  re_BITMASK_SIZE :: nat
  re_MAX_KEY_LEN :: nat
  re_PATH_MAX :: nat
  re_AF_MAX :: nat
  re_PERM_EXEC :: u32
  re_PERM_WRITE :: u32
  re_PERM_READ :: u32
  re_PERM_ATTR :: u32
  re_getpwnam :: "string \<Rightarrow> u32 option"
  re_getgrnam :: "string \<Rightarrow> u32 option"
  re_uname :: "string option"
  re_features :: u32

text \<open>The error codes of \<open>lib/errormsg.h\<close>, and the -3 that stands for exhausted memory.\<close>

datatype eau = EAU_OPMISSING | EAU_FIELDUNKNOWN | EAU_ARCHMISPLACED | EAU_ELFUNKNOWN | EAU_EXITONLY | EAU_MSGTYPEUNKNOWN
  | EAU_MSGTYPEEXCLUDEUSER | EAU_STRTOOLONG | EAU_MSGTYPECREDEXCLUDE | EAU_OPEQNOTEQ | EAU_PERMRWXA | EAU_ERRUNKNOWN
  | EAU_FILETYPEUNKNOWN | EAU_KEYDEP | EAU_FIELDVALMISSING | EAU_FIELDVALNUM | EAU_FIELDNAME | EAU_COMPFIELDNAME | EAU_COMPVAL
  | EAU_COMPFIELDUNKNOWN | EAU_COMPVALUNKNOWN | EAU_FIELDTOOMANY | EAU_OPEQ | EAU_FIELDNOSUPPORT | EAU_FIELDNOFILTER
  | EAU_FILTERMISSING | EAU_COMPINCOMPAT | EAU_FIELDUNAVAIL | EAU_FILTERNOSUPPORT | EAU_FSTYPEUNKNOWN | EAU_FIELDVALTOOBIG
  | EAU_PRINT_NOTHING | No_memory

fun eau_code :: "eau \<Rightarrow> int" where
  "eau_code EAU_OPMISSING = 1"
| "eau_code EAU_FIELDUNKNOWN = 2"
| "eau_code EAU_ARCHMISPLACED = 3"
| "eau_code EAU_ELFUNKNOWN = 5"
| "eau_code EAU_EXITONLY = 7"
| "eau_code EAU_MSGTYPEUNKNOWN = 8"
| "eau_code EAU_MSGTYPEEXCLUDEUSER = 9"
| "eau_code EAU_STRTOOLONG = 11"
| "eau_code EAU_MSGTYPECREDEXCLUDE = 12"
| "eau_code EAU_OPEQNOTEQ = 13"
| "eau_code EAU_PERMRWXA = 14"
| "eau_code EAU_ERRUNKNOWN = 15"
| "eau_code EAU_FILETYPEUNKNOWN = 16"
| "eau_code EAU_KEYDEP = 19"
| "eau_code EAU_FIELDVALMISSING = 20"
| "eau_code EAU_FIELDVALNUM = 21"
| "eau_code EAU_FIELDNAME = 22"
| "eau_code EAU_COMPFIELDNAME = 24"
| "eau_code EAU_COMPVAL = 25"
| "eau_code EAU_COMPFIELDUNKNOWN = 26"
| "eau_code EAU_COMPVALUNKNOWN = 27"
| "eau_code EAU_FIELDTOOMANY = 28"
| "eau_code EAU_OPEQ = 29"
| "eau_code EAU_FIELDNOSUPPORT = 30"
| "eau_code EAU_FIELDNOFILTER = 31"
| "eau_code EAU_FILTERMISSING = 32"
| "eau_code EAU_COMPINCOMPAT = 33"
| "eau_code EAU_FIELDUNAVAIL = 34"
| "eau_code EAU_FILTERNOSUPPORT = 35"
| "eau_code EAU_FSTYPEUNKNOWN = 36"
| "eau_code EAU_FIELDVALTOOBIG = 37"
| "eau_code EAU_PRINT_NOTHING = 38"
| "eau_code No_memory = 3"

definition AUDIT_FEATURE_BITMAP_EXECUTABLE_PATH :: u32 where "AUDIT_FEATURE_BITMAP_EXECUTABLE_PATH = 0x04"
definition AUDIT_FEATURE_BITMAP_EXCLUDE_EXTEND :: u32 where "AUDIT_FEATURE_BITMAP_EXCLUDE_EXTEND = 0x08"
definition AUDIT_FEATURE_BITMAP_SESSIONID_FILTER :: u32 where "AUDIT_FEATURE_BITMAP_SESSIONID_FILTER = 0x10"
definition AUDIT_FEATURE_BITMAP_FILTER_FS :: u32 where "AUDIT_FEATURE_BITMAP_FILTER_FS = 0x40"

unbundle bit_operations_syntax

definition has_feature :: "rule_env \<Rightarrow> u32 \<Rightarrow> bool" where
  "has_feature env f \<longleftrightarrow> (re_features env AND f) \<noteq> 0"

section \<open>System calls\<close>

definition audit_rule_init_data :: "rule_env \<Rightarrow> audit_rule" where
  "audit_rule_init_data env =
     \<lparr>r_flags = AUDIT_FILTER_USER, r_action = AUDIT_NEVER, r_field_count = 0,
      r_mask = replicate (re_BITMASK_SIZE env) 0, r_fields = replicate (re_MAX_FIELDS env) AUDIT_PID,
      r_values = replicate (re_MAX_FIELDS env) 0, r_fieldflags = replicate (re_MAX_FIELDS env) None,
      r_buflen = 0, r_buf = []\<rparr>"

definition audit_rule_create_data :: "rule_env \<Rightarrow> bool \<Rightarrow> audit_rule option" where
  "audit_rule_create_data env mem_ok = (if mem_ok then Some (audit_rule_init_data env) else None)"

text \<open>A negative number would be shifted by a negative amount or index before the mask.\<close>

definition audit_rule_syscall_data :: "rule_env \<Rightarrow> audit_rule \<Rightarrow> int \<Rightarrow> (int \<times> audit_rule) ub" where
  "audit_rule_syscall_data env r scall =
     (if scall < 0 then None
      else
        let word = nat scall div 32; bt = push_bit (nat scall mod 32) 1 in
        if word > re_BITMASK_SIZE env - 1 then Some (- 1, r)
        else Some (0, r\<lparr>r_mask := (r_mask r)[word := (r_mask r ! word) OR bt]\<rparr>))"

definition audit_detect_machine :: "rule_env \<Rightarrow> int" where
  "audit_detect_machine env =
     (case re_uname env of Some m \<Rightarrow> audit_name_to_machine (re_tables env) m | None \<Rightarrow> - 1)"

definition audit_rule_syscallbyname_data :: "rule_env \<Rightarrow> rule_globals \<Rightarrow> audit_rule \<Rightarrow> string \<Rightarrow> (int \<times> audit_rule) ub" where
  "audit_rule_syscallbyname_data env g r scall =
     (if scall = ''all'' then Some (0, r\<lparr>r_mask := map (\<lambda>_. - 1) (r_mask r)\<rparr>)
      else
        let machine = (if g_elf g = 0 then audit_detect_machine env
                       else audit_elf_to_machine (re_tables env) (g_elf g)) in
        if machine < 0 then Some (- 2, r)
        else
          let nr0 = audit_name_to_syscall (re_tables env) scall machine;
              nr = (if nr0 < 0 \<and> isdigit (peek scall) then to_int32 (strtol_base 0 scall) else nr0)
          in if nr \<ge> 0 then audit_rule_syscall_data env r nr else Some (- 1, r))"

section \<open>Watches\<close>

definition audit_update_watch_perms :: "rule_env \<Rightarrow> audit_rule \<Rightarrow> u32 \<Rightarrow> int \<times> audit_rule" where
  "audit_update_watch_perms env r perms =
     (if r_field_count r < 1 then (- 1, r)
      else
        let perm_at = (\<lambda>i. i < r_field_count r \<and> r_fields r ! i = AUDIT_PERM) in
        if \<exists>i < r_field_count r. perm_at i then
          (0, r\<lparr>r_values := map (\<lambda>i. if perm_at i then perms else r_values r ! i) [0..<length (r_values r)]\<rparr>)
        else if r_field_count r \<ge> re_MAX_FIELDS env - 1 then (- 2, r)
        else
          let c = r_field_count r in
          (0, r\<lparr>r_fields := (r_fields r)[c := AUDIT_PERM], r_fieldflags := (r_fieldflags r)[c := Some AUDIT_EQUAL],
                r_values := (r_values r)[c := perms], r_field_count := c + 1\<rparr>))"

text \<open>\<open>audit_add_watch_dir\<close>: the return value, the globals and the rule (NULL when memory is exhausted).
  The length of the path is cut to the 32 bits of the fields that hold it.\<close>

definition audit_add_watch_dir ::
  "rule_env \<Rightarrow> bool \<Rightarrow> rule_field \<Rightarrow> rule_globals \<Rightarrow> audit_rule option \<Rightarrow> string \<Rightarrow> int \<times> rule_globals \<times> audit_rule option" where
  "audit_add_watch_dir env mem_ok type g rule path =
     (if \<exists>r. rule = Some r \<and> r_field_count r \<noteq> 0 then (- 1, g, rule)
      else if type \<noteq> AUDIT_WATCH \<and> type \<noteq> AUDIT_DIR then (- 1, g, rule)
      else if \<not> mem_ok then (- 1, g, None)
      else
        let r = audit_rule_init_data env;
            all = re_PERM_READ env OR re_PERM_WRITE env OR re_PERM_EXEC env OR re_PERM_ATTR env
        in (0, g\<lparr>g_permadded := True\<rparr>,
            Some (r\<lparr>r_flags := AUDIT_FILTER_EXIT, r_action := AUDIT_ALWAYS, r_mask := map (\<lambda>_. - 1) (r_mask r),
                    r_field_count := 2, r_fields := (r_fields r)[0 := type, 1 := AUDIT_PERM],
                    r_values := (r_values r)[0 := of_nat (length path), 1 := all],
                    r_fieldflags := (r_fieldflags r)[0 := Some AUDIT_EQUAL, 1 := Some AUDIT_EQUAL],
                    r_buflen := length path mod 2 ^ 32, r_buf := path\<rparr>)))"

definition audit_add_watch :: "rule_env \<Rightarrow> bool \<Rightarrow> rule_globals \<Rightarrow> audit_rule option \<Rightarrow> string \<Rightarrow> int \<times> rule_globals \<times> audit_rule option" where
  "audit_add_watch env mem_ok = audit_add_watch_dir env mem_ok AUDIT_WATCH"

definition audit_add_dir :: "rule_env \<Rightarrow> bool \<Rightarrow> rule_globals \<Rightarrow> audit_rule option \<Rightarrow> string \<Rightarrow> int \<times> rule_globals \<times> audit_rule option" where
  "audit_add_dir env mem_ok = audit_add_watch_dir env mem_ok AUDIT_DIR"

section \<open>Comparisons between fields\<close>

fun strstr :: "string \<Rightarrow> string \<Rightarrow> nat option" where
  "strstr p [] = (if p = [] then Some 0 else None)"
| "strstr p (c # s) = (if take (length p) (c # s) = p then Some 0 else map_option Suc (strstr p s))"

text \<open>The first operator of a list that occurs in the text, with the text before and behind it.\<close>

fun split_op :: "(string \<times> rule_op) list \<Rightarrow> string \<Rightarrow> (rule_op \<times> string \<times> string) option" where
  "split_op [] pair = None"
| "split_op ((p, oper) # ops) pair =
     (case strstr p pair of
        Some k \<Rightarrow> Some (oper, take k pair, drop (k + length p) pair)
      | None \<Rightarrow> split_op ops pair)"

definition comp_ops :: "(string \<times> rule_op) list" where
  "comp_ops = [(''!='', AUDIT_NOT_EQUAL), (''='', AUDIT_EQUAL)]"

text \<open>The permutations of the switch, with the numbers of \<open>lib/libaudit.h\<close>.\<close>

definition uid_comparisons :: "((rule_field \<times> rule_field) \<times> u32) list" where
  "uid_comparisons =
     [((AUDIT_EUID, AUDIT_LOGINUID), 16), ((AUDIT_EUID, AUDIT_FSUID), 18),
      ((AUDIT_EUID, AUDIT_OBJ_UID), 3), ((AUDIT_EUID, AUDIT_SUID), 17),
      ((AUDIT_EUID, AUDIT_UID), 11), ((AUDIT_FSUID, AUDIT_LOGINUID), 14),
      ((AUDIT_FSUID, AUDIT_EUID), 18), ((AUDIT_FSUID, AUDIT_OBJ_UID), 8),
      ((AUDIT_FSUID, AUDIT_SUID), 19), ((AUDIT_FSUID, AUDIT_UID), 12),
      ((AUDIT_LOGINUID, AUDIT_EUID), 16), ((AUDIT_LOGINUID, AUDIT_FSUID), 14),
      ((AUDIT_LOGINUID, AUDIT_OBJ_UID), 5), ((AUDIT_LOGINUID, AUDIT_SUID), 15),
      ((AUDIT_LOGINUID, AUDIT_UID), 10), ((AUDIT_SUID, AUDIT_LOGINUID), 15),
      ((AUDIT_SUID, AUDIT_EUID), 17), ((AUDIT_SUID, AUDIT_FSUID), 19),
      ((AUDIT_SUID, AUDIT_OBJ_UID), 6), ((AUDIT_SUID, AUDIT_UID), 13),
      ((AUDIT_OBJ_UID, AUDIT_LOGINUID), 5), ((AUDIT_OBJ_UID, AUDIT_EUID), 3),
      ((AUDIT_OBJ_UID, AUDIT_FSUID), 8), ((AUDIT_OBJ_UID, AUDIT_UID), 1),
      ((AUDIT_OBJ_UID, AUDIT_SUID), 6), ((AUDIT_UID, AUDIT_LOGINUID), 10),
      ((AUDIT_UID, AUDIT_EUID), 11), ((AUDIT_UID, AUDIT_FSUID), 12),
      ((AUDIT_UID, AUDIT_OBJ_UID), 1), ((AUDIT_UID, AUDIT_SUID), 13)]"

definition gid_comparisons :: "((rule_field \<times> rule_field) \<times> u32) list" where
  "gid_comparisons =
     [((AUDIT_EGID, AUDIT_FSGID), 23), ((AUDIT_EGID, AUDIT_GID), 20),
      ((AUDIT_EGID, AUDIT_OBJ_GID), 4), ((AUDIT_EGID, AUDIT_SGID), 24),
      ((AUDIT_FSGID, AUDIT_SGID), 25), ((AUDIT_FSGID, AUDIT_GID), 21),
      ((AUDIT_FSGID, AUDIT_OBJ_GID), 9), ((AUDIT_FSGID, AUDIT_EGID), 23),
      ((AUDIT_GID, AUDIT_EGID), 20), ((AUDIT_GID, AUDIT_FSGID), 21),
      ((AUDIT_GID, AUDIT_OBJ_GID), 2), ((AUDIT_GID, AUDIT_SGID), 22),
      ((AUDIT_OBJ_GID, AUDIT_EGID), 4), ((AUDIT_OBJ_GID, AUDIT_FSGID), 9),
      ((AUDIT_OBJ_GID, AUDIT_GID), 2), ((AUDIT_OBJ_GID, AUDIT_SGID), 7),
      ((AUDIT_SGID, AUDIT_FSGID), 25), ((AUDIT_SGID, AUDIT_GID), 22),
      ((AUDIT_SGID, AUDIT_OBJ_GID), 7), ((AUDIT_SGID, AUDIT_EGID), 24)]"

definition compare_code :: "rule_field \<Rightarrow> rule_field \<Rightarrow> u32 option" where
  "compare_code field1 field2 = map_of (uid_comparisons @ gid_comparisons) (field1, field2)"

text \<open>Writing the slot behind the last field, and committing it.\<close>

definition put_field :: "rule_field \<Rightarrow> rule_op \<Rightarrow> audit_rule \<Rightarrow> audit_rule" where
  "put_field f oper r =
     r\<lparr>r_fields := (r_fields r)[r_field_count r := f], r_fieldflags := (r_fieldflags r)[r_field_count r := Some oper]\<rparr>"

definition put_value :: "u32 \<Rightarrow> audit_rule \<Rightarrow> audit_rule" where
  "put_value x r = r\<lparr>r_values := (r_values r)[r_field_count r := x]\<rparr>"

definition commit :: "audit_rule \<Rightarrow> audit_rule" where
  "commit r = r\<lparr>r_field_count := r_field_count r + 1\<rparr>"

definition audit_rule_interfield_comp_data :: "rule_env \<Rightarrow> audit_rule \<Rightarrow> string option \<Rightarrow> rule_filter \<Rightarrow> eau option \<times> audit_rule" where
  "audit_rule_interfield_comp_data env r pair flags =
     (case pair of
        None \<Rightarrow> (Some EAU_FILTERMISSING, r)
      | Some p \<Rightarrow>
          if r_field_count r \<ge> re_MAX_FIELDS env - 1 then (Some EAU_FIELDTOOMANY, r)
          else case split_op comp_ops p of
            None \<Rightarrow> (Some EAU_OPEQNOTEQ, r)
          | Some (oper, f, v) \<Rightarrow>
              if f = [] then (Some EAU_COMPFIELDNAME, r)
              else if v = [] then (Some EAU_COMPVAL, r)
              else
                let n1 = audit_name_to_field (re_tables env) f; n2 = audit_name_to_field (re_tables env) v in
                if n1 < 0 then (Some EAU_COMPFIELDUNKNOWN, r)
                else if n2 < 0 then (Some EAU_COMPVALUNKNOWN, r)
                else if flags \<noteq> AUDIT_FILTER_EXIT then (Some EAU_EXITONLY, r)
                else
                  let r' = put_field AUDIT_FIELD_COMPARE oper r in
                  (case compare_code (re_field env n1) (re_field env n2) of
                     None \<Rightarrow> (Some EAU_COMPINCOMPAT, r')
                   | Some c \<Rightarrow> (None, commit (put_value c r'))))"

section \<open>The machine of an \<open>arch\<close> field\<close>

datatype arch_bits = Bits_any | Bits_64 | Bits_32

definition requested_machine :: "rule_env \<Rightarrow> string \<Rightarrow> (arch_bits \<times> int) option" where
  "requested_machine env arch =
     (if strcaseeq ''b64'' arch then Some (Bits_64, audit_detect_machine env)
      else if strcaseeq ''b32'' arch then Some (Bits_32, audit_detect_machine env)
      else
        let machine = audit_name_to_machine (re_tables env) arch in
        if machine < 0 then
          (case strtoul_base 16 arch of (ival, err) \<Rightarrow>
             if err then None else Some (Bits_any, audit_elf_to_machine (re_tables env) (ulong_to_u32 ival)))
        else Some (Bits_any, machine))"

definition fixup_machine :: "arch_bits \<Rightarrow> int \<Rightarrow> int" where
  "fixup_machine bits machine =
     (if bits = Bits_32 \<and> machine = MACH_86_64 then MACH_X86
      else if bits = Bits_32 \<and> machine = MACH_PPC64 then MACH_PPC
      else if bits = Bits_32 \<and> machine = MACH_S390X then MACH_S390
      else if bits = Bits_32 \<and> machine = MACH_AARCH64 then MACH_ARM
      else machine)"

definition bits_allowed :: "gen_tables \<Rightarrow> arch_bits \<Rightarrow> int \<Rightarrow> bool" where
  "bits_allowed T bits machine =
     (if machine = MACH_X86 then bits \<noteq> Bits_64
      else if machine = MACH_PPC then bits \<noteq> Bits_64
      else if machine = MACH_S390 then bits \<noteq> Bits_64
      else if with_arm T \<and> machine = MACH_ARM then bits \<noteq> Bits_64
      else if with_aarch64 T \<and> machine = MACH_AARCH64 then bits \<noteq> Bits_32
      else if machine = MACH_86_64 \<or> machine = MACH_PPC64 \<or> machine = MACH_S390X then True
      else if machine = MACH_PPC64LE then bits \<noteq> Bits_32
      else False)"

definition audit_determine_machine :: "rule_env \<Rightarrow> string \<Rightarrow> int" where
  "audit_determine_machine env arch =
     (case requested_machine env arch of
        None \<Rightarrow> - 4
      | Some (bits, machine) \<Rightarrow>
          if machine < 0 then - 4
          else let m = fixup_machine bits machine in
               if bits_allowed (re_tables env) bits m then m else - 6)"

section \<open>Field pairs\<close>

definition fieldpair_ops :: "(string \<times> rule_op) list" where
  "fieldpair_ops =
     [(''!='', AUDIT_NOT_EQUAL), (''>='', AUDIT_GREATER_THAN_OR_EQUAL), (''<='', AUDIT_LESS_THAN_OR_EQUAL),
      (''&='', AUDIT_BIT_TEST), (''='', AUDIT_EQUAL), (''>'', AUDIT_GREATER_THAN), (''<'', AUDIT_LESS_THAN),
      (''&'', AUDIT_BIT_MASK)]"

definition uid_fields :: "rule_field list" where
  "uid_fields = [AUDIT_UID, AUDIT_EUID, AUDIT_SUID, AUDIT_FSUID, AUDIT_LOGINUID, AUDIT_OBJ_UID]"

definition gid_fields :: "rule_field list" where
  "gid_fields = [AUDIT_GID, AUDIT_EGID, AUDIT_SGID, AUDIT_FSGID, AUDIT_OBJ_GID]"

definition exit_string_fields :: "rule_field list" where
  "exit_string_fields = [AUDIT_OBJ_USER, AUDIT_OBJ_ROLE, AUDIT_OBJ_TYPE, AUDIT_OBJ_LEV_LOW, AUDIT_OBJ_LEV_HIGH, AUDIT_WATCH, AUDIT_DIR]"

definition string_fields :: "rule_field list" where
  "string_fields = exit_string_fields @ [AUDIT_SUBJ_USER, AUDIT_SUBJ_ROLE, AUDIT_SUBJ_TYPE, AUDIT_SUBJ_SEN,
     AUDIT_SUBJ_CLR, AUDIT_FILTERKEY, AUDIT_EXE]"

definition exclude_fields :: "rule_field list" where
  "exclude_fields = [AUDIT_PID, AUDIT_UID, AUDIT_GID, AUDIT_LOGINUID, AUDIT_MSGTYPE, AUDIT_SUBJ_USER, AUDIT_SUBJ_ROLE,
     AUDIT_SUBJ_TYPE, AUDIT_SUBJ_SEN, AUDIT_SUBJ_CLR, AUDIT_EXE]"

definition eq_or_ne :: "rule_op \<Rightarrow> bool" where
  "eq_or_ne oper \<longleftrightarrow> oper = AUDIT_NOT_EQUAL \<or> oper = AUDIT_EQUAL"

text \<open>The filter lists that are restricted to some fields or kernels.\<close>

definition filter_error :: "rule_env \<Rightarrow> rule_filter \<Rightarrow> rule_field \<Rightarrow> eau option" where
  "filter_error env flags field =
     (if flags = AUDIT_FILTER_EXCLUDE \<and> \<not> has_feature env AUDIT_FEATURE_BITMAP_EXCLUDE_EXTEND \<and> field \<noteq> AUDIT_MSGTYPE
      then Some EAU_FIELDNOSUPPORT
      else if flags = AUDIT_FILTER_EXCLUDE \<and> has_feature env AUDIT_FEATURE_BITMAP_EXCLUDE_EXTEND \<and> field \<notin> set exclude_fields
      then Some EAU_MSGTYPECREDEXCLUDE
      else if flags = AUDIT_FILTER_FS \<and> \<not> has_feature env AUDIT_FEATURE_BITMAP_FILTER_FS then Some EAU_FILTERNOSUPPORT
      else None)"

text \<open>
  A case of the switch gives the error, if any, and the value it wrote into the slot, if it wrote
  one before it returned.
\<close>

type_synonym slot_result = "eau option \<times> u32 option"

definition number_arg :: "string \<Rightarrow> u32 option" where
  "number_arg v =
     (if isdigit (peek v) then Some (ulong_to_u32 (fst (strtoul_base 0 v)))
      else if length v \<ge> 2 \<and> char_at v 0 = CHR ''-'' \<and> isdigit (char_at v 1) then Some (long_to_u32 (strtol_base 0 v))
      else None)"

definition audit_name_to_uid :: "rule_env \<Rightarrow> string \<Rightarrow> u32 option" where
  "audit_name_to_uid env name = re_getpwnam env name"

definition audit_name_to_gid :: "rule_env \<Rightarrow> string \<Rightarrow> u32 option" where
  "audit_name_to_gid env name = re_getgrnam env name"

definition uid_value :: "rule_env \<Rightarrow> string \<Rightarrow> slot_result" where
  "uid_value env v =
     (case number_arg v of
        Some x \<Rightarrow> (None, Some x)
      | None \<Rightarrow>
          if v = ''unset'' then (None, Some 4294967295)
          else (case audit_name_to_uid env v of Some u \<Rightarrow> (None, Some u) | None \<Rightarrow> (Some EAU_PRINT_NOTHING, None)))"

definition gid_value :: "rule_env \<Rightarrow> string \<Rightarrow> slot_result" where
  "gid_value env v =
     (if isdigit (peek v) then (None, Some (long_to_u32 (strtol_base 0 v)))
      else (case audit_name_to_gid env v of Some u \<Rightarrow> (None, Some u) | None \<Rightarrow> (Some EAU_PRINT_NOTHING, None)))"

definition exit_value :: "rule_env \<Rightarrow> rule_filter \<Rightarrow> string \<Rightarrow> slot_result" where
  "exit_value env flags v =
     (if flags \<noteq> AUDIT_FILTER_EXIT then (Some EAU_EXITONLY, None)
      else if isdigit (peek v) \<or> length v \<ge> 2 \<and> char_at v 0 = CHR ''-'' \<and> isdigit (char_at v 1)
      then (None, Some (long_to_u32 (strtol_base 0 v)))
      else let x = long_to_u32 (audit_name_to_errno (re_tables env) v) in
           if x = 0 then (Some EAU_ERRUNKNOWN, Some x) else (None, Some x))"

definition msgtype_value :: "rule_env \<Rightarrow> rule_filter \<Rightarrow> string \<Rightarrow> slot_result" where
  "msgtype_value env flags v =
     (if flags \<noteq> AUDIT_FILTER_EXCLUDE \<and> flags \<noteq> AUDIT_FILTER_USER then (Some EAU_MSGTYPEEXCLUDEUSER, None)
      else if isdigit (peek v) then (None, Some (long_to_u32 (strtol_base 0 v)))
      else let n = audit_name_to_msg_type (re_tables env) v in
           if n > 0 then (None, Some (long_to_u32 n)) else (Some EAU_MSGTYPEUNKNOWN, None))"

fun perm_bits :: "rule_env \<Rightarrow> u32 \<Rightarrow> string \<Rightarrow> u32 option" where
  "perm_bits env val [] = Some val"
| "perm_bits env val (c # v) =
     (if to_lower c = CHR ''r'' then perm_bits env (val OR re_PERM_READ env) v
      else if to_lower c = CHR ''w'' then perm_bits env (val OR re_PERM_WRITE env) v
      else if to_lower c = CHR ''x'' then perm_bits env (val OR re_PERM_EXEC env) v
      else if to_lower c = CHR ''a'' then perm_bits env (val OR re_PERM_ATTR env) v
      else None)"

definition perm_value :: "rule_env \<Rightarrow> rule_filter \<Rightarrow> rule_op \<Rightarrow> string \<Rightarrow> slot_result" where
  "perm_value env flags oper v =
     (if flags \<noteq> AUDIT_FILTER_EXIT then (Some EAU_EXITONLY, None)
      else if oper \<noteq> AUDIT_EQUAL then (Some EAU_OPEQ, None)
      else if length v > 4 then (Some EAU_STRTOOLONG, None)
      else (case perm_bits env 0 v of None \<Rightarrow> (Some EAU_PERMRWXA, None) | Some val \<Rightarrow> (None, Some val)))"

definition filetype_value :: "rule_env \<Rightarrow> rule_filter \<Rightarrow> string \<Rightarrow> slot_result" where
  "filetype_value env flags v =
     (if flags \<noteq> AUDIT_FILTER_EXIT then (Some EAU_EXITONLY, None)
      else let x = long_to_u32 (audit_name_to_ftype (re_tables env) v) in
           if sint x < 0 then (Some EAU_FILETYPEUNKNOWN, Some x) else (None, Some x))"

definition fstype_value :: "rule_env \<Rightarrow> rule_filter \<Rightarrow> rule_op \<Rightarrow> string \<Rightarrow> slot_result" where
  "fstype_value env flags oper v =
     (if flags \<noteq> AUDIT_FILTER_FS then (Some EAU_FIELDUNAVAIL, None)
      else if \<not> eq_or_ne oper then (Some EAU_OPEQNOTEQ, None)
      else let x = (if isdigit (peek v) then ulong_to_u32 (fst (strtoul_base 0 v))
                    else long_to_u32 (audit_name_to_fstype (re_tables env) v)) in
           if sint x = - 1 then (Some EAU_FSTYPEUNKNOWN, Some x) else (None, Some x))"

definition arg_value :: "string \<Rightarrow> slot_result" where
  "arg_value v = (case number_arg v of Some x \<Rightarrow> (None, Some x) | None \<Rightarrow> (Some EAU_FIELDVALNUM, None))"

text \<open>A session id that is neither a number nor \<open>unset\<close> leaves the slot as it was and is no error.\<close>

definition sessionid_value :: "rule_env \<Rightarrow> rule_filter \<Rightarrow> string \<Rightarrow> slot_result" where
  "sessionid_value env flags v =
     (if \<not> has_feature env AUDIT_FEATURE_BITMAP_SESSIONID_FILTER then (Some EAU_FIELDNOSUPPORT, None)
      else if flags \<noteq> AUDIT_FILTER_EXCLUDE \<and> flags \<noteq> AUDIT_FILTER_USER \<and> flags \<noteq> AUDIT_FILTER_EXIT
      then (Some EAU_FIELDNOFILTER, None)
      else (case number_arg v of
              Some x \<Rightarrow> (None, Some x)
            | None \<Rightarrow> if v = ''unset'' then (None, Some 4294967295) else (None, None)))"

definition saddr_value :: "rule_env \<Rightarrow> string \<Rightarrow> slot_result" where
  "saddr_value env v =
     (let x = ulong_to_u32 (fst (strtoul_base 0 v)) in
      if unat x \<ge> re_AF_MAX env then (Some EAU_FIELDVALTOOBIG, Some x) else (None, Some x))"

definition other_value :: "rule_filter \<Rightarrow> rule_field \<Rightarrow> rule_op \<Rightarrow> string \<Rightarrow> slot_result" where
  "other_value flags field oper v =
     (if field \<in> set [AUDIT_DEVMAJOR, AUDIT_DEVMINOR, AUDIT_INODE, AUDIT_SUCCESS] \<and> flags \<noteq> AUDIT_FILTER_EXIT
      then (Some EAU_EXITONLY, None)
      else if field = AUDIT_INODE \<and> \<not> eq_or_ne oper then (Some EAU_OPEQNOTEQ, None)
      else if field = AUDIT_PPID \<and> flags \<noteq> AUDIT_FILTER_EXIT then (Some EAU_EXITONLY, None)
      else if \<not> isdigit (peek v) then (Some EAU_FIELDVALNUM, None)
      else if field = AUDIT_INODE then (None, Some (ulong_to_u32 (fst (strtoul_base 0 v))))
      else (None, Some (long_to_u32 (strtol_base 0 v))))"

text \<open>The cases of the switch that neither write a global variable nor take a string.\<close>

definition plain_value :: "rule_env \<Rightarrow> rule_filter \<Rightarrow> rule_field \<Rightarrow> rule_op \<Rightarrow> string \<Rightarrow> slot_result" where
  "plain_value env flags field oper v =
     (if field \<in> set uid_fields then uid_value env v
      else if field \<in> set gid_fields then gid_value env v
      else if field = AUDIT_EXIT then exit_value env flags v
      else if field = AUDIT_MSGTYPE then msgtype_value env flags v
      else if field = AUDIT_PERM then perm_value env flags oper v
      else if field = AUDIT_FILETYPE then filetype_value env flags v
      else if field \<in> set [AUDIT_ARG0, AUDIT_ARG1, AUDIT_ARG2, AUDIT_ARG3] then arg_value v
      else if field = AUDIT_SESSIONID then sessionid_value env flags v
      else if field = AUDIT_SADDR_FAM then saddr_value env v
      else other_value flags field oper v)"

text \<open>\<open>AUDIT_ARCH\<close>: the result and the globals; a number is stored in \<open>_audit_elf\<close> before it is checked.\<close>

definition arch_field :: "rule_env \<Rightarrow> rule_op \<Rightarrow> string \<Rightarrow> rule_globals \<Rightarrow> slot_result \<times> rule_globals" where
  "arch_field env oper v g =
     (if g_syscalladded g then ((Some EAU_ARCHMISPLACED, None), g)
      else if \<not> eq_or_ne oper then ((Some EAU_OPEQNOTEQ, None), g)
      else if isdigit (peek v) then
        (case strtoul_base 0 v of (x, err) \<Rightarrow>
           let g' = g\<lparr>g_elf := ulong_to_u32 x\<rparr> in
           if err \<or> audit_elf_to_machine (re_tables env) (g_elf g') < 0 then ((Some EAU_ELFUNKNOWN, None), g')
           else ((None, Some (g_elf g')), g'\<lparr>g_archadded := True\<rparr>))
      else
        let elf = audit_machine_to_elf (re_tables env) (audit_determine_machine env v) in
        if elf = 0 then ((Some EAU_ELFUNKNOWN, None), g)
        else ((None, Some elf), g\<lparr>g_elf := elf, g_archadded := True\<rparr>))"

definition fstype_field :: "rule_env \<Rightarrow> rule_filter \<Rightarrow> rule_op \<Rightarrow> string \<Rightarrow> rule_globals \<Rightarrow> slot_result \<times> rule_globals" where
  "fstype_field env flags oper v g =
     (case fstype_value env flags oper v of
        (None, x) \<Rightarrow> ((None, x), g\<lparr>g_filterfsadded := True\<rparr>)
      | res \<Rightarrow> (res, g))"

text \<open>
  The string fields: the checks with the globals they set, then the length in the slot and the
  string at the end of the buffer; \<open>mem_ok\<close> is the outcome of \<open>realloc\<close>.
\<close>

definition string_checks :: "rule_env \<Rightarrow> rule_filter \<Rightarrow> rule_field \<Rightarrow> rule_op \<Rightarrow> string \<Rightarrow> rule_globals \<Rightarrow> eau option \<times> rule_globals" where
  "string_checks env flags field oper v g =
     (if field \<in> set exit_string_fields \<and> flags \<noteq> AUDIT_FILTER_EXIT then (Some EAU_EXITONLY, g)
      else
        let g1 = (if field = AUDIT_WATCH \<or> field = AUDIT_DIR then g\<lparr>g_permadded := True\<rparr> else g) in
        if field = AUDIT_EXE \<and> \<not> has_feature env AUDIT_FEATURE_BITMAP_EXECUTABLE_PATH then (Some EAU_FIELDNOSUPPORT, g1)
        else if field = AUDIT_EXE \<and> \<not> eq_or_ne oper then (Some EAU_OPEQNOTEQ, g1)
        else
          let g2 = (if field = AUDIT_EXE then g1\<lparr>g_exeadded := True\<rparr> else g1) in
          if field = AUDIT_FILTERKEY \<and> \<not> (g_syscalladded g2 \<or> g_permadded g2 \<or> g_exeadded g2 \<or> g_filterfsadded g2)
          then (Some EAU_KEYDEP, g2)
          else if field = AUDIT_FILTERKEY \<and> length v > re_MAX_KEY_LEN env then (Some EAU_STRTOOLONG, g2)
          else if length v > re_PATH_MAX env then (Some EAU_STRTOOLONG, g2)
          else (None, g2))"

definition add_string :: "string \<Rightarrow> audit_rule \<Rightarrow> audit_rule" where
  "add_string v r = (put_value (of_nat (length v)) r)\<lparr>r_buflen := r_buflen r + length v, r_buf := r_buf r @ v\<rparr>"

definition put_slot :: "slot_result \<Rightarrow> audit_rule \<Rightarrow> eau option \<times> audit_rule" where
  "put_slot res r =
     (case res of (err, x) \<Rightarrow>
        let r' = (case x of Some y \<Rightarrow> put_value y r | None \<Rightarrow> r) in
        (case err of None \<Rightarrow> (None, commit r') | Some e \<Rightarrow> (Some e, r')))"

definition field_switch ::
  "rule_env \<Rightarrow> bool \<Rightarrow> rule_filter \<Rightarrow> rule_field \<Rightarrow> rule_op \<Rightarrow> string \<Rightarrow> rule_globals \<Rightarrow> audit_rule
   \<Rightarrow> eau option \<times> rule_globals \<times> audit_rule option" where
  "field_switch env mem_ok flags field oper v g r =
     (if field \<in> set string_fields then
        (case string_checks env flags field oper v g of
           (Some e, g') \<Rightarrow> (Some e, g', Some r)
         | (None, g') \<Rightarrow>
             if mem_ok then (None, g', Some (commit (add_string v r))) else (Some No_memory, g', None))
      else
        (case (if field = AUDIT_ARCH then arch_field env oper v g
               else if field = AUDIT_FSTYPE then fstype_field env flags oper v g
               else (plain_value env flags field oper v, g)) of
           (res, g') \<Rightarrow> (case put_slot res r of (err, r') \<Rightarrow> (err, g', Some r'))))"

definition audit_rule_fieldpair_data ::
  "rule_env \<Rightarrow> bool \<Rightarrow> rule_globals \<Rightarrow> audit_rule \<Rightarrow> string option \<Rightarrow> rule_filter
   \<Rightarrow> eau option \<times> rule_globals \<times> audit_rule option" where
  "audit_rule_fieldpair_data env mem_ok g r pair flags =
     (case pair of
        None \<Rightarrow> (Some EAU_FILTERMISSING, g, Some r)
      | Some p \<Rightarrow>
          if r_field_count r \<ge> re_MAX_FIELDS env - 1 then (Some EAU_FIELDTOOMANY, g, Some r)
          else case split_op fieldpair_ops p of
            None \<Rightarrow> (Some EAU_OPMISSING, g, Some r)
          | Some (oper, f, v) \<Rightarrow>
              if f = [] then (Some EAU_FIELDNAME, g, Some r)
              else if v = [] then (Some EAU_FIELDVALMISSING, g, Some r)
              else
                let n = audit_name_to_field (re_tables env) f; field = re_field env n in
                if n < 0 then (Some EAU_FIELDUNKNOWN, g, Some r)
                else (case filter_error env flags field of
                        Some e \<Rightarrow> (Some e, g, Some r)
                      | None \<Rightarrow> field_switch env mem_ok flags field oper v g (put_field field oper r)))"

section \<open>The entries of a rule and the strings the kernel takes from it\<close>

type_synonym rule_entry = "rule_field \<times> rule_op option \<times> u32"

definition entries :: "audit_rule \<Rightarrow> rule_entry list" where
  "entries r = map (\<lambda>i. (r_fields r ! i, r_fieldflags r ! i, r_values r ! i)) [0..<r_field_count r]"

definition string_len :: "rule_entry \<Rightarrow> nat" where
  "string_len e = (case e of (f, _, x) \<Rightarrow> if f \<in> set string_fields then unat x else 0)"

fun unpack :: "rule_entry list \<Rightarrow> string \<Rightarrow> (rule_field \<times> string) list" where
  "unpack [] buf = []"
| "unpack ((f, oper, x) # es) buf =
     (if f \<in> set string_fields then (f, take (unat x) buf) # unpack es (drop (unat x) buf) else unpack es buf)"

definition rule_strings :: "audit_rule \<Rightarrow> (rule_field \<times> string) list" where
  "rule_strings r = unpack (entries r) (r_buf r)"

text \<open>The arrays have their declared lengths, there is a free slot, and the lengths in the string
  fields cover the buffer exactly.\<close>

definition rule_wf :: "rule_env \<Rightarrow> audit_rule \<Rightarrow> bool" where
  "rule_wf env r \<longleftrightarrow>
     length (r_fields r) = re_MAX_FIELDS env \<and> length (r_values r) = re_MAX_FIELDS env
   \<and> length (r_fieldflags r) = re_MAX_FIELDS env \<and> length (r_mask r) = re_BITMASK_SIZE env
   \<and> r_field_count r < re_MAX_FIELDS env \<and> r_buflen r = length (r_buf r)
   \<and> sum_list (map string_len (entries r)) = length (r_buf r)
   \<and> (\<forall>e \<in> set (entries r). fst (snd e) \<noteq> None)"

definition env_ok :: "rule_env \<Rightarrow> bool" where
  "env_ok env \<longleftrightarrow> 2 < re_MAX_FIELDS env \<and> 0 < re_BITMASK_SIZE env \<and> re_PATH_MAX env < 2 ^ 31"

text \<open>What a call may do to a rule: nothing that is visible below \<open>field_count\<close>, or one more entry.\<close>

definition same_frame :: "audit_rule \<Rightarrow> audit_rule \<Rightarrow> bool" where
  "same_frame r r' \<longleftrightarrow> r_flags r' = r_flags r \<and> r_action r' = r_action r \<and> r_mask r' = r_mask r
   \<and> length (r_fields r') = length (r_fields r) \<and> length (r_values r') = length (r_values r)
   \<and> length (r_fieldflags r') = length (r_fieldflags r)"

definition kept :: "audit_rule \<Rightarrow> audit_rule \<Rightarrow> bool" where
  "kept r r' \<longleftrightarrow> same_frame r r' \<and> r_field_count r' = r_field_count r \<and> entries r' = entries r
   \<and> r_buf r' = r_buf r \<and> r_buflen r' = r_buflen r"

definition extended :: "rule_entry \<Rightarrow> string \<Rightarrow> audit_rule \<Rightarrow> audit_rule \<Rightarrow> bool" where
  "extended e s r r' \<longleftrightarrow> same_frame r r' \<and> r_field_count r' = r_field_count r + 1 \<and> entries r' = entries r @ [e]
   \<and> r_buf r' = r_buf r @ s \<and> r_buflen r' = r_buflen r + length s"

lemma entries_cong:
  "r_field_count r' = r_field_count r \<Longrightarrow>
   (\<And>i. i < r_field_count r \<Longrightarrow> r_fields r' ! i = r_fields r ! i \<and> r_fieldflags r' ! i = r_fieldflags r ! i
          \<and> r_values r' ! i = r_values r ! i) \<Longrightarrow> entries r' = entries r"
  by (simp add: entries_def)

lemma kept_refl [simp]: "kept r r"
  by (simp add: kept_def same_frame_def)

lemma kept_trans: "kept r r' \<Longrightarrow> kept r' r'' \<Longrightarrow> kept r r''"
  by (simp add: kept_def same_frame_def)

lemma kept_put_field [simp]: "kept r (put_field f oper r)"
  by (auto simp: kept_def same_frame_def put_field_def intro!: entries_cong)

lemma kept_put_value [simp]: "kept r (put_value x r)"
  by (auto simp: kept_def same_frame_def put_value_def intro!: entries_cong)

lemma kept_extended: "kept r r' \<Longrightarrow> extended e s r' r'' \<Longrightarrow> extended e s r r''"
  by (simp add: kept_def extended_def same_frame_def)

lemma extended_commit:
  assumes "r_fields r ! r_field_count r = f" "r_fieldflags r ! r_field_count r = oper" "r_values r ! r_field_count r = x"
  shows "extended (f, oper, x) [] r (commit r)"
  using assms by (simp add: extended_def same_frame_def commit_def entries_def)

lemma extended_add_string:
  assumes "r_fields r ! r_field_count r = f" "r_fieldflags r ! r_field_count r = oper" "r_field_count r < length (r_values r)"
  shows "extended (f, oper, of_nat (length v)) v r (commit (add_string v r))"
  using assms by (auto simp: extended_def same_frame_def commit_def add_string_def put_value_def entries_def)

lemma rule_wf_kept: "rule_wf env r \<Longrightarrow> kept r r' \<Longrightarrow> rule_wf env r'"
  by (simp add: rule_wf_def kept_def same_frame_def)

lemma rule_wf_extended:
  assumes "rule_wf env r" "r_field_count r < re_MAX_FIELDS env - 1" "extended (f, Some oper, x) s r r'"
    and "if f \<in> set string_fields then x = of_nat (length s) \<and> length s < 2 ^ 32 else s = []"
  shows "rule_wf env r'"
proof -
  have "string_len (f, Some oper, x) = length s"
    using assms(4) by (auto simp: string_len_def unat_of_nat split: if_splits)
  with assms show ?thesis by (auto simp: rule_wf_def extended_def same_frame_def)
qed

lemma unpack_append:
  "sum_list (map string_len es) = length buf \<Longrightarrow> unpack (es @ es') (buf @ s) = unpack es buf @ unpack es' s"
proof (induction es arbitrary: buf)
  case (Cons e es)
  obtain f oper x where e: "e = (f, oper, x)" by (cases e)
  show ?case using Cons.prems Cons.IH [of "drop (unat x) buf"] Cons.IH [of buf] by (auto simp: e string_len_def)
qed simp

lemma rule_strings_kept: "kept r r' \<Longrightarrow> rule_strings r' = rule_strings r"
  by (simp add: rule_strings_def kept_def)

lemma rule_strings_extended:
  assumes "rule_wf env r" "extended (f, oper, x) s r r'"
    and "if f \<in> set string_fields then x = of_nat (length s) \<and> length s < 2 ^ 32 else s = []"
  shows "rule_strings r' = rule_strings r @ (if f \<in> set string_fields then [(f, s)] else [])"
proof -
  have "unpack (entries r @ [(f, oper, x)]) (r_buf r @ s) = unpack (entries r) (r_buf r) @ unpack [(f, oper, x)] s"
    using assms(1) by (intro unpack_append) (simp add: rule_wf_def)
  then show ?thesis using assms(2,3) by (auto simp: rule_strings_def extended_def unat_of_nat split: if_splits)
qed

section \<open>Field pairs extend the rule by one entry or leave it as it was\<close>

lemma put_slot_effect:
  assumes "put_slot res r = (err, r')" "r_fields r ! r_field_count r = f" "r_fieldflags r ! r_field_count r = oper"
    and "r_field_count r < length (r_values r)"
  shows "case err of None \<Rightarrow> \<exists>x. extended (f, oper, x) [] r r' | Some e \<Rightarrow> kept r r'"
proof -
  obtain e x where res: "res = (e, x)" by (cases res)
  define r1 where "r1 = (case x of Some y \<Rightarrow> put_value y r | None \<Rightarrow> r)"
  have k: "kept r r1" by (simp add: r1_def split: option.split)
  have "r_fields r1 ! r_field_count r1 = f" "r_fieldflags r1 ! r_field_count r1 = oper"
    using assms(2,3) by (simp_all add: r1_def put_value_def split: option.split)
  then have "extended (f, oper, r_values r1 ! r_field_count r1) [] r (commit r1)"
    by (intro kept_extended [OF k] extended_commit) simp_all
  with assms(1) k show ?thesis
    unfolding res put_slot_def prod.case r1_def [symmetric] Let_def by (auto split: option.splits)
qed

lemma string_checks_len:
  "string_checks env flags field oper v g = (None, g') \<Longrightarrow> length v \<le> re_PATH_MAX env"
  by (auto simp: string_checks_def Let_def split: if_splits)

lemma field_switch_effect:
  assumes sw: "field_switch env mem_ok flags f oper v g r = (err, g', rule')"
    and slot: "r_fields r ! r_field_count r = f" "r_fieldflags r ! r_field_count r = Some oper"
    and room: "r_field_count r < length (r_values r)"
  shows "case (err, rule') of
           (None, Some r') \<Rightarrow>
             if f \<in> set string_fields then extended (f, Some oper, of_nat (length v)) v r r' \<and> length v \<le> re_PATH_MAX env
             else \<exists>x. extended (f, Some oper, x) [] r r'
         | (Some e, Some r') \<Rightarrow> kept r r'
         | (Some e, None) \<Rightarrow> \<not> mem_ok \<and> e = No_memory \<and> f \<in> set string_fields
         | (None, None) \<Rightarrow> False"
proof (cases "f \<in> set string_fields")
  case True
  obtain e g1 where c: "string_checks env flags f oper v g = (e, g1)" by (cases "string_checks env flags f oper v g")
  show ?thesis
    using sw True extended_add_string [OF slot room, of v] string_checks_len [of env flags f oper v g g1]
    unfolding field_switch_def if_P [OF True] c prod.case by (auto split: option.splits if_splits)
next
  case False
  define q where "q = (if f = AUDIT_ARCH then arch_field env oper v g
     else if f = AUDIT_FSTYPE then fstype_field env flags oper v g else (plain_value env flags f oper v, g))"
  obtain e r1 where p: "put_slot (fst q) r = (e, r1)" by (cases "put_slot (fst q) r")
  from sw have "err = e" "rule' = Some r1"
    unfolding field_switch_def if_not_P [OF False] q_def [symmetric] by (simp_all add: case_prod_beta p)
  with put_slot_effect [OF p slot room] False show ?thesis by (auto split: option.splits)
qed

lemma fieldpair_effect:
  assumes "audit_rule_fieldpair_data env mem_ok g r pair flags = (err, g', rule')" "rule_wf env r"
  shows "case (err, rule') of
           (None, Some r') \<Rightarrow> \<exists>p oper name v x. pair = Some p \<and> split_op fieldpair_ops p = Some (oper, name, v)
             \<and> r_field_count r < re_MAX_FIELDS env - 1
             \<and> (let f = re_field env (audit_name_to_field (re_tables env) name);
                     s = (if f \<in> set string_fields then v else []) in
                extended (f, Some oper, x) s r r' \<and> (f \<in> set string_fields \<longrightarrow> x = of_nat (length v) \<and> length v \<le> re_PATH_MAX env))
         | (Some e, Some r') \<Rightarrow> kept r r'
         | (Some e, None) \<Rightarrow> \<not> mem_ok \<and> e = No_memory
         | (None, None) \<Rightarrow> False"
proof (cases "\<exists>p oper name v. pair = Some p \<and> r_field_count r < re_MAX_FIELDS env - 1
    \<and> split_op fieldpair_ops p = Some (oper, name, v) \<and> name \<noteq> [] \<and> v \<noteq> []
    \<and> audit_name_to_field (re_tables env) name \<ge> 0
    \<and> filter_error env flags (re_field env (audit_name_to_field (re_tables env) name)) = None")
  case True
  then obtain p oper name v where p: "pair = Some p" "r_field_count r < re_MAX_FIELDS env - 1"
    "split_op fieldpair_ops p = Some (oper, name, v)" "name \<noteq> []" "v \<noteq> []"
    "audit_name_to_field (re_tables env) name \<ge> 0"
    "filter_error env flags (re_field env (audit_name_to_field (re_tables env) name)) = None"
    by (elim exE conjE) rule
  define f where "f = re_field env (audit_name_to_field (re_tables env) name)"
  have sw: "field_switch env mem_ok flags f oper v g (put_field f oper r) = (err, g', rule')"
    using assms(1) p by (simp add: audit_rule_fieldpair_data_def f_def Let_def)
  have slot: "r_fields (put_field f oper r) ! r_field_count (put_field f oper r) = f"
    "r_fieldflags (put_field f oper r) ! r_field_count (put_field f oper r) = Some oper"
    "r_field_count (put_field f oper r) < length (r_values (put_field f oper r))"
    using assms(2) by (simp_all add: put_field_def rule_wf_def)
  note eff = field_switch_effect [OF sw slot]
  show ?thesis
  proof (cases rule')
    case None
    with eff show ?thesis by (auto split: option.splits)
  next
    case (Some r')
    show ?thesis
    proof (cases err)
      case None
      with eff Some kept_extended [OF kept_put_field] have
        "\<exists>x. extended (f, Some oper, x) (if f \<in> set string_fields then v else []) r r'
             \<and> (f \<in> set string_fields \<longrightarrow> x = of_nat (length v) \<and> length v \<le> re_PATH_MAX env)"
        by (fastforce split: if_splits)
      with None Some p show ?thesis by (simp add: f_def [symmetric] Let_def)
    next
      case (Some e)
      with eff \<open>rule' = Some r'\<close> kept_trans [OF kept_put_field] show ?thesis by simp
    qed
  qed
next
  case False
  then have "rule' = Some r \<and> err \<noteq> None"
    using assms(1) by (auto simp: audit_rule_fieldpair_data_def Let_def not_less split: option.splits if_splits prod.splits)
      (metis option.distinct(1))?
  then show ?thesis by auto
qed

lemma fieldpair_wf:
  assumes "audit_rule_fieldpair_data env mem_ok g r pair flags = (err, g', Some r')" "rule_wf env r" "env_ok env"
  shows "rule_wf env r'"
proof (cases err)
  case None
  from fieldpair_effect [OF assms(1,2), unfolded None prod.case option.case] obtain oper f s x where
    "r_field_count r < re_MAX_FIELDS env - 1" "extended (f, Some oper, x) s r r'"
    "if f \<in> set string_fields then x = of_nat (length s) \<and> length s \<le> re_PATH_MAX env else s = []"
    unfolding Let_def by (elim exE conjE) simp
  with assms(2,3) show ?thesis
    by (intro rule_wf_extended [of env r f oper x s r']) (auto simp: env_ok_def split: if_splits)
next
  case (Some e)
  with fieldpair_effect [OF assms(1,2)] assms(2) show ?thesis by (auto intro: rule_wf_kept)
qed

section \<open>Comparisons between fields\<close>

lemma field_compare_not_string [simp]: "AUDIT_FIELD_COMPARE \<notin> set string_fields" "AUDIT_PERM \<notin> set string_fields"
  by (simp_all add: string_fields_def exit_string_fields_def)

lemma interfield_effect:
  assumes "audit_rule_interfield_comp_data env r pair flags = (err, r')" "rule_wf env r"
  shows "case err of
           None \<Rightarrow> \<exists>p oper n1 n2 c. pair = Some p \<and> split_op comp_ops p = Some (oper, n1, n2)
             \<and> r_field_count r < re_MAX_FIELDS env - 1 \<and> flags = AUDIT_FILTER_EXIT
             \<and> compare_code (re_field env (audit_name_to_field (re_tables env) n1))
                   (re_field env (audit_name_to_field (re_tables env) n2)) = Some c
             \<and> extended (AUDIT_FIELD_COMPARE, Some oper, c) [] r r'
         | Some e \<Rightarrow> kept r r'"
proof -
  have ext: "extended (AUDIT_FIELD_COMPARE, Some oper, c) [] r (commit (put_value c (put_field AUDIT_FIELD_COMPARE oper r)))" for oper c
    by (rule kept_extended [OF kept_trans [OF kept_put_field kept_put_value]], rule extended_commit)
      (use assms(2) in \<open>simp_all add: put_field_def put_value_def rule_wf_def\<close>)
  show ?thesis
    using assms(1) ext by (auto simp: audit_rule_interfield_comp_data_def Let_def not_le split: option.splits if_splits prod.splits)
qed

lemma interfield_wf:
  assumes "audit_rule_interfield_comp_data env r pair flags = (err, r')" "rule_wf env r"
  shows "rule_wf env r'"
proof (cases err)
  case None
  with interfield_effect [OF assms] assms(2) show ?thesis by (auto intro!: rule_wf_extended [of env r AUDIT_FIELD_COMPARE])
next
  case (Some e)
  with interfield_effect [OF assms] assms(2) show ?thesis by (auto intro: rule_wf_kept)
qed

section \<open>The mask of system calls\<close>

definition mask_bit :: "audit_rule \<Rightarrow> nat \<Rightarrow> bool" where
  "mask_bit r n = bit (r_mask r ! (n div 32)) (n mod 32)"

lemma bit_or_push:
  "k < 32 \<Longrightarrow> j < 32 \<Longrightarrow> bit ((x :: u32) OR 2 ^ k) j = (bit x j \<or> j = k)"
  by (auto simp: bit_or_iff bit_exp_iff)

lemma syscall_data_frame:
  "audit_rule_syscall_data env r n = Some (ret, r') \<Longrightarrow> \<exists>m. r' = r\<lparr>r_mask := m\<rparr> \<and> length m = length (r_mask r)"
  by (auto simp: audit_rule_syscall_data_def Let_def split: if_splits intro: exI [of _ "r_mask r"])

lemma rule_wf_mask: "rule_wf env r \<Longrightarrow> length m = length (r_mask r) \<Longrightarrow> rule_wf env (r\<lparr>r_mask := m\<rparr>)"
  by (simp add: rule_wf_def entries_def)

lemma syscallbyname_frame:
  "audit_rule_syscallbyname_data env g r s = Some (ret, r') \<Longrightarrow> \<exists>m. r' = r\<lparr>r_mask := m\<rparr> \<and> length m = length (r_mask r)"
  by (auto simp: audit_rule_syscallbyname_data_def Let_def split: if_splits
      intro: exI [of _ "r_mask r"] syscall_data_frame)

section \<open>Watches\<close>

lemma entries_perms:
  assumes "rule_wf env r" "r' = r\<lparr>r_values := map (\<lambda>i. if i < r_field_count r \<and> r_fields r ! i = AUDIT_PERM then perms
      else r_values r ! i) [0..<length (r_values r)]\<rparr>"
  shows "entries r' = map (\<lambda>(f, oper, x). (f, oper, if f = AUDIT_PERM then perms else x)) (entries r)"
  using assms by (auto simp: entries_def rule_wf_def)

lemma string_len_perms:
  "string_len (case e of (f, oper, x) \<Rightarrow> (f, oper, if f = AUDIT_PERM then perms else x)) = string_len e"
  by (cases e) (auto simp: string_len_def)

lemma update_watch_perms_wf:
  assumes "audit_update_watch_perms env r perms = (ret, r')" "rule_wf env r"
  shows "rule_wf env r'"
proof -
  define r1 where "r1 = r\<lparr>r_values := map (\<lambda>i. if i < r_field_count r \<and> r_fields r ! i = AUDIT_PERM then perms
      else r_values r ! i) [0..<length (r_values r)]\<rparr>"
  have wf1: "rule_wf env r1"
    using assms(2) entries_perms [OF assms(2) r1_def]
    by (auto simp: rule_wf_def r1_def comp_def string_len_perms)
  define r2 where "r2 = commit (put_value perms (put_field AUDIT_PERM AUDIT_EQUAL r))"
  have "extended (AUDIT_PERM, Some AUDIT_EQUAL, perms) [] r r2"
    unfolding r2_def
    by (rule kept_extended [OF kept_trans [OF kept_put_field kept_put_value]], rule extended_commit)
      (use assms(2) in \<open>simp_all add: put_field_def put_value_def rule_wf_def\<close>)
  then have wf2: "r_field_count r < re_MAX_FIELDS env - 1 \<Longrightarrow> rule_wf env r2"
    using rule_wf_extended [OF assms(2), of AUDIT_PERM AUDIT_EQUAL perms "[]" r2] by simp
  from assms(1) have "r' = r \<or> r' = r1 \<or> r' = r2 \<and> r_field_count r < re_MAX_FIELDS env - 1"
    unfolding audit_update_watch_perms_def Let_def r1_def r2_def
    by (auto simp: commit_def put_value_def put_field_def not_le split: if_splits)
  with assms(2) wf1 wf2 show ?thesis by blast
qed

lemma add_watch_dir_result:
  assumes "audit_add_watch_dir env mem_ok type g rule path = (ret, g', rule')" "env_ok env" "length path < 2 ^ 32"
  shows "if ret = 0 then \<exists>r'. rule' = Some r' \<and> rule_wf env r' \<and> rule_strings r' = [(type, path)]
         else rule' = rule \<or> \<not> mem_ok \<and> rule' = None"
proof (cases "ret = 0")
  case True
  with assms(1) have ty: "type = AUDIT_WATCH \<or> type = AUDIT_DIR" and r': "\<exists>r'. rule' = Some r'
      \<and> r_fields r' = (replicate (re_MAX_FIELDS env) AUDIT_PID)[0 := type, 1 := AUDIT_PERM]
      \<and> r_fieldflags r' = (replicate (re_MAX_FIELDS env) None)[0 := Some AUDIT_EQUAL, 1 := Some AUDIT_EQUAL]
      \<and> (\<exists>y. r_values r' = (replicate (re_MAX_FIELDS env) 0)[0 := of_nat (length path), 1 := y])
      \<and> length (r_mask r') = re_BITMASK_SIZE env \<and> r_field_count r' = 2 \<and> r_buf r' = path \<and> r_buflen r' = length path"
    using assms(3) by (auto simp: audit_add_watch_dir_def audit_rule_init_data_def Let_def split: if_splits)
  from r' obtain r1 y where r1: "rule' = Some r1"
      "r_fields r1 = (replicate (re_MAX_FIELDS env) AUDIT_PID)[0 := type, 1 := AUDIT_PERM]"
      "r_fieldflags r1 = (replicate (re_MAX_FIELDS env) None)[0 := Some AUDIT_EQUAL, 1 := Some AUDIT_EQUAL]"
      "r_values r1 = (replicate (re_MAX_FIELDS env) 0)[0 := of_nat (length path), 1 := y]"
      "length (r_mask r1) = re_BITMASK_SIZE env" "r_field_count r1 = 2" "r_buf r1 = path" "r_buflen r1 = length path"
    by (elim exE conjE) rule
  have es: "entries r1 = [(type, Some AUDIT_EQUAL, of_nat (length path)), (AUDIT_PERM, Some AUDIT_EQUAL, y)]"
    using assms(2) by (simp add: entries_def r1 env_ok_def upt_rec numeral_2_eq_2)
  have ts: "type \<in> set string_fields" using ty by (auto simp: string_fields_def exit_string_fields_def)
  have "rule_wf env r1"
    using assms(2,3) ts by (simp add: rule_wf_def es string_len_def r1 env_ok_def unat_of_nat)
  moreover have "rule_strings r1 = [(type, path)]"
    using assms(3) ts by (simp add: rule_strings_def es r1 unat_of_nat)
  ultimately show ?thesis using True r1(1) by simp
next
  case False
  with assms(1) show ?thesis by (auto simp: audit_add_watch_dir_def Let_def split: if_splits)
qed

lemma init_wf: "env_ok env \<Longrightarrow> rule_wf env (audit_rule_init_data env)"
  by (auto simp: rule_wf_def audit_rule_init_data_def env_ok_def entries_def)

section \<open>Properties\<close>

definition sample_field :: "int \<Rightarrow> rule_field" where
  "sample_field n = (if n = 1 then AUDIT_UID else if n = 2 then AUDIT_EUID else if n = 25 then AUDIT_SESSIONID
     else if n = 105 then AUDIT_WATCH else if n = 106 then AUDIT_PERM else if n = 210 then AUDIT_FILTERKEY else Other_field n)"

definition sample_rule_tables :: gen_tables where
  "sample_rule_tables = sample_tables\<lparr>field_s2i := (\<lambda>s. if s = ''uid'' then Some 1 else if s = ''euid'' then Some 2
     else if s = ''sessionid'' then Some 25 else if s = ''path'' then Some 105 else if s = ''perm'' then Some 106
     else if s = ''key'' then Some 210 else None)\<rparr>"

definition sample_rule_env :: rule_env where
  "sample_rule_env = \<lparr>re_tables = sample_rule_tables, re_field = sample_field, re_MAX_FIELDS = 8, re_BITMASK_SIZE = 4,
     re_MAX_KEY_LEN = 32, re_PATH_MAX = 64, re_AF_MAX = 45, re_PERM_EXEC = 1, re_PERM_WRITE = 2, re_PERM_READ = 4,
     re_PERM_ATTR = 8, re_getpwnam = (\<lambda>s. if s = ''root'' then Some 0 else None), re_getgrnam = (\<lambda>_. None),
     re_uname = Some ''x86_64'', re_features = 0x7F\<rparr>"

definition no_globals :: rule_globals where
  "no_globals = \<lparr>g_permadded = False, g_archadded = False, g_syscalladded = False, g_exeadded = False,
     g_filterfsadded = False, g_elf = 0\<rparr>"

lemma sample_env_ok: "env_ok sample_rule_env"
  by (simp add: env_ok_def sample_rule_env_def)



text \<open>The pairs of a rule one after another, as long as there is no error.\<close>

fun run_pairs :: "rule_env \<Rightarrow> rule_filter \<Rightarrow> rule_globals \<Rightarrow> audit_rule \<Rightarrow> string list \<Rightarrow> (rule_globals \<times> audit_rule) option" where
  "run_pairs env flags g r [] = Some (g, r)"
| "run_pairs env flags g r (p # ps) =
     (case audit_rule_fieldpair_data env True g r (Some p) flags of
        (None, g', Some r') \<Rightarrow> run_pairs env flags g' r' ps
      | _ \<Rightarrow> None)"

text \<open>What the text of a pair says: the field with its operator, and the string if it has one.\<close>

definition pair_head :: "rule_env \<Rightarrow> string \<Rightarrow> rule_field \<times> rule_op option" where
  "pair_head env p = (case split_op fieldpair_ops p of
     Some (oper, name, _) \<Rightarrow> (re_field env (audit_name_to_field (re_tables env) name), Some oper) | None \<Rightarrow> (AUDIT_PID, None))"

definition pair_strings :: "rule_env \<Rightarrow> string \<Rightarrow> (rule_field \<times> string) list" where
  "pair_strings env p = (case split_op fieldpair_ops p of
     Some (oper, name, v) \<Rightarrow> (let f = fst (pair_head env p) in if f \<in> set string_fields then [(f, v)] else []) | None \<Rightarrow> [])"

lemma fieldpair_step:
  assumes "audit_rule_fieldpair_data env True g r (Some p) flags = (None, g', Some r')" "rule_wf env r" "env_ok env"
  shows "rule_strings r' = rule_strings r @ pair_strings env p
    \<and> map (\<lambda>(f, oper, x). (f, oper)) (entries r') = map (\<lambda>(f, oper, x). (f, oper)) (entries r) @ [pair_head env p]
    \<and> r_mask r' = r_mask r"
proof -
  from fieldpair_effect [OF assms(1,2), unfolded prod.case option.case] obtain oper name v f s x where p:
    "split_op fieldpair_ops p = Some (oper, name, v)" "f = re_field env (audit_name_to_field (re_tables env) name)"
    "s = (if f \<in> set string_fields then v else [])" "extended (f, Some oper, x) s r r'"
    "f \<in> set string_fields \<longrightarrow> x = of_nat (length v) \<and> length v \<le> re_PATH_MAX env"
    unfolding Let_def by (elim exE conjE) simp
  have "rule_strings r' = rule_strings r @ (if f \<in> set string_fields then [(f, s)] else [])"
    using assms(3) p by (intro rule_strings_extended [OF assms(2) p(4)]) (auto simp: env_ok_def)
  with p show ?thesis by (simp add: pair_strings_def pair_head_def extended_def same_frame_def)
qed

text \<open>C4: Packing the strings of a rule into one buffer can be undone: when the pairs of a rule are
  accepted one after another, the fields and operators of the rule are those of the pairs in order,
  and cutting the buffer by the lengths in the string fields, as the kernel does, gives the string
  of every pair unchanged.\<close>

theorem audit_rule_strings_roundtrip:
  assumes "env_ok env" "rule_wf env r" "run_pairs env flags g r ps = Some (g', r')"
  shows "rule_strings r' = rule_strings r @ concat (map (pair_strings env) ps)
    \<and> map (\<lambda>(f, oper, x). (f, oper)) (entries r') = map (\<lambda>(f, oper, x). (f, oper)) (entries r) @ map (pair_head env) ps
    \<and> r_mask r' = r_mask r"
  using assms(2,3)
proof (induction ps arbitrary: g r)
  case (Cons p ps)
  from Cons.prems(2) obtain g1 r1 where step: "audit_rule_fieldpair_data env True g r (Some p) flags = (None, g1, Some r1)"
    and rest: "run_pairs env flags g1 r1 ps = Some (g', r')"
    by (auto split: prod.splits option.splits)
  show ?case
    using Cons.IH [OF fieldpair_wf [OF step Cons.prems(1) assms(1)] rest] fieldpair_step [OF step Cons.prems(1) assms(1)] by simp
qed simp

lemma sample_pair: "split_op fieldpair_ops ''path=/etc'' = Some (AUDIT_EQUAL, ''path'', ''/etc'')"
  "split_op fieldpair_ops ''perm=wa'' = Some (AUDIT_EQUAL, ''perm'', ''wa'')"
  "split_op fieldpair_ops ''key=k1'' = Some (AUDIT_EQUAL, ''key'', ''k1'')"
  "split_op fieldpair_ops ''sessionid=abc'' = Some (AUDIT_EQUAL, ''sessionid'', ''abc'')"
  by (simp_all add: fieldpair_ops_def)

theorem audit_rule_strings_roundtrip_witness:
  "\<exists>g r. run_pairs sample_rule_env AUDIT_FILTER_EXIT no_globals (audit_rule_init_data sample_rule_env)
        [''path=/etc'', ''perm=wa'', ''key=k1''] = Some (g, r)
     \<and> r_buf r = ''/etck1'' \<and> rule_strings r = [(AUDIT_WATCH, ''/etc''), (AUDIT_FILTERKEY, ''k1'')]"
proof -
  have "map_option (\<lambda>(g, r). r_buf r) (run_pairs sample_rule_env AUDIT_FILTER_EXIT no_globals
      (audit_rule_init_data sample_rule_env) [''path=/etc'', ''perm=wa'', ''key=k1'']) = Some ''/etck1''"
    by code_simp
  then obtain g r where r: "run_pairs sample_rule_env AUDIT_FILTER_EXIT no_globals (audit_rule_init_data sample_rule_env)
        [''path=/etc'', ''perm=wa'', ''key=k1''] = Some (g, r)" "r_buf r = ''/etck1''" by auto
  have "rule_strings (audit_rule_init_data sample_rule_env) = []"
    by (simp add: rule_strings_def entries_def audit_rule_init_data_def)
  with audit_rule_strings_roundtrip [OF sample_env_ok init_wf [OF sample_env_ok] r(1)] have
    "rule_strings r = [(AUDIT_WATCH, ''/etc''), (AUDIT_FILTERKEY, ''k1'')]"
    by (simp add: pair_strings_def pair_head_def sample_pair sample_rule_env_def sample_rule_tables_def sample_tables_def
        sample_field_def audit_name_to_field_def found_or_minus1_def string_fields_def exit_string_fields_def)
  with r show ?thesis by blast
qed

text \<open>C37: Adding a system call to the mask: a number that fits sets exactly its own bit and keeps every
  other bit, a number behind the end of the mask is refused and changes nothing; a negative number
  has no defined behaviour.\<close>

theorem audit_rule_syscall_mask:
  assumes "rule_wf env r" "env_ok env"
  shows "case audit_rule_syscall_data env r n of
           None \<Rightarrow> n < 0
         | Some (ret, r') \<Rightarrow> 0 \<le> n
             \<and> (if nat n < 32 * re_BITMASK_SIZE env
                then ret = 0 \<and> (\<forall>k < 32 * re_BITMASK_SIZE env. mask_bit r' k = (mask_bit r k \<or> k = nat n))
                else ret = - 1 \<and> r' = r)"
proof (cases "n < 0")
  case False
  define w where "w = nat n div 32"
  define j where "j = nat n mod 32"
  have n: "nat n = 32 * w + j" "j < 32" by (simp_all add: w_def j_def)
  have B: "0 < re_BITMASK_SIZE env" "length (r_mask r) = re_BITMASK_SIZE env"
    using assms by (simp_all add: env_ok_def rule_wf_def)
  show ?thesis
  proof (cases "w < re_BITMASK_SIZE env")
    case True
    have "mask_bit (r\<lparr>r_mask := (r_mask r)[w := (r_mask r ! w) OR push_bit j 1]\<rparr>) k = (mask_bit r k \<or> k = nat n)"
      if "k < 32 * re_BITMASK_SIZE env" for k
    proof (cases "k div 32 = w")
      case True
      then have "k = nat n \<longleftrightarrow> k mod 32 = j" using n by (metis mult_div_mod_eq mod_less mod_mult_self4 add.commute)
      with True \<open>w < _\<close> B n(2) show ?thesis by (simp add: mask_bit_def bit_or_push [of j "k mod 32"])
    next
      case False
      then have "k \<noteq> nat n" by (auto simp: w_def)
      with False show ?thesis by (simp add: mask_bit_def)
    qed
    with False True n B show ?thesis
      by (simp add: audit_rule_syscall_data_def Let_def w_def [symmetric] j_def [symmetric])
  next
    case False
    with \<open>\<not> n < 0\<close> n B show ?thesis
      by (simp add: audit_rule_syscall_data_def Let_def w_def [symmetric])
  qed
qed (simp add: audit_rule_syscall_data_def)

theorem audit_rule_syscall_mask_witness:
  "\<exists>r'. audit_rule_syscall_data sample_rule_env (audit_rule_init_data sample_rule_env) 59 = Some (0, r')
     \<and> mask_bit r' 59 \<and> \<not> mask_bit r' 60"
proof -
  obtain ret r' where e: "audit_rule_syscall_data sample_rule_env (audit_rule_init_data sample_rule_env) 59 = Some (ret, r')"
    by (simp add: audit_rule_syscall_data_def Let_def sample_rule_env_def)
  have "\<not> mask_bit (audit_rule_init_data sample_rule_env) 60"
    by (simp add: mask_bit_def audit_rule_init_data_def sample_rule_env_def)
  with audit_rule_syscall_mask [OF init_wf [OF sample_env_ok] sample_env_ok, of 59] e show ?thesis
    by (simp add: sample_rule_env_def)
qed

lemma comparisons_distinct: "distinct (map fst (uid_comparisons @ gid_comparisons))"
  by code_simp

lemma comparisons_closed:
  "\<forall>((a, b), c) \<in> set (uid_comparisons @ gid_comparisons).
     ((b, a), c) \<in> set (uid_comparisons @ gid_comparisons) \<and> a \<noteq> b"
  by code_simp

lemma comparisons_unique:
  "\<forall>((a, b), c) \<in> set (uid_comparisons @ gid_comparisons).
     filter (\<lambda>((a', b'), c'). c' = c) (uid_comparisons @ gid_comparisons)
       \<in> {[((a, b), c), ((b, a), c)], [((b, a), c), ((a, b), c)]}"
  by code_simp

lemma compare_code_iff: "compare_code f1 f2 = Some c \<longleftrightarrow> ((f1, f2), c) \<in> set (uid_comparisons @ gid_comparisons)"
  unfolding compare_code_def by (rule map_of_eq_Some_iff [OF comparisons_distinct])

lemma compare_code_flip:
  assumes "compare_code a b = Some c"
  shows "compare_code b a = Some c" "a \<noteq> b"
proof -
  note c = bspec [OF comparisons_closed assms [unfolded compare_code_iff], unfolded prod.case]
  show "compare_code b a = Some c" unfolding compare_code_iff by (rule conjunct1 [OF c])
  show "a \<noteq> b" by (rule conjunct2 [OF c])
qed

lemma compare_code_sym: "compare_code f1 f2 = compare_code f2 f1"
proof (cases "compare_code f1 f2")
  case None
  have "compare_code f2 f1 \<noteq> Some c" for c
    using compare_code_flip(1) [of f2 f1 c] None by (metis option.distinct(1))
  then show ?thesis unfolding None by (metis not_Some_eq)
next
  case (Some c)
  show ?thesis unfolding compare_code_flip(1) [OF Some] by (rule Some)
qed

lemma compare_code_fields:
  assumes "compare_code f1 f2 = Some c" "compare_code f3 f4 = Some c"
  shows "f1 \<noteq> f2" "{f3, f4} = {f1, f2}"
proof -
  from assms have m: "((f1, f2), c) \<in> set (uid_comparisons @ gid_comparisons)" "((f3, f4), c) \<in> set (uid_comparisons @ gid_comparisons)"
    by (simp_all only: compare_code_iff)
  show "f1 \<noteq> f2" by (rule compare_code_flip(2) [OF assms(1)])
  define sel where "sel = filter (\<lambda>((a', b'), c'). c' = c) (uid_comparisons @ gid_comparisons)"
  from m(2) have "((f3, f4), c) \<in> set sel"
    unfolding sel_def by (simp only: set_filter mem_Collect_eq prod.case simp_thms)
  moreover from bspec [OF comparisons_unique m(1), unfolded prod.case, folded sel_def]
  have "sel = [((f1, f2), c), ((f2, f1), c)] \<or> sel = [((f2, f1), c), ((f1, f2), c)]" by (simp only: insert_iff empty_iff simp_thms)
  ultimately show "{f3, f4} = {f1, f2}" by (elim disjE) auto
qed

text \<open>C38: Comparisons between two fields do not depend on the order in which the fields are written, a
  field is never compared with itself, and the number that is sent to the kernel determines the two
  fields.\<close>

theorem audit_rule_interfield_symmetric:
  assumes "split_op comp_ops p = Some (oper, a, b)" "split_op comp_ops q = Some (oper, b, a)"
    and "audit_rule_interfield_comp_data env r (Some p) flags = (None, r')"
  shows "audit_rule_interfield_comp_data env r (Some q) flags = (None, r')
    \<and> (let f1 = re_field env (audit_name_to_field (re_tables env) a);
            f2 = re_field env (audit_name_to_field (re_tables env) b) in
       f1 \<noteq> f2 \<and> (\<forall>f3 f4. compare_code f3 f4 = compare_code f1 f2 \<longrightarrow> {f3, f4} = {f1, f2}))"
proof
  define f1 where "f1 = re_field env (audit_name_to_field (re_tables env) a)"
  define f2 where "f2 = re_field env (audit_name_to_field (re_tables env) b)"
  obtain c where c: "compare_code f1 f2 = Some c"
    using assms(1,3) by (auto simp: audit_rule_interfield_comp_data_def f1_def f2_def Let_def split: if_splits option.splits)
  have c': "compare_code f2 f1 = Some c" by (rule compare_code_flip(1) [OF c])
  from assms c c' show "audit_rule_interfield_comp_data env r (Some q) flags = (None, r')"
    by (simp add: audit_rule_interfield_comp_data_def Let_def f1_def f2_def split: if_splits)
  have "f1 \<noteq> f2" by (rule compare_code_fields(1) [OF c c])
  moreover have "{f3, f4} = {f1, f2}" if "compare_code f3 f4 = compare_code f1 f2" for f3 f4
    by (rule compare_code_fields(2) [OF c trans [OF that c]])
  ultimately show "let f1 = re_field env (audit_name_to_field (re_tables env) a);
      f2 = re_field env (audit_name_to_field (re_tables env) b) in
      f1 \<noteq> f2 \<and> (\<forall>f3 f4. compare_code f3 f4 = compare_code f1 f2 \<longrightarrow> {f3, f4} = {f1, f2})"
    unfolding Let_def f1_def [symmetric] f2_def [symmetric] by blast
qed

theorem audit_rule_interfield_symmetric_witness:
  "\<exists>r'. audit_rule_interfield_comp_data sample_rule_env (audit_rule_init_data sample_rule_env) (Some ''uid!=euid'') AUDIT_FILTER_EXIT = (None, r')
     \<and> audit_rule_interfield_comp_data sample_rule_env (audit_rule_init_data sample_rule_env) (Some ''euid!=uid'') AUDIT_FILTER_EXIT = (None, r')"
proof -
  have sp: "split_op comp_ops ''uid!=euid'' = Some (AUDIT_NOT_EQUAL, ''uid'', ''euid'')"
    "split_op comp_ops ''euid!=uid'' = Some (AUDIT_NOT_EQUAL, ''euid'', ''uid'')"
    by (simp_all add: comp_ops_def)
  have "fst (audit_rule_interfield_comp_data sample_rule_env (audit_rule_init_data sample_rule_env) (Some ''uid!=euid'') AUDIT_FILTER_EXIT) = None"
    by code_simp
  then obtain r' where r': "audit_rule_interfield_comp_data sample_rule_env (audit_rule_init_data sample_rule_env)
      (Some ''uid!=euid'') AUDIT_FILTER_EXIT = (None, r')"
    by (metis prod.collapse)
  with audit_rule_interfield_symmetric [OF sp r'] show ?thesis by blast
qed

section \<open>Machines\<close>

lemma determine_machine_nonneg:
  assumes "0 \<le> audit_determine_machine env arch"
  obtains bits machine where "requested_machine env arch = Some (bits, machine)" "0 \<le> machine"
    "audit_determine_machine env arch = fixup_machine bits machine"
    "bits_allowed (re_tables env) bits (fixup_machine bits machine)"
proof -
  from assms have "\<exists>bits machine. requested_machine env arch = Some (bits, machine) \<and> 0 \<le> machine
    \<and> audit_determine_machine env arch = fixup_machine bits machine \<and> bits_allowed (re_tables env) bits (fixup_machine bits machine)"
    by (auto simp: audit_determine_machine_def Let_def split: option.splits if_splits)
  with that show ?thesis by blast
qed

lemma strcaseeq_b32_b64: "strcaseeq ''b32'' arch \<Longrightarrow> \<not> strcaseeq ''b64'' arch"
proof -
  have "map to_lower ''b32'' \<noteq> map to_lower ''b64''" by (simp add: to_lower_def)
  then show "strcaseeq ''b32'' arch \<Longrightarrow> \<not> strcaseeq ''b64'' arch" unfolding strcaseeq_def by metis
qed

lemma machine_to_elf_neg: "m < 0 \<Longrightarrow> audit_machine_to_elf T m = 0"
proof -
  have "elf_search m tab = 0" if "m \<notin> fst ` set tab" for tab
    using that by (induction m tab rule: elf_search.induct) auto
  then show "m < 0 \<Longrightarrow> audit_machine_to_elf T m = 0" by (auto simp: audit_machine_to_elf_def elftab_def MACH_defs)
qed

lemma bits_allowed_32:
  "bits_allowed T Bits_32 (fixup_machine Bits_32 m) \<Longrightarrow> fixup_machine Bits_32 m \<in> {MACH_X86, MACH_PPC, MACH_S390, MACH_ARM}"
  by (simp add: bits_allowed_def fixup_machine_def MACH_defs split: if_splits)

lemma bits_allowed_64:
  "bits_allowed T Bits_64 m \<Longrightarrow> m \<in> {MACH_86_64, MACH_PPC64, MACH_S390X, MACH_AARCH64, MACH_PPC64LE}"
  by (auto simp: bits_allowed_def MACH_defs split: if_splits)

lemma determine_machine_neg: "audit_determine_machine env arch < 0 \<Longrightarrow> audit_determine_machine env arch \<in> {- 4, - 6}"
  by (auto simp: audit_determine_machine_def Let_def bits_allowed_def MACH_defs split: option.splits if_splits)

text \<open>An \<open>arch\<close> of \<open>b32\<close> or \<open>b64\<close>, in any case of letters, is resolved to a machine of that word
  size or refused; the refusals of the two kinds both reach the caller as the error for an unknown
  ELF architecture, and no pair is accepted with a machine that the tables do not have.\<close>

theorem audit_determine_machine_bits:
  "let m = audit_determine_machine env arch in
      (strcaseeq ''b32'' arch \<longrightarrow> m \<in> {- 4, - 6, MACH_X86, MACH_PPC, MACH_S390, MACH_ARM})
    \<and> (strcaseeq ''b64'' arch \<longrightarrow> m \<in> {- 4, - 6, MACH_86_64, MACH_PPC64, MACH_S390X, MACH_AARCH64, MACH_PPC64LE})
    \<and> (m < 0 \<longrightarrow> \<not> isdigit (peek arch) \<longrightarrow> \<not> g_syscalladded g \<longrightarrow> eq_or_ne oper \<longrightarrow>
         arch_field env oper arch g = ((Some EAU_ELFUNKNOWN, None), g))"
proof -
  define m where "m = audit_determine_machine env arch"
  have b32: "m \<in> {MACH_X86, MACH_PPC, MACH_S390, MACH_ARM}" if "strcaseeq ''b32'' arch" "0 \<le> m"
    using that(2) unfolding m_def
  proof (rule determine_machine_nonneg)
    fix bits machine
    assume r: "requested_machine env arch = Some (bits, machine)" "audit_determine_machine env arch = fixup_machine bits machine"
      and ok: "bits_allowed (re_tables env) bits (fixup_machine bits machine)"
    from r(1) that(1) strcaseeq_b32_b64 [OF that(1)] have "bits = Bits_32" by (simp add: requested_machine_def)
    with ok r(2) bits_allowed_32 [of "re_tables env" machine]
    show "audit_determine_machine env arch \<in> {MACH_X86, MACH_PPC, MACH_S390, MACH_ARM}" by simp
  qed
  have b64: "m \<in> {MACH_86_64, MACH_PPC64, MACH_S390X, MACH_AARCH64, MACH_PPC64LE}" if "strcaseeq ''b64'' arch" "0 \<le> m"
    using that(2) unfolding m_def
  proof (rule determine_machine_nonneg)
    fix bits machine
    assume r: "requested_machine env arch = Some (bits, machine)" "audit_determine_machine env arch = fixup_machine bits machine"
      and ok: "bits_allowed (re_tables env) bits (fixup_machine bits machine)"
    from r(1) that(1) have "bits = Bits_64" by (simp add: requested_machine_def)
    with ok r(2) bits_allowed_64 [of "re_tables env" m] m_def
    show "audit_determine_machine env arch \<in> {MACH_86_64, MACH_PPC64, MACH_S390X, MACH_AARCH64, MACH_PPC64LE}" by simp
  qed
  have err: "arch_field env oper arch g = ((Some EAU_ELFUNKNOWN, None), g)"
    if "m < 0" "\<not> isdigit (peek arch)" "\<not> g_syscalladded g" "eq_or_ne oper"
    using that machine_to_elf_neg [OF that(1)] by (simp add: arch_field_def m_def)
  show ?thesis
    unfolding Let_def m_def [symmetric]
    using b32 [OF _ leI] b64 [OF _ leI] err determine_machine_neg [of env arch, folded m_def] by (cases "m < 0") blast+
qed

theorem audit_determine_machine_bits_witness:
  "audit_determine_machine sample_rule_env ''B32'' = - 4
   \<and> arch_field sample_rule_env AUDIT_EQUAL ''B32'' no_globals = ((Some EAU_ELFUNKNOWN, None), no_globals)"
proof -
  have m: "audit_determine_machine sample_rule_env ''B32'' = - 4"
    by code_simp
  have "\<not> isdigit (peek ''B32'') \<and> \<not> g_syscalladded no_globals \<and> eq_or_ne AUDIT_EQUAL"
    by (simp add: isdigit_def no_globals_def eq_or_ne_def)
  with audit_determine_machine_bits [of sample_rule_env "''B32''" no_globals AUDIT_EQUAL] m show ?thesis
    by (simp add: Let_def)
qed

text \<open>C39: A session id that is neither a number nor \<open>unset\<close> is accepted without an error: the rule gets a
  \<open>sessionid\<close> entry whose value is whatever an earlier call left in the slot.\<close>

theorem sessionid_garbage_accepted:
  assumes "rule_wf env r" "r_field_count r < re_MAX_FIELDS env - 1" "has_feature env AUDIT_FEATURE_BITMAP_SESSIONID_FILTER"
    and "split_op fieldpair_ops p = Some (oper, name, v)" "name \<noteq> []" "v \<noteq> []"
    and "audit_name_to_field (re_tables env) name \<ge> 0"
    and "re_field env (audit_name_to_field (re_tables env) name) = AUDIT_SESSIONID"
    and "number_arg v = None" "v \<noteq> ''unset''"
  shows "\<exists>r'. audit_rule_fieldpair_data env mem_ok g r (Some p) AUDIT_FILTER_EXIT = (None, g, Some r')
    \<and> entries r' = entries r @ [(AUDIT_SESSIONID, Some oper, r_values r ! r_field_count r)]"
proof -
  define r1 where "r1 = put_field AUDIT_SESSIONID oper r"
  have grp: "AUDIT_SESSIONID \<notin> set string_fields" "AUDIT_SESSIONID \<notin> set uid_fields" "AUDIT_SESSIONID \<notin> set gid_fields"
    by (simp_all add: string_fields_def exit_string_fields_def uid_fields_def gid_fields_def)
  have pv: "plain_value env AUDIT_FILTER_EXIT AUDIT_SESSIONID oper v = (None, None)"
    using assms(3,9,10) grp by (simp add: plain_value_def sessionid_value_def)
  have sw: "field_switch env mem_ok AUDIT_FILTER_EXIT AUDIT_SESSIONID oper v g r1 = (None, g, Some (commit r1))"
    using grp by (simp add: field_switch_def pv put_slot_def)
  have "\<not> r_field_count r \<ge> re_MAX_FIELDS env - 1" "\<not> audit_name_to_field (re_tables env) name < 0"
    using assms(2,7) by simp_all
  then have "audit_rule_fieldpair_data env mem_ok g r (Some p) AUDIT_FILTER_EXIT = (None, g, Some (commit r1))"
    unfolding audit_rule_fieldpair_data_def option.case assms(4) prod.case Let_def assms(8)
    using assms(5,6) sw by (simp add: filter_error_def r1_def)
  moreover have "extended (AUDIT_SESSIONID, Some oper, r_values r ! r_field_count r) [] r (commit r1)"
    unfolding r1_def by (rule kept_extended [OF kept_put_field], rule extended_commit)
      (use assms(1) in \<open>simp_all add: put_field_def rule_wf_def\<close>)
  ultimately show ?thesis by (auto simp: extended_def)
qed

theorem sessionid_garbage_accepted_witness:
  "\<exists>r'. audit_rule_fieldpair_data sample_rule_env True no_globals (audit_rule_init_data sample_rule_env)
       (Some ''sessionid=abc'') AUDIT_FILTER_EXIT = (None, no_globals, Some r')
     \<and> entries r' = [(AUDIT_SESSIONID, Some AUDIT_EQUAL, 0)]"
proof -
  let ?r = "audit_rule_init_data sample_rule_env"
  have e: "entries ?r = []" "r_values ?r ! r_field_count ?r = 0" "r_field_count ?r < re_MAX_FIELDS sample_rule_env - 1"
    by (simp_all add: entries_def audit_rule_init_data_def sample_rule_env_def)
  have f: "audit_name_to_field (re_tables sample_rule_env) ''sessionid'' = 25"
    by (simp add: sample_rule_env_def sample_rule_tables_def audit_name_to_field_def found_or_minus1_def)
  have g: "re_field sample_rule_env 25 = AUDIT_SESSIONID" "number_arg ''abc'' = None"
    by (simp_all add: sample_rule_env_def sample_field_def number_arg_def isdigit_def)
  have h: "has_feature sample_rule_env AUDIT_FEATURE_BITMAP_SESSIONID_FILTER"
    by (simp add: has_feature_def sample_rule_env_def AUDIT_FEATURE_BITMAP_SESSIONID_FILTER_def)
  show ?thesis
    using sessionid_garbage_accepted [OF init_wf [OF sample_env_ok] e(3) h sample_pair(4)] e(1,2) f g by simp
qed

end
