(* ===== verification/Ev_Heap.thy ===== *)
theory Ev_Heap
  imports Audit_Prelude "HOL-Library.Multiset"
begin

text \<open>
  The 4-heap of the event loop, \<open>src/libev/ev.c\<close>, in which the daemon's timers wait: \<open>downheap\<close>,
  \<open>upheap\<close>, \<open>adjustheap\<close> and \<open>reheap\<close> as they are compiled with \<open>EV_USE_4HEAP\<close> and
  \<open>EV_HEAP_CACHE_AT\<close>.

  A heap entry is the cached time and the watcher, which is addressed by a number; the watchers are
  in a store. The array starts with \<open>HEAP0\<close> unused entries, as in the code. Points in time are
  integers (the code has \<open>double\<close>, whose rounding is not modelled).

  The conditions that \<open>verify_heap\<close> asserts are the specification: every entry's time is not before
  its parent's, every watcher knows its position, and the cached times agree with the watchers.
\<close>

section \<open>Watchers and heap entries\<close>

type_synonym ev_tstamp = int

record watcher =
  w_active :: nat
  w_pending :: nat
  w_priority :: int
  w_at :: ev_tstamp
  w_repeat :: ev_tstamp

type_synonym wid = nat
type_synonym store = "wid \<Rightarrow> watcher"

record anhe =
  he_at :: ev_tstamp
  he_w :: wid

definition DHEAP :: nat where "DHEAP = 4"
definition HEAP0 :: nat where "HEAP0 = DHEAP - 1"

definition HPARENT :: "nat \<Rightarrow> nat" where
  "HPARENT k = (k - HEAP0 - 1) div DHEAP + HEAP0"

definition set_active :: "wid \<Rightarrow> nat \<Rightarrow> store \<Rightarrow> store" where
  "set_active w k ws = ws(w := (ws w)\<lparr>w_active := k\<rparr>)"

lemma HEAP0_eq: "HEAP0 = 3"
  by (simp add: HEAP0_def DHEAP_def)

lemma HPARENT_eq: "HPARENT k = (k - 4) div 4 + 3"
  by (simp add: HPARENT_def HEAP0_eq DHEAP_def)

section \<open>Operations\<close>

text \<open>The loop of \<open>upheap\<close>: \<open>he\<close> is held aside and position \<open>k\<close> is free.\<close>

function upheap_loop :: "anhe \<Rightarrow> anhe list \<Rightarrow> store \<Rightarrow> nat \<Rightarrow> anhe list \<times> store" where
  "upheap_loop he heap ws k =
     (let p = HPARENT k in
      if p = k \<or> he_at (heap ! p) \<le> he_at he then (heap[k := he], set_active (he_w he) k ws)
      else upheap_loop he (heap[k := heap ! p]) (set_active (he_w (heap ! p)) k ws) p)"
  by pat_completeness auto
termination
  by (relation "measure (\<lambda>(he, heap, ws, k). if k < 3 then 4 else k)") (auto simp: HPARENT_eq)

definition upheap :: "anhe list \<Rightarrow> store \<Rightarrow> nat \<Rightarrow> anhe list \<times> store" where
  "upheap heap ws k = upheap_loop (heap ! k) heap ws k"

text \<open>The smallest of the children at \<open>pos\<close> and behind it; \<open>E\<close> is the end of the heap. The first
  branch is the one without bounds checks.\<close>

definition smaller :: "anhe list \<Rightarrow> nat \<Rightarrow> nat \<Rightarrow> nat" where
  "smaller heap i minpos = (if he_at (heap ! i) < he_at (heap ! minpos) then i else minpos)"

definition min_child :: "anhe list \<Rightarrow> nat \<Rightarrow> nat \<Rightarrow> nat option" where
  "min_child heap E pos =
     (if pos + DHEAP - 1 < E then
        Some (smaller heap (pos + 3) (smaller heap (pos + 2) (smaller heap (pos + 1) pos)))
      else if pos < E then
        let m1 = (if pos + 1 < E then smaller heap (pos + 1) pos else pos);
            m2 = (if pos + 2 < E then smaller heap (pos + 2) m1 else m1)
        in Some (if pos + 3 < E then smaller heap (pos + 3) m2 else m2)
      else None)"

lemma min_child_range: "min_child heap E pos = Some m \<Longrightarrow> pos \<le> m \<and> m < E \<and> m \<le> pos + 3"
  by (auto simp: min_child_def smaller_def Let_def DHEAP_def split: if_splits)

lemma min_child_least:
  "min_child heap E pos = Some m \<Longrightarrow> pos \<le> i \<Longrightarrow> i < E \<Longrightarrow> i \<le> pos + 3 \<Longrightarrow> he_at (heap ! m) \<le> he_at (heap ! i)"
proof -
  assume m: "min_child heap E pos = Some m" and i: "pos \<le> i" "i < E" "i \<le> pos + 3"
  from i have "i = pos \<or> i = pos + 1 \<or> i = pos + 2 \<or> i = pos + 3" by linarith
  then show ?thesis
    by (elim disjE) (use m i in \<open>auto simp: min_child_def smaller_def Let_def DHEAP_def split: if_splits\<close>)
qed

lemma min_child_None: "min_child heap E pos = None \<longleftrightarrow> E \<le> pos"
  by (auto simp: min_child_def Let_def DHEAP_def)

function downheap_loop :: "anhe \<Rightarrow> nat \<Rightarrow> anhe list \<Rightarrow> store \<Rightarrow> nat \<Rightarrow> anhe list \<times> store" where
  "downheap_loop he E heap ws k =
     (case min_child heap E (DHEAP * (k - HEAP0) + HEAP0 + 1) of
        None \<Rightarrow> (heap[k := he], set_active (he_w he) k ws)
      | Some minpos \<Rightarrow>
          if he_at he \<le> he_at (heap ! minpos) then (heap[k := he], set_active (he_w he) k ws)
          else downheap_loop he E (heap[k := heap ! minpos]) (set_active (he_w (heap ! minpos)) k ws) minpos)"
  by pat_completeness auto
termination
proof (relation "measure (\<lambda>(he, E, heap, ws, k). E - k)", goal_cases)
  case (2 he E heap ws k m)
  have "4 * (k - 3) + 4 \<le> m" "m < E" using min_child_range [OF 2(1)] by (simp_all add: DHEAP_def HEAP0_eq)
  then have "k < m" "m < E" by linarith+
  then show ?case by simp
qed simp

definition downheap :: "anhe list \<Rightarrow> nat \<Rightarrow> store \<Rightarrow> nat \<Rightarrow> anhe list \<times> store" where
  "downheap heap N ws k = downheap_loop (heap ! k) (N + HEAP0) heap ws k"

definition adjustheap :: "anhe list \<Rightarrow> nat \<Rightarrow> store \<Rightarrow> nat \<Rightarrow> anhe list \<times> store" where
  "adjustheap heap N ws k =
     (if k > HEAP0 \<and> he_at (heap ! k) \<le> he_at (heap ! HPARENT k) then upheap heap ws k else downheap heap N ws k)"

fun reheap_from :: "nat \<Rightarrow> nat \<Rightarrow> anhe list \<Rightarrow> store \<Rightarrow> anhe list \<times> store" where
  "reheap_from i 0 heap ws = (heap, ws)"
| "reheap_from i (Suc n) heap ws =
     (case upheap heap ws (i + HEAP0) of (heap', ws') \<Rightarrow> reheap_from (i + 1) n heap' ws')"

definition reheap :: "anhe list \<Rightarrow> nat \<Rightarrow> store \<Rightarrow> anhe list \<times> store" where
  "reheap heap N ws = reheap_from 0 N heap ws"

text \<open>\<open>verify_heap\<close>: the conditions its assertions check for the entries.\<close>

definition verify_heap :: "anhe list \<Rightarrow> nat \<Rightarrow> store \<Rightarrow> bool" where
  "verify_heap heap N ws \<longleftrightarrow>
     (\<forall>i \<in> {HEAP0..<N + HEAP0}.
        w_active (ws (he_w (heap ! i))) = i
      \<and> (i = HEAP0 \<or> he_at (heap ! HPARENT i) \<le> he_at (heap ! i))
      \<and> he_at (heap ! i) = w_at (ws (he_w (heap ! i))))"

declare upheap_loop.simps [simp del] downheap_loop.simps [simp del]

section \<open>The three conditions while an entry is held aside\<close>

definition in_heap :: "nat \<Rightarrow> nat \<Rightarrow> bool" where
  "in_heap N i \<longleftrightarrow> 3 \<le> i \<and> i < N + 3"

definition ordered_at :: "anhe list \<Rightarrow> nat \<Rightarrow> bool" where
  "ordered_at heap i \<longleftrightarrow> i = 3 \<or> he_at (heap ! HPARENT i) \<le> he_at (heap ! i)"

text \<open>Every entry but \<open>k\<close> and its children is in order, and the children of \<open>k\<close> are not before the
  parent of \<open>k\<close>.\<close>

definition order_but :: "nat \<Rightarrow> nat \<Rightarrow> anhe list \<Rightarrow> bool" where
  "order_but N k heap \<longleftrightarrow>
     (\<forall>i. in_heap N i \<and> i \<noteq> k \<and> (i = 3 \<or> HPARENT i \<noteq> k) \<longrightarrow> ordered_at heap i)
   \<and> (\<forall>i. in_heap N i \<and> 3 < i \<and> HPARENT i = k \<and> 3 < k \<longrightarrow> he_at (heap ! HPARENT k) \<le> he_at (heap ! i))"

definition index_but :: "nat \<Rightarrow> nat \<Rightarrow> anhe list \<Rightarrow> store \<Rightarrow> wid \<Rightarrow> bool" where
  "index_but N k heap ws w \<longleftrightarrow>
     (\<forall>i. in_heap N i \<and> i \<noteq> k \<longrightarrow> w_active (ws (he_w (heap ! i))) = i \<and> he_w (heap ! i) \<noteq> w)"

lemma HPARENT_less: "3 < k \<Longrightarrow> 3 \<le> HPARENT k \<and> HPARENT k < k"
  by (auto simp: HPARENT_eq)

lemma HPARENT_3 [simp]: "HPARENT 3 = 3"
  by (simp add: HPARENT_eq)

lemma HPARENT_fix: "3 \<le> k \<Longrightarrow> HPARENT k = k \<longleftrightarrow> k = 3"
  by (auto simp: HPARENT_eq)

lemma HPARENT_children: "3 \<le> k \<Longrightarrow> 3 < i \<Longrightarrow> HPARENT i = k \<longleftrightarrow> 4 * (k - 3) + 4 \<le> i \<and> i \<le> 4 * (k - 3) + 4 + 3"
  by (auto simp: HPARENT_eq)

text \<open>What a heap operation leaves alone: every field of a watcher but its position, and the
  positions of the watchers that are not in the heap.\<close>

definition same_but_active :: "store \<Rightarrow> store \<Rightarrow> bool" where
  "same_but_active ws ws' \<longleftrightarrow> (\<forall>w. (ws' w)\<lparr>w_active := 0\<rparr> = (ws w)\<lparr>w_active := 0\<rparr>)"

lemma same_but_active_refl [simp]: "same_but_active ws ws"
  by (simp add: same_but_active_def)

lemma same_but_active_trans: "same_but_active a b \<Longrightarrow> same_but_active b c \<Longrightarrow> same_but_active a c"
  by (simp add: same_but_active_def)

lemma same_but_active_set [simp]: "same_but_active ws (set_active w k ws)"
  by (simp add: same_but_active_def set_active_def)

lemma same_but_activeD:
  assumes "same_but_active ws ws'"
  shows "w_at (ws' w) = w_at (ws w)" "w_repeat (ws' w) = w_repeat (ws w)"
    "w_pending (ws' w) = w_pending (ws w)" "w_priority (ws' w) = w_priority (ws w)"
proof -
  have e: "(ws' w)\<lparr>w_active := 0\<rparr> = (ws w)\<lparr>w_active := 0\<rparr>" using assms by (simp add: same_but_active_def)
  show "w_at (ws' w) = w_at (ws w)" using arg_cong [OF e, of w_at] by simp
  show "w_repeat (ws' w) = w_repeat (ws w)" using arg_cong [OF e, of w_repeat] by simp
  show "w_pending (ws' w) = w_pending (ws w)" using arg_cong [OF e, of w_pending] by simp
  show "w_priority (ws' w) = w_priority (ws w)" using arg_cong [OF e, of w_priority] by simp
qed

section \<open>Moving an entry towards the root\<close>

text \<open>One step: the parent moves down into the free position. The order, the positions and the
  entries as a whole are kept, with the free position one level higher.\<close>

definition heap_post :: "nat \<Rightarrow> anhe list \<Rightarrow> nat \<Rightarrow> anhe \<Rightarrow> store \<Rightarrow> anhe list \<times> store \<Rightarrow> bool" where
  "heap_post N heap k he ws res \<longleftrightarrow>
     (case res of (heap', ws') \<Rightarrow>
        (\<forall>i. in_heap N i \<longrightarrow> ordered_at heap' i \<and> w_active (ws' (he_w (heap' ! i))) = i)
      \<and> mset heap' = mset (heap[k := he]) \<and> take 3 heap' = take 3 heap \<and> drop (N + 3) heap' = drop (N + 3) heap
      \<and> same_but_active ws ws' \<and> (\<forall>w. w \<notin> he_w ` set (take N (drop 3 (heap[k := he]))) \<longrightarrow> ws' w = ws w))"

lemma mset_move: "k < length h \<Longrightarrow> p < length h \<Longrightarrow> mset (h[k := h ! p, p := x]) = mset (h[k := x])"
  using mset_swap [of p "h[k := x]" k] by (cases "k = p") simp_all

lemma set_slice: "length h \<ge> N + 3 \<Longrightarrow> set (take N (drop 3 h)) = {h ! i |i. in_heap N i}"
proof -
  assume l: "length h \<ge> N + 3"
  have "x \<in> set (take N (drop 3 h)) \<longleftrightarrow> (\<exists>j < N. x = h ! (3 + j))" for x
    using l by (auto simp: in_set_conv_nth)
  moreover have "(\<exists>j < N. x = h ! (3 + j)) \<longleftrightarrow> (\<exists>i. in_heap N i \<and> x = h ! i)" for x
    unfolding in_heap_def by (metis add.commute add_less_cancel_right le_add1 le_add_diff_inverse)
  ultimately show ?thesis by blast
qed

lemma order_up:
  assumes o: "order_but N k heap" and k: "in_heap N k" "3 < k" and len: "N + 3 \<le> length heap"
    and c: "\<forall>i. in_heap N i \<and> 3 < i \<and> HPARENT i = k \<longrightarrow> a \<le> he_at (heap ! i)"
    and a: "a < he_at (heap ! HPARENT k)"
  defines "p \<equiv> HPARENT k"
  defines "heap' \<equiv> heap[k := heap ! p]"
  shows "order_but N p heap'" "\<forall>i. in_heap N i \<and> 3 < i \<and> HPARENT i = p \<longrightarrow> a \<le> he_at (heap' ! i)"
proof -
  have p: "3 \<le> p" "p < k" using HPARENT_less [OF k(2)] by (simp_all add: p_def)
  have kl: "k < length heap" using k(1) len by (simp add: in_heap_def)
  have nth: "heap' ! i = (if i = k then heap ! p else heap ! i)" for i
    using kl by (simp add: heap'_def nth_list_update)
  have ord: "ordered_at heap i" if "in_heap N i" "i \<noteq> k" "i = 3 \<or> HPARENT i \<noteq> k" for i
    using o that unfolding order_but_def by blast
  have gp: "he_at (heap ! p) \<le> he_at (heap ! i)" if "in_heap N i" "3 < i" "HPARENT i = k" for i
    using o that k(2) unfolding order_but_def p_def by blast
  have pk: "in_heap N p" using p k(1) by (simp add: in_heap_def)
  have sib: "he_at (heap ! p) \<le> he_at (heap ! i)" if "in_heap N i" "3 < i" "HPARENT i = p" "i \<noteq> k" for i
    using ord [of i] that p unfolding ordered_at_def by auto
  show "\<forall>i. in_heap N i \<and> 3 < i \<and> HPARENT i = p \<longrightarrow> a \<le> he_at (heap' ! i)"
    using a sib unfolding nth p_def by (auto intro: less_imp_le order.trans)
  have "ordered_at heap' i" if i: "in_heap N i" "i \<noteq> p" "i = 3 \<or> HPARENT i \<noteq> p" for i
  proof (cases "i = 3")
    case False
    with i have i3: "3 < i" "HPARENT i \<noteq> p" "i \<noteq> k" by (auto simp: in_heap_def p_def)
    show ?thesis using ord [OF i(1) i3(3)] gp [OF i(1) i3(1)] i3 unfolding ordered_at_def nth by auto
  qed (simp add: ordered_at_def)
  moreover have "he_at (heap' ! HPARENT p) \<le> he_at (heap' ! i)" if i: "in_heap N i" "3 < i" "HPARENT i = p" "3 < p" for i
  proof -
    have "HPARENT p < p" using HPARENT_less [OF that(4)] by simp
    then have "he_at (heap ! HPARENT p) \<le> he_at (heap ! p)"
      using ord [OF pk] p that(4) unfolding ordered_at_def by auto
    then show ?thesis using sib [OF i(1-3)] \<open>HPARENT p < p\<close> p unfolding nth by auto
  qed
  ultimately show "order_but N p heap'" unfolding order_but_def by blast
qed

lemma index_move:
  assumes "index_but N k heap ws w" "in_heap N k" "in_heap N p" "p \<noteq> k" "N + 3 \<le> length heap"
  shows "index_but N p (heap[k := heap ! p]) (set_active (he_w (heap ! p)) k ws) w"
proof -
  have kl: "k < length heap" using assms by (simp add: in_heap_def)
  have ix: "w_active (ws (he_w (heap ! i))) = i \<and> he_w (heap ! i) \<noteq> w" if "in_heap N i" "i \<noteq> k" for i
    using assms(1) that unfolding index_but_def by blast
  show ?thesis unfolding index_but_def
  proof (intro allI impI)
    fix i assume i: "in_heap N i \<and> i \<noteq> p"
    show "w_active (set_active (he_w (heap ! p)) k ws (he_w (heap[k := heap ! p] ! i))) = i \<and> he_w (heap[k := heap ! p] ! i) \<noteq> w"
    proof (cases "i = k")
      case True
      then show ?thesis using ix [OF assms(3,4)] kl by (simp add: set_active_def)
    next
      case False
      then have "he_w (heap ! i) \<noteq> he_w (heap ! p)" using ix [of i] ix [OF assms(3,4)] i by metis
      with False show ?thesis using ix [of i] i by (simp add: set_active_def)
    qed
  qed
qed

text \<open>When the free position is filled and its order is right, the heap is complete.\<close>

lemma heap_fill:
  assumes "order_but N k heap" "in_heap N k" "N + 3 \<le> length heap" "index_but N k heap ws (he_w he)"
    and "\<forall>i. in_heap N i \<and> 3 < i \<and> HPARENT i = k \<longrightarrow> he_at he \<le> he_at (heap ! i)"
    and "k = 3 \<or> he_at (heap ! HPARENT k) \<le> he_at he"
  shows "heap_post N heap k he ws (heap[k := he], set_active (he_w he) k ws)"
proof -
  have kl: "k < length heap" "3 \<le> k" using assms(2,3) by (simp_all add: in_heap_def)
  have nth: "heap[k := he] ! i = (if i = k then he else heap ! i)" for i
    using kl by (simp add: nth_list_update)
  have ord: "ordered_at (heap[k := he]) i" if i: "in_heap N i" for i
  proof (cases "i = 3 \<or> i = k \<or> HPARENT i = k")
    case True
    have "3 < i \<Longrightarrow> HPARENT i \<noteq> i" using HPARENT_less [of i] by simp
    moreover have "i \<noteq> 3 \<Longrightarrow> 3 < i" using i by (simp add: in_heap_def)
    ultimately show ?thesis using True assms(5,6) i unfolding ordered_at_def nth by auto
  next
    case False
    with assms(1) i have "ordered_at heap i" unfolding order_but_def by blast
    with False show ?thesis unfolding ordered_at_def nth by auto
  qed
  have ix: "w_active (set_active (he_w he) k ws (he_w (heap[k := he] ! i))) = i" if "in_heap N i" for i
    using assms(4) that unfolding nth index_but_def set_active_def by auto
  have "he_w he \<in> he_w ` set (take N (drop 3 (heap[k := he])))"
  proof -
    have "he \<in> set (take N (drop 3 (heap[k := he])))"
      using set_slice [of N "heap[k := he]"] assms(2,3) nth [of k] by auto
    then show ?thesis by (rule imageI)
  qed
  then have fr: "set_active (he_w he) k ws w = ws w" if "w \<notin> he_w ` set (take N (drop 3 (heap[k := he])))" for w
    using that by (auto simp: set_active_def)
  have "take 3 (heap[k := he]) = take 3 heap" "drop (N + 3) (heap[k := he]) = drop (N + 3) heap"
    using kl assms(2) by (simp_all add: in_heap_def)
  with ord ix fr show ?thesis unfolding heap_post_def prod.case by simp
qed

lemma slice_move:
  fixes heap :: "anhe list"
  assumes "in_heap N k" "in_heap N p" "N + 3 \<le> length heap"
  shows "set (take N (drop 3 (heap[k := heap ! p, p := he]))) = set (take N (drop 3 (heap[k := he])))"
proof -
  have l: "k < length heap" "p < length heap" "3 \<le> k" "3 \<le> p" "k - 3 < N" "p - 3 < N" using assms by (auto simp: in_heap_def)
  define g where "g = take N (drop 3 heap)"
  have e: "take N (drop 3 (h[i := x])) = (take N (drop 3 h))[i - 3 := x]" if "3 \<le> i" for h :: "anhe list" and i x
    using that by (simp add: drop_update_swap take_update_swap)
  have g: "g ! (p - 3) = heap ! p" "k - 3 < length g" "p - 3 < length g" using l assms(3) by (simp_all add: g_def)
  have "take N (drop 3 (heap[k := heap ! p, p := he])) = g[k - 3 := g ! (p - 3), p - 3 := he]"
    by (simp only: e [OF l(4)] e [OF l(3)] g_def [symmetric] g(1))
  moreover have "take N (drop 3 (heap[k := he])) = g[k - 3 := he]" by (simp only: e [OF l(3)] g_def)
  ultimately show ?thesis using mset_move [OF g(2,3), of he] by (metis set_mset_mset)
qed

text \<open>The result for a later step is the result for an earlier one.\<close>

lemma heap_post_step:
  assumes "heap_post N (heap[k := heap ! p]) p he (set_active (he_w (heap ! p)) k ws) res"
    and "in_heap N k" "in_heap N p" "p \<noteq> k" "N + 3 \<le> length heap"
  shows "heap_post N heap k he ws res"
proof -
  obtain heap' ws' where res: "res = (heap', ws')" by (cases res)
  have l: "k < length heap" "p < length heap" "3 \<le> k" "k < N + 3" using assms by (auto simp: in_heap_def)
  have "ws' w = ws w" if w: "w \<notin> he_w ` set (take N (drop 3 (heap[k := he])))" for w
  proof -
    have "heap[k := he] ! p = heap ! p" using assms(4) by simp
    then have "heap ! p \<in> set (take N (drop 3 (heap[k := he])))"
      using set_slice [of N "heap[k := he]"] assms(3,5) by auto
    then have "w \<noteq> he_w (heap ! p)" using w by auto
    moreover have "ws' w = set_active (he_w (heap ! p)) k ws w"
      using assms(1) w slice_move [OF assms(2,3,5), of he] unfolding res heap_post_def prod.case by simp
    ultimately show ?thesis by (simp add: set_active_def)
  qed
  moreover have "same_but_active ws ws'"
    using assms(1) same_but_active_trans [OF same_but_active_set] unfolding res heap_post_def prod.case by blast
  moreover have "mset (heap[k := heap ! p, p := he]) = mset (heap[k := he])" by (rule mset_move [OF l(1,2)])
  ultimately show ?thesis
    using assms(1) l unfolding res heap_post_def prod.case by simp
qed

lemma upheap_loop_correct:
  assumes "order_but N k heap" "in_heap N k" "N + 3 \<le> length heap" "index_but N k heap ws (he_w he)"
    and "\<forall>i. in_heap N i \<and> 3 < i \<and> HPARENT i = k \<longrightarrow> he_at he \<le> he_at (heap ! i)"
  shows "heap_post N heap k he ws (upheap_loop he heap ws k)"
  using assms
proof (induction he heap ws k rule: upheap_loop.induct)
  case (1 he heap ws k)
  have k3: "3 \<le> k" using "1.prems"(2) by (simp add: in_heap_def)
  show ?case
  proof (cases "HPARENT k = k \<or> he_at (heap ! HPARENT k) \<le> he_at he")
    case True
    then have "upheap_loop he heap ws k = (heap[k := he], set_active (he_w he) k ws)"
      by (subst upheap_loop.simps) (simp add: Let_def)
    with True heap_fill [OF "1.prems"] HPARENT_fix [OF k3] show ?thesis by auto
  next
    case False
    define p where "p = HPARENT k"
    have k: "3 < k" using False HPARENT_fix [OF k3] k3 by auto
    then have p: "p \<noteq> k" "in_heap N p" using HPARENT_less [OF k] "1.prems"(2) by (simp_all add: p_def in_heap_def)
    have lt: "he_at he < he_at (heap ! HPARENT k)" using False by simp
    note o = order_up [OF "1.prems"(1,2) k "1.prems"(3,5) lt, folded p_def]
    have "heap_post N (heap[k := heap ! p]) p he (set_active (he_w (heap ! p)) k ws)
        (upheap_loop he (heap[k := heap ! p]) (set_active (he_w (heap ! p)) k ws) p)"
      using "1.IH" [OF p_def] False o p(2) "1.prems"(3) index_move [OF "1.prems"(4,2) p(2,1) "1.prems"(3)]
      by (simp add: p_def)
    then have "heap_post N heap k he ws (upheap_loop he (heap[k := heap ! p]) (set_active (he_w (heap ! p)) k ws) p)"
      by (rule heap_post_step [OF _ "1.prems"(2) p(2,1) "1.prems"(3)])
    moreover have "upheap_loop he heap ws k = upheap_loop he (heap[k := heap ! p]) (set_active (he_w (heap ! p)) k ws) p"
      using False by (subst upheap_loop.simps) (simp add: Let_def p_def)
    ultimately show ?thesis by simp
  qed
qed

section \<open>Moving an entry away from the root\<close>

lemma order_down:
  assumes o: "order_but N k heap" and k: "in_heap N k" and len: "N + 3 \<le> length heap"
    and m: "in_heap N m" "3 < m" "HPARENT m = k"
    and least: "\<forall>i. in_heap N i \<and> 3 < i \<and> HPARENT i = k \<longrightarrow> he_at (heap ! m) \<le> he_at (heap ! i)"
  shows "order_but N m (heap[k := heap ! m])"
proof -
  have km: "k < m" "3 \<le> k" using HPARENT_less [OF m(2)] m(3) by simp_all
  have nth: "heap[k := heap ! m] ! i = (if i = k then heap ! m else heap ! i)" for i
    using k len by (simp add: nth_list_update in_heap_def)
  have ord: "ordered_at heap i" if "in_heap N i" "i \<noteq> k" "i = 3 \<or> HPARENT i \<noteq> k" for i
    using o that unfolding order_but_def by blast
  have gp: "3 < k \<Longrightarrow> he_at (heap ! HPARENT k) \<le> he_at (heap ! m)"
    using o m unfolding order_but_def by blast
  have "ordered_at (heap[k := heap ! m]) i" if i: "in_heap N i" "i \<noteq> m" "i = 3 \<or> HPARENT i \<noteq> m" for i
  proof (cases "i = 3")
    case False
    then have i3: "3 < i" using i(1) by (simp add: in_heap_def)
    have ne: "HPARENT i \<noteq> i" using HPARENT_less [OF i3] by simp
    consider "i = k" | "i \<noteq> k" "HPARENT i = k" | "i \<noteq> k" "HPARENT i \<noteq> k" by blast
    then show ?thesis
    proof cases
      case 1
      with gp i3 ne show ?thesis unfolding ordered_at_def nth by auto
    next
      case 2
      with least i i3 show ?thesis unfolding ordered_at_def nth by auto
    next
      case 3
      with ord [OF i(1)] show ?thesis unfolding ordered_at_def nth by auto
    qed
  qed (simp add: ordered_at_def)
  moreover have "he_at (heap[k := heap ! m] ! HPARENT m) \<le> he_at (heap[k := heap ! m] ! i)"
    if i: "in_heap N i" "3 < i" "HPARENT i = m" for i
  proof -
    have "m < i" using HPARENT_less [OF i(2)] i(3) by simp
    then show ?thesis using ord [OF i(1)] i km m(3) unfolding ordered_at_def nth by auto
  qed
  ultimately show ?thesis unfolding order_but_def by blast
qed

lemma downheap_loop_correct:
  assumes "order_but N k heap" "in_heap N k" "N + 3 \<le> length heap" "index_but N k heap ws (he_w he)"
    and "k = 3 \<or> he_at (heap ! HPARENT k) \<le> he_at he"
  shows "heap_post N heap k he ws (downheap_loop he (N + 3) heap ws k)"
  using assms
proof (induction he "N + 3" heap ws k rule: downheap_loop.induct)
  case (1 he heap ws k)
  define pos where "pos = DHEAP * (k - HEAP0) + HEAP0 + 1"
  have k3: "3 \<le> k" using "1.prems"(2) by (simp add: in_heap_def)
  have pos: "pos = 4 * (k - 3) + 4" by (simp add: pos_def DHEAP_def HEAP0_eq)
  have child: "HPARENT i = k \<longleftrightarrow> pos \<le> i \<and> i \<le> pos + 3" if "3 < i" for i
    using HPARENT_children [OF k3 that] by (simp add: pos)
  show ?case
  proof (cases "min_child heap (N + 3) pos")
    case None
    then have "N + 3 \<le> pos" by (simp add: min_child_None)
    then have "\<forall>i. in_heap N i \<and> 3 < i \<and> HPARENT i = k \<longrightarrow> he_at he \<le> he_at (heap ! i)"
      unfolding in_heap_def using child by (metis leD le_trans)
    with heap_fill [OF "1.prems"(1-4) _ "1.prems"(5)] None show ?thesis
      by (subst downheap_loop.simps) (simp add: pos_def)
  next
    case (Some m)
    note r = min_child_range [OF Some]
    have m: "in_heap N m" "3 < m" "HPARENT m = k" "m \<noteq> k"
      using r child [of m] k3 by (auto simp: in_heap_def pos)
    have least: "\<forall>i. in_heap N i \<and> 3 < i \<and> HPARENT i = k \<longrightarrow> he_at (heap ! m) \<le> he_at (heap ! i)"
      unfolding in_heap_def using min_child_least [OF Some] child by blast
    show ?thesis
    proof (cases "he_at he \<le> he_at (heap ! m)")
      case True
      then have "\<forall>i. in_heap N i \<and> 3 < i \<and> HPARENT i = k \<longrightarrow> he_at he \<le> he_at (heap ! i)"
        using least by (metis order_trans)
      with heap_fill [OF "1.prems"(1-4) _ "1.prems"(5)] Some True show ?thesis
        by (subst downheap_loop.simps) (simp add: pos_def)
    next
      case False
      have le: "he_at (heap[k := heap ! m] ! HPARENT m) \<le> he_at he"
        using False m "1.prems"(2,3) by (simp add: in_heap_def)
      have "heap_post N (heap[k := heap ! m]) m he (set_active (he_w (heap ! m)) k ws)
          (downheap_loop he (N + 3) (heap[k := heap ! m]) (set_active (he_w (heap ! m)) k ws) m)"
        using "1.hyps" [OF Some [unfolded pos_def] False order_down [OF "1.prems"(1-3) m(1-3) least] m(1)]
          index_move [OF "1.prems"(4,2) m(1,4) "1.prems"(3)] le "1.prems"(3) by simp
      then have "heap_post N heap k he ws (downheap_loop he (N + 3) (heap[k := heap ! m]) (set_active (he_w (heap ! m)) k ws) m)"
        by (rule heap_post_step [OF _ "1.prems"(2) m(1,4) "1.prems"(3)])
      moreover have "downheap_loop he (N + 3) heap ws k
          = downheap_loop he (N + 3) (heap[k := heap ! m]) (set_active (he_w (heap ! m)) k ws) m"
        using False Some by (subst downheap_loop.simps) (simp add: pos_def)
      ultimately show ?thesis by simp
    qed
  qed
qed

section \<open>The operations keep the heap verified\<close>

definition heap_entries :: "anhe list \<Rightarrow> nat \<Rightarrow> anhe list" where
  "heap_entries heap N = take N (drop HEAP0 heap)"

definition cached :: "store \<Rightarrow> anhe \<Rightarrow> bool" where
  "cached ws e \<longleftrightarrow> he_at e = w_at (ws (he_w e))"

lemma heap_entries_eq: "heap_entries heap N = take N (drop 3 heap)"
  by (simp add: heap_entries_def HEAP0_eq)

lemma set_heap_entries: "N + 3 \<le> length heap \<Longrightarrow> set (heap_entries heap N) = {heap ! i |i. in_heap N i}"
  by (simp add: heap_entries_eq set_slice)

lemma verify_heap_iff:
  "verify_heap heap N ws \<longleftrightarrow>
     (\<forall>i. in_heap N i \<longrightarrow> w_active (ws (he_w (heap ! i))) = i \<and> ordered_at heap i \<and> cached ws (heap ! i))"
  unfolding verify_heap_def in_heap_def ordered_at_def cached_def HEAP0_eq atLeastLessThan_iff Ball_def by blast

text \<open>What every operation that moves entries around guarantees.\<close>

definition heap_kept :: "nat \<Rightarrow> anhe list \<Rightarrow> store \<Rightarrow> anhe list \<times> store \<Rightarrow> bool" where
  "heap_kept N heap ws res \<longleftrightarrow>
     (case res of (heap', ws') \<Rightarrow>
        mset (heap_entries heap' N) = mset (heap_entries heap N) \<and> length heap' = length heap
      \<and> same_but_active ws ws' \<and> (\<forall>w. w \<notin> he_w ` set (heap_entries heap N) \<longrightarrow> ws' w = ws w))"

lemma heap_kept_of_post:
  assumes "heap_post N heap k (heap ! k) ws res" "N + 3 \<le> length heap"
  shows "heap_kept N heap ws res"
proof -
  obtain heap' ws' where res: "res = (heap', ws')" by (cases res)
  have p: "mset heap' = mset heap" "take 3 heap' = take 3 heap" "drop (N + 3) heap' = drop (N + 3) heap"
    "same_but_active ws ws'" "\<forall>w. w \<notin> he_w ` set (take N (drop 3 heap)) \<longrightarrow> ws' w = ws w"
    using assms(1) unfolding res heap_post_def by auto
  have split: "h = take 3 h @ take N (drop 3 h) @ drop (N + 3) h" for h :: "anhe list"
    by (metis append_take_drop_id drop_drop)
  have "mset (take 3 heap) + mset (take N (drop 3 heap')) + mset (drop (N + 3) heap)
      = mset (take 3 heap) + mset (take N (drop 3 heap)) + mset (drop (N + 3) heap)"
    using p(1) split [of heap'] split [of heap] p(2,3) by (metis mset_append add.assoc)
  then show ?thesis
    using p mset_eq_length [OF p(1)] unfolding res heap_kept_def heap_entries_eq prod.case by simp
qed

lemma verify_of_post:
  assumes "heap_post N heap k (heap ! k) ws (heap', ws')" "N + 3 \<le> length heap"
    and "\<forall>i. in_heap N i \<longrightarrow> cached ws (heap ! i)"
  shows "verify_heap heap' N ws'"
proof -
  have kept: "mset (heap_entries heap' N) = mset (heap_entries heap N)" "length heap' = length heap" "same_but_active ws ws'"
    using heap_kept_of_post [OF assms(1,2)] unfolding heap_kept_def by auto
  have "cached ws' (heap' ! i)" if "in_heap N i" for i
  proof -
    have "heap' ! i \<in> set (heap_entries heap' N)" using set_heap_entries [of N heap'] kept(2) assms(2) that by auto
    then have "heap' ! i \<in> set (heap_entries heap N)" using mset_eq_setD [OF kept(1)] by simp
    then obtain j where "in_heap N j" "heap' ! i = heap ! j" using set_heap_entries [OF assms(2)] by auto
    then show ?thesis using assms(3) same_but_activeD(1) [OF kept(3)] by (simp add: cached_def)
  qed
  then show ?thesis
    using assms(1) unfolding verify_heap_iff heap_post_def by simp
qed

text \<open>\<open>adjustheap\<close> repairs a heap in which one entry has been given another time or replaced.\<close>

lemma adjustheap_correct:
  assumes "order_but N k heap" "index_but N k heap ws (he_w (heap ! k))" "in_heap N k" "N + 3 \<le> length heap"
    and "\<forall>i. in_heap N i \<longrightarrow> cached ws (heap ! i)"
  shows "verify_heap (fst (adjustheap heap N ws k)) N (snd (adjustheap heap N ws k))
    \<and> heap_kept N heap ws (adjustheap heap N ws k)"
proof -
  have "heap_post N heap k (heap ! k) ws (adjustheap heap N ws k)"
  proof (cases "3 < k \<and> he_at (heap ! k) \<le> he_at (heap ! HPARENT k)")
    case True
    have "\<forall>i. in_heap N i \<and> 3 < i \<and> HPARENT i = k \<longrightarrow> he_at (heap ! k) \<le> he_at (heap ! i)"
      using assms(1) True unfolding order_but_def by (metis order_trans)
    with upheap_loop_correct [OF assms(1,3,4,2)] True show ?thesis
      by (simp add: adjustheap_def upheap_def HEAP0_eq)
  next
    case False
    then have "k = 3 \<or> he_at (heap ! HPARENT k) \<le> he_at (heap ! k)"
      using assms(3) by (auto simp: in_heap_def)
    with downheap_loop_correct [OF assms(1,3,4,2)] False show ?thesis
      by (auto simp: adjustheap_def downheap_def HEAP0_eq)
  qed
  then show ?thesis
    using verify_of_post [OF _ assms(4,5), of k "fst (adjustheap heap N ws k)" "snd (adjustheap heap N ws k)"]
      heap_kept_of_post [OF _ assms(4)] by simp
qed

lemma downheap_root_correct:
  assumes "order_but N 3 heap" "index_but N 3 heap ws (he_w (heap ! 3))" "in_heap N 3" "N + 3 \<le> length heap"
    and "\<forall>i. in_heap N i \<longrightarrow> cached ws (heap ! i)"
  shows "verify_heap (fst (downheap heap N ws HEAP0)) N (snd (downheap heap N ws HEAP0))
    \<and> heap_kept N heap ws (downheap heap N ws HEAP0)"
  using adjustheap_correct [OF assms] by (simp add: adjustheap_def HEAP0_eq)

text \<open>\<open>upheap\<close> on the entry behind a heap takes it in.\<close>

lemma upheap_last_correct:
  assumes "\<forall>i. in_heap N i \<longrightarrow> ordered_at heap i" "index_but (Suc N) (N + 3) heap ws (he_w (heap ! (N + 3)))" "Suc N + 3 \<le> length heap"
  shows "heap_post (Suc N) heap (N + 3) (heap ! (N + 3)) ws (upheap heap ws (N + 3))"
proof -
  have no_child: "\<not> (in_heap (Suc N) i \<and> 3 < i \<and> HPARENT i = N + 3)" for i
    using HPARENT_less [of i] by (auto simp: in_heap_def)
  then have "order_but (Suc N) (N + 3) heap"
    using assms(1) unfolding order_but_def in_heap_def by (metis add_Suc less_SucE)
  with upheap_loop_correct [of "Suc N" "N + 3" heap ws "heap ! (N + 3)"] assms no_child show ?thesis
    by (auto simp: upheap_def in_heap_def)
qed

section \<open>Rebuilding the heap\<close>

definition indexed :: "nat \<Rightarrow> anhe list \<Rightarrow> store \<Rightarrow> bool" where
  "indexed N heap ws \<longleftrightarrow> (\<forall>i. in_heap N i \<longrightarrow> w_active (ws (he_w (heap ! i))) = i)"

lemma indexed_distinct: "indexed N heap ws \<Longrightarrow> in_heap N i \<Longrightarrow> in_heap N j \<Longrightarrow> i \<noteq> j \<Longrightarrow> he_w (heap ! i) \<noteq> he_w (heap ! j)"
  unfolding indexed_def by metis

lemma heap_kept_trans:
  assumes "heap_kept N heap ws (h1, ws1)" "heap_kept N h1 ws1 res"
  shows "heap_kept N heap ws res"
proof -
  have "set (heap_entries h1 N) = set (heap_entries heap N)"
    using assms(1) mset_eq_setD unfolding heap_kept_def prod.case by blast
  then show ?thesis
    using assms same_but_active_trans unfolding heap_kept_def by (cases res) auto
qed

text \<open>A step of \<open>reheap\<close>: the entry behind the first \<open>i\<close> is taken into their heap; the entries further
  on, and the positions of their watchers, stay.\<close>

lemma reheap_step:
  assumes "\<forall>j. in_heap i j \<longrightarrow> ordered_at heap j" "indexed N heap ws" "i < N" "N + 3 \<le> length heap"
  defines "res \<equiv> upheap heap ws (i + 3)"
  shows "\<forall>j. in_heap (Suc i) j \<longrightarrow> ordered_at (fst res) j" "indexed N (fst res) (snd res)" "heap_kept N heap ws res"
proof -
  obtain heap' ws' where res: "res = (heap', ws')" by (cases res)
  have ix: "index_but (Suc i) (i + 3) heap ws (he_w (heap ! (i + 3)))"
    using assms(2,3) indexed_distinct [OF assms(2)] unfolding index_but_def indexed_def in_heap_def by auto
  have post: "heap_post (Suc i) heap (i + 3) (heap ! (i + 3)) ws (heap', ws')"
    using upheap_last_correct [OF assms(1) ix] assms(3,4) by (simp add: res [symmetric] res_def)
  have kept: "heap_kept (Suc i) heap ws (heap', ws')"
    using heap_kept_of_post [OF post] assms(3,4) by simp
  have len: "length heap' = length heap" using kept by (simp add: heap_kept_def)
  have tail: "heap' ! j = heap ! j" if "i + 4 \<le> j" "j < length heap" for j
  proof -
    have "drop (i + 4) heap' = drop (i + 4) heap" using post unfolding heap_post_def by (simp add: add.commute)
    then have "drop (i + 4) heap' ! (j - (i + 4)) = drop (i + 4) heap ! (j - (i + 4))" by simp
    with that len show ?thesis by simp
  qed
  show "\<forall>j. in_heap (Suc i) j \<longrightarrow> ordered_at (fst res) j"
    using post unfolding res heap_post_def by simp
  show "indexed N (fst res) (snd res)" unfolding indexed_def res fst_conv snd_conv
  proof (intro allI impI)
    fix j assume j: "in_heap N j"
    show "w_active (ws' (he_w (heap' ! j))) = j"
    proof (cases "in_heap (Suc i) j")
      case True
      then show ?thesis using post unfolding heap_post_def by simp
    next
      case False
      then have t: "heap' ! j = heap ! j" using tail [of j] j assms(4) by (simp add: in_heap_def)
      have "he_w (heap ! j) \<noteq> he_w (heap ! l)" if "in_heap (Suc i) l" for l
        using indexed_distinct [OF assms(2) j, of l] False that assms(3) by (auto simp: in_heap_def)
      then have "he_w (heap ! j) \<notin> he_w ` set (heap_entries heap (Suc i))"
        using set_heap_entries [of "Suc i" heap] assms(3,4) by auto
      then show ?thesis using kept assms(2) j unfolding heap_kept_def indexed_def t by simp
    qed
  qed
  have te: "heap_entries h (Suc i) = take (Suc i) (heap_entries h N)" for h
    using assms(3) by (simp add: heap_entries_def min_def)
  have d: "drop (Suc i) (heap_entries heap' N) = drop (Suc i) (heap_entries heap N)"
    using tail len assms(3,4) by (intro nth_equalityI) (simp_all add: heap_entries_eq)
  have m: "mset (take (Suc i) (heap_entries heap' N)) = mset (take (Suc i) (heap_entries heap N))"
    using kept unfolding heap_kept_def te by simp
  have "mset (take (Suc i) (heap_entries heap' N) @ drop (Suc i) (heap_entries heap' N))
      = mset (take (Suc i) (heap_entries heap N) @ drop (Suc i) (heap_entries heap N))"
    unfolding mset_append m d by (rule refl)
  then have "mset (heap_entries heap' N) = mset (heap_entries heap N)" by (simp only: append_take_drop_id)
  moreover have "set (heap_entries heap (Suc i)) \<subseteq> set (heap_entries heap N)"
    unfolding te by (rule set_take_subset)
  ultimately show "heap_kept N heap ws res"
    using kept unfolding res heap_kept_def prod.case by blast
qed

lemma reheap_from_correct:
  assumes "\<forall>j. in_heap i j \<longrightarrow> ordered_at heap j" "indexed N heap ws" "i + n = N" "N + 3 \<le> length heap"
  shows "(\<forall>j. in_heap N j \<longrightarrow> ordered_at (fst (reheap_from i n heap ws)) j)
    \<and> indexed N (fst (reheap_from i n heap ws)) (snd (reheap_from i n heap ws))
    \<and> heap_kept N heap ws (reheap_from i n heap ws)"
  using assms
proof (induction n arbitrary: i heap ws)
  case 0
  then show ?case by (simp add: heap_kept_def)
next
  case (Suc n)
  obtain h1 ws1 where u: "upheap heap ws (i + 3) = (h1, ws1)" by (cases "upheap heap ws (i + 3)")
  have s: "\<forall>j. in_heap (Suc i) j \<longrightarrow> ordered_at h1 j" "indexed N h1 ws1" "heap_kept N heap ws (h1, ws1)"
    using reheap_step [OF Suc.prems(1,2) _ Suc.prems(4)] Suc.prems(3) by (simp_all add: u)
  then have "N + 3 \<le> length h1" using Suc.prems(4) by (simp add: heap_kept_def)
  with Suc.IH [OF s(1,2)] Suc.prems(3) heap_kept_trans [OF s(3)] show ?case
    by (simp add: HEAP0_eq u)
qed

lemma reheap_correct:
  assumes "indexed N heap ws" "N + 3 \<le> length heap" "\<forall>i. in_heap N i \<longrightarrow> cached ws (heap ! i)"
  shows "verify_heap (fst (reheap heap N ws)) N (snd (reheap heap N ws)) \<and> heap_kept N heap ws (reheap heap N ws)"
proof -
  define h where "h = fst (reheap heap N ws)"
  define ws' where "ws' = snd (reheap heap N ws)"
  have "\<forall>j. in_heap 0 j \<longrightarrow> ordered_at heap j" by (auto simp: in_heap_def)
  from reheap_from_correct [OF this assms(1) _ assms(2), of N]
  have r: "\<forall>j. in_heap N j \<longrightarrow> ordered_at h j" "indexed N h ws'" and k: "heap_kept N heap ws (h, ws')"
    by (simp_all add: reheap_def h_def ws'_def)
  have e: "set (heap_entries h N) = set (heap_entries heap N)" "N + 3 \<le> length h"
    using k assms(2) mset_eq_setD unfolding heap_kept_def by auto
  have "cached ws' (h ! i)" if "in_heap N i" for i
  proof -
    have "h ! i \<in> set (heap_entries heap N)" using set_heap_entries [OF e(2)] that e(1) by blast
    then obtain j where "in_heap N j" "h ! i = heap ! j" using set_heap_entries [OF assms(2)] by blast
    then show ?thesis
      using assms(3) k same_but_activeD(1) [of ws ws'] by (simp add: cached_def heap_kept_def)
  qed
  with r k show ?thesis unfolding h_def [symmetric] ws'_def [symmetric] verify_heap_iff indexed_def
    by (simp add: h_def ws'_def)
qed

end
