(* ===== verification/Ev_Timers.thy ===== *)
theory Ev_Timers
  imports Ev_Heap "HOL-Library.Monad_Syntax"
begin

text \<open>
  The timers and the pending queues of the event loop, \<open>src/libev/ev.c\<close>: starting, stopping and
  restarting timers, making the expired ones pending (\<open>timers_reify\<close>), and calling the pending
  watchers back in the order of their priorities (\<open>ev_invoke_pending\<close>).

  The loop is the record \<open>ev_loop\<close>, the variables of \<open>ev_vars.h\<close> these functions use; a pending
  queue and the array of reverse feeds are lists as long as their counters, and the growth of their
  allocations is left out: it has no effect on what they hold, but for more than \<open>2 ^ 26\<close> entries
  its size overflows \<open>int\<close> as that of the array of timers does, which is modelled. Slots that an array gains when it grows hold an arbitrary
  entry. A failed assertion, a priority outside the queues and an overflow of \<open>int\<close> are \<open>None\<close>; so is
  a loop that never ends. A callback is an argument that may change the loop and a state of its own.
\<close>

section \<open>The loop\<close>

record ev_loop =
  l_mn_now :: ev_tstamp
  l_timers :: "anhe list"
  l_timercnt :: nat
  l_pendings :: "(wid \<times> u32) list list"
  l_pendingpri :: nat
  l_rfeeds :: "wid list"
  l_activecnt :: int
  l_ws :: store

definition EV_MINPRI :: int where "EV_MINPRI = - 2"
definition EV_MAXPRI :: int where "EV_MAXPRI = 2"
definition NUMPRI :: nat where "NUMPRI = nat (EV_MAXPRI - EV_MINPRI + 1)"
definition EV_TIMER :: u32 where "EV_TIMER = 0x100"

text \<open>The dummy watcher that takes the place of a watcher whose pending event was cleared.\<close>

definition pending_w :: wid where "pending_w = 0"

definition ABSPRI :: "watcher \<Rightarrow> nat ub" where
  "ABSPRI w = (if EV_MINPRI \<le> w_priority w \<and> w_priority w \<le> EV_MAXPRI then Some (nat (w_priority w - EV_MINPRI)) else None)"

definition upd_w :: "wid \<Rightarrow> (watcher \<Rightarrow> watcher) \<Rightarrow> ev_loop \<Rightarrow> ev_loop" where
  "upd_w w f l = l\<lparr>l_ws := (l_ws l)(w := f (l_ws l w))\<rparr>"

section \<open>Growing arrays\<close>

definition MALLOC_ROUND :: int where "MALLOC_ROUND = 4096"

text \<open>The loop that doubles \<open>ncur = cur + 1\<close> until it holds \<open>cnt\<close> elements.\<close>

function double_until :: "nat \<Rightarrow> nat \<Rightarrow> nat" where
  "double_until cur cnt = (let ncur = 2 * (cur + 1) in if cnt > ncur then double_until (ncur - 1) cnt else ncur)"
  by pat_completeness auto
termination
  by (relation "measure (\<lambda>(cur, cnt). cnt - cur)") auto

declare double_until.simps [simp del]

text \<open>\<open>sizeof (void *)\<close> is 8. A product that leaves the range of \<open>int\<close> is undefined.\<close>

definition array_nextsize :: "int \<Rightarrow> nat \<Rightarrow> nat \<Rightarrow> nat ub" where
  "array_nextsize elem cur cnt =
     (let ncur = int (double_until cur cnt) in
      if elem * ncur + elem + (MALLOC_ROUND - 1) + 8 * 4 \<ge> 2 ^ 31 then None
      else if elem * ncur > MALLOC_ROUND - 8 * 4 then
        Some (nat (((elem * ncur + elem + (MALLOC_ROUND - 1) + 8 * 4) div MALLOC_ROUND * MALLOC_ROUND - 8 * 4) div elem))
      else Some (nat ncur))"

definition array_needsize :: "int \<Rightarrow> 'a \<Rightarrow> 'a list \<Rightarrow> nat \<Rightarrow> 'a list ub" where
  "array_needsize elem x base cnt =
     (if cnt > length base then do {
        n \<leftarrow> array_nextsize elem (length base) cnt;
        Some (base @ replicate (n - length base) x)
      }
      else Some base)"

section \<open>Pending events\<close>

unbundle bit_operations_syntax

definition ev_feed_event :: "wid \<Rightarrow> u32 \<Rightarrow> ev_loop \<Rightarrow> ev_loop ub" where
  "ev_feed_event w revents l = do {
     pri \<leftarrow> ABSPRI (l_ws l w);
     let q = l_pendings l ! pri;
     let p = w_pending (l_ws l w);
     let l' = (if p \<noteq> 0 then
                 l\<lparr>l_pendings := (l_pendings l)[pri := q[p - 1 := (fst (q ! (p - 1)), snd (q ! (p - 1)) OR revents)]]\<rparr>
               else
                 (upd_w w (\<lambda>v. v\<lparr>w_pending := length q + 1\<rparr>) l)\<lparr>l_pendings := (l_pendings l)[pri := q @ [(w, revents)]]\<rparr>);
     Some (l'\<lparr>l_pendingpri := NUMPRI - 1\<rparr>)
   }"

definition feed_reverse :: "wid \<Rightarrow> ev_loop \<Rightarrow> ev_loop" where
  "feed_reverse w l = l\<lparr>l_rfeeds := l_rfeeds l @ [w]\<rparr>"

fun feed_all :: "wid list \<Rightarrow> u32 \<Rightarrow> ev_loop \<Rightarrow> ev_loop ub" where
  "feed_all [] revents l = Some l"
| "feed_all (w # ws) revents l = do { l1 \<leftarrow> ev_feed_event w revents l; feed_all ws revents l1 }"

definition feed_reverse_done :: "u32 \<Rightarrow> ev_loop \<Rightarrow> ev_loop ub" where
  "feed_reverse_done revents l = do {
     l1 \<leftarrow> feed_all (rev (l_rfeeds l)) revents l;
     Some (l1\<lparr>l_rfeeds := []\<rparr>)
   }"

definition clear_pending :: "wid \<Rightarrow> ev_loop \<Rightarrow> ev_loop ub" where
  "clear_pending w l =
     (let p = w_pending (l_ws l w) in
      if p \<noteq> 0 then do {
        pri \<leftarrow> ABSPRI (l_ws l w);
        let q = l_pendings l ! pri;
        Some ((upd_w w (\<lambda>v. v\<lparr>w_pending := 0\<rparr>) l)\<lparr>l_pendings := (l_pendings l)[pri := q[p - 1 := (pending_w, snd (q ! (p - 1)))]]\<rparr>)
      }
      else Some l)"

definition ev_clear_pending :: "wid \<Rightarrow> ev_loop \<Rightarrow> (u32 \<times> ev_loop) ub" where
  "ev_clear_pending w l =
     (let p = w_pending (l_ws l w) in
      if p \<noteq> 0 then do {
        pri \<leftarrow> ABSPRI (l_ws l w);
        let q = l_pendings l ! pri;
        Some (snd (q ! (p - 1)),
              (upd_w w (\<lambda>v. v\<lparr>w_pending := 0\<rparr>) l)\<lparr>l_pendings := (l_pendings l)[pri := q[p - 1 := (pending_w, snd (q ! (p - 1)))]]\<rparr>)
      }
      else Some (0, l))"

definition ev_pending_count :: "ev_loop \<Rightarrow> nat" where
  "ev_pending_count l = sum_list (map length (l_pendings l))"

text \<open>\<open>ev_invoke_pending\<close>: the pending event of the highest priority that has one is taken from the end
  of its queue and called back; a callback may feed further events, which makes the search start
  again at the highest priority.\<close>

type_synonym 's callback = "wid \<Rightarrow> u32 \<Rightarrow> ev_loop \<times> 's \<Rightarrow> (ev_loop \<times> 's) option"

definition EV_CB_INVOKE :: "'s callback \<Rightarrow> 's callback" where
  "EV_CB_INVOKE cb w revents s = (if w = pending_w then Some s else cb w revents s)"

partial_function (option) invoke_loop :: "'s callback \<Rightarrow> ev_loop \<times> 's \<Rightarrow> (ev_loop \<times> 's) option" where
  "invoke_loop cb s =
     (let l = fst s; pri = l_pendingpri l; q = l_pendings l ! pri in
      if q \<noteq> [] then
        Option.bind
          (EV_CB_INVOKE cb (fst (last q)) (snd (last q))
             (upd_w (fst (last q)) (\<lambda>v. v\<lparr>w_pending := 0\<rparr>) l\<lparr>l_pendings := (l_pendings l)[pri := butlast q]\<rparr>, snd s))
          (invoke_loop cb)
      else if pri \<noteq> 0 then invoke_loop cb (l\<lparr>l_pendingpri := pri - 1\<rparr>, snd s)
      else Some s)"

definition ev_invoke_pending :: "'s callback \<Rightarrow> ev_loop \<times> 's \<Rightarrow> (ev_loop \<times> 's) option" where
  "ev_invoke_pending cb s = invoke_loop cb ((fst s)\<lparr>l_pendingpri := NUMPRI - 1\<rparr>, snd s)"

section \<open>Timers\<close>

definition pri_adjust :: "watcher \<Rightarrow> watcher" where
  "pri_adjust w =
     (let p1 = (if w_priority w < EV_MINPRI then EV_MINPRI else w_priority w);
          p2 = (if p1 > EV_MAXPRI then EV_MAXPRI else p1)
      in w\<lparr>w_priority := p2\<rparr>)"

definition ev_start :: "wid \<Rightarrow> nat \<Rightarrow> ev_loop \<Rightarrow> ev_loop" where
  "ev_start w active l = (upd_w w (\<lambda>v. (pri_adjust v)\<lparr>w_active := active\<rparr>) l)\<lparr>l_activecnt := l_activecnt l + 1\<rparr>"

definition ev_stop :: "wid \<Rightarrow> ev_loop \<Rightarrow> ev_loop" where
  "ev_stop w l = (upd_w w (\<lambda>v. v\<lparr>w_active := 0\<rparr>) l)\<lparr>l_activecnt := l_activecnt l - 1\<rparr>"

definition with_heap :: "anhe list \<times> store \<Rightarrow> ev_loop \<Rightarrow> ev_loop" where
  "with_heap hw l = l\<lparr>l_timers := fst hw, l_ws := snd hw\<rparr>"

text \<open>\<open>ANHE_at_cache\<close> of the entry at position \<open>k\<close>.\<close>

definition cache_at :: "nat \<Rightarrow> ev_loop \<Rightarrow> ev_loop" where
  "cache_at k l = l\<lparr>l_timers := (l_timers l)[k := (l_timers l ! k)\<lparr>he_at := w_at (l_ws l (he_w (l_timers l ! k)))\<rparr>]\<rparr>"

definition blank_entry :: anhe where
  "blank_entry = \<lparr>he_at = 0, he_w = pending_w\<rparr>"

definition ev_timer_start :: "wid \<Rightarrow> ev_loop \<Rightarrow> ev_loop ub" where
  "ev_timer_start w l =
     (if w_active (l_ws l w) \<noteq> 0 then Some l
      else
        let l1 = upd_w w (\<lambda>v. v\<lparr>w_at := w_at v + l_mn_now l\<rparr>) l in
        if w_repeat (l_ws l w) < 0 then None
        else
          let l2 = l1\<lparr>l_timercnt := l_timercnt l1 + 1\<rparr>;
              k = l_timercnt l2 + HEAP0 - 1;
              l3 = ev_start w k l2
          in do {
            ts \<leftarrow> array_needsize 16 blank_entry (l_timers l3) (k + 1);
            let l4 = l3\<lparr>l_timers := ts[k := (ts ! k)\<lparr>he_w := w\<rparr>]\<rparr>;
            let l5 = cache_at k l4;
            Some (with_heap (upheap (l_timers l5) (l_ws l5) k) l5)
          })"

definition ev_timer_stop :: "wid \<Rightarrow> ev_loop \<Rightarrow> ev_loop ub" where
  "ev_timer_stop w l = do {
     l1 \<leftarrow> clear_pending w l;
     let active = w_active (l_ws l1 w);
     if active = 0 then Some l1
     else if he_w (l_timers l1 ! active) \<noteq> w \<or> l_timercnt l1 = 0 then None
     else
       let cnt = l_timercnt l1 - 1;
           l2 = l1\<lparr>l_timercnt := cnt\<rparr>;
           l3 = (if active < cnt + HEAP0 then
                   let ts = (l_timers l2)[active := l_timers l2 ! (cnt + HEAP0)]
                   in with_heap (adjustheap ts cnt (l_ws l2) active) l2
                 else l2);
           l4 = upd_w w (\<lambda>v. v\<lparr>w_at := w_at v - l_mn_now l3\<rparr>) l3
       in Some (ev_stop w l4)
   }"

definition ev_timer_again :: "wid \<Rightarrow> ev_loop \<Rightarrow> ev_loop ub" where
  "ev_timer_again w l = do {
     l1 \<leftarrow> clear_pending w l;
     let v = l_ws l1 w;
     if w_active v \<noteq> 0 then
       if w_repeat v \<noteq> 0 then
         let l2 = upd_w w (\<lambda>v. v\<lparr>w_at := l_mn_now l1 + w_repeat v\<rparr>) l1;
             l3 = cache_at (w_active v) l2
         in Some (with_heap (adjustheap (l_timers l3) (l_timercnt l3) (l_ws l3) (w_active v)) l3)
       else ev_timer_stop w l1
     else if w_repeat v \<noteq> 0 then ev_timer_start w (upd_w w (\<lambda>v. v\<lparr>w_at := w_repeat v\<rparr>) l1)
     else Some l1
   }"

definition ev_timer_remaining :: "wid \<Rightarrow> ev_loop \<Rightarrow> ev_tstamp" where
  "ev_timer_remaining w l = w_at (l_ws l w) - (if w_active (l_ws l w) \<noteq> 0 then l_mn_now l else 0)"

text \<open>The body of the loop of \<open>timers_reify\<close> and the loop.\<close>

definition reify_step :: "ev_loop \<Rightarrow> ev_loop ub" where
  "reify_step l =
     (let w = he_w (l_timers l ! HEAP0); now = l_mn_now l in
      do {
        l' \<leftarrow> (if w_repeat (l_ws l w) \<noteq> 0 then
                 let at = w_at (l_ws l w) + w_repeat (l_ws l w);
                     l1 = upd_w w (\<lambda>v. v\<lparr>w_at := (if at < now then now else at)\<rparr>) l
                 in if w_repeat (l_ws l w) \<le> 0 then None
                    else let l2 = cache_at HEAP0 l1
                         in Some (with_heap (downheap (l_timers l2) (l_timercnt l2) (l_ws l2) HEAP0) l2)
               else ev_timer_stop w l);
        Some (feed_reverse w l')
      })"

definition timer_due :: "ev_loop \<Rightarrow> bool" where
  "timer_due l \<longleftrightarrow> l_timercnt l \<noteq> 0 \<and> he_at (l_timers l ! HEAP0) < l_mn_now l"

partial_function (option) reify_loop :: "ev_loop \<Rightarrow> ev_loop option" where
  "reify_loop l = (if timer_due l then Option.bind (reify_step l) reify_loop else Some l)"

definition timers_reify :: "ev_loop \<Rightarrow> ev_loop option" where
  "timers_reify l = (if timer_due l then do { l1 \<leftarrow> reify_loop l; feed_reverse_done EV_TIMER l1 } else Some l)"

definition timers_reschedule :: "ev_tstamp \<Rightarrow> ev_loop \<Rightarrow> ev_loop" where
  "timers_reschedule adj l = fold (\<lambda>i l. let k = i + HEAP0; w = he_w (l_timers l ! k) in
     cache_at k (upd_w w (\<lambda>v. v\<lparr>w_at := w_at v + adj\<rparr>) l)) [0..<l_timercnt l] l"

section \<open>The size of a grown array\<close>

lemma double_until_bounds: "cnt \<le> double_until cur cnt \<and> double_until cur cnt \<le> max (2 * (cur + 1)) (2 * cnt)"
proof (induction cur cnt rule: double_until.induct)
  case (1 cur cnt)
  show ?case
  proof (cases "cnt > 2 * (cur + 1)")
    case True
    then have "double_until cur cnt = double_until (2 * (cur + 1) - 1) cnt"
      by (subst double_until.simps) (simp only: Let_def if_True)
    moreover have "cnt \<le> double_until (2 * (cur + 1) - 1) cnt
        \<and> double_until (2 * (cur + 1) - 1) cnt \<le> max (2 * ((2 * (cur + 1) - 1) + 1)) (2 * cnt)"
      by (rule "1.IH" [OF refl True])
    ultimately show ?thesis using True by (simp add: max_def split: if_splits)
  next
    case False
    then have "double_until cur cnt = 2 * (cur + 1)"
      by (subst double_until.simps) (simp only: Let_def if_False)
    with False show ?thesis by simp
  qed
qed

lemma array_nextsize_ge:
  assumes "0 < elem" "cur < cnt" "elem * (2 * int cnt + 1) + 4127 < 2 ^ 31"
  shows "\<exists>n \<ge> cnt. array_nextsize elem cur cnt = Some n"
proof -
  define m where "m = int (double_until cur cnt)"
  have m: "int cnt \<le> m" "m \<le> 2 * int cnt"
    using double_until_bounds [of cnt cur] assms(2) by (simp_all add: m_def)
  define x where "x = elem * m + elem + 4127"
  have "elem * m \<le> elem * (2 * int cnt)" using m(2) assms(1) by (intro mult_left_mono) simp_all
  moreover have "elem * (2 * int cnt + 1) = elem * (2 * int cnt) + elem" by (simp add: algebra_simps)
  ultimately have small: "x < 2 ^ 31" using assms(3) unfolding x_def by linarith
  have "x = x div 4096 * 4096 + x mod 4096" "x mod 4096 < 4096" by simp_all
  then have "elem * m + elem \<le> x div 4096 * 4096 - 32" unfolding x_def by linarith
  then have "(elem * m + elem) div elem \<le> (x div 4096 * 4096 - 32) div elem" by (rule zdiv_mono1 [OF _ assms(1)])
  moreover have "(elem * m + elem) div elem = m + 1" using assms(1) by simp
  ultimately have "cnt \<le> nat ((x div 4096 * 4096 - 32) div elem)" using m(1) by linarith
  moreover have "cnt \<le> nat m" using m(1) by linarith
  ultimately show ?thesis using small
    unfolding array_nextsize_def m_def [symmetric] Let_def MALLOC_ROUND_def
    by (simp add: x_def add.commute add.left_commute)
qed

lemma array_needsize_grown:
  assumes "0 < elem" "elem * (2 * int cnt + 1) + 4127 < 2 ^ 31"
  shows "\<exists>ys. array_needsize elem x xs cnt = Some (xs @ ys) \<and> cnt \<le> length (xs @ ys)"
proof (cases "cnt > length xs")
  case True
  then obtain n where "cnt \<le> n" "array_nextsize elem (length xs) cnt = Some n"
    using array_nextsize_ge [OF assms(1) True assms(2)] by blast
  then show ?thesis using True by (simp add: array_needsize_def)
qed (simp add: array_needsize_def)

section \<open>The heap of the timers\<close>

definition heap_ok :: "ev_loop \<Rightarrow> bool" where
  "heap_ok l \<longleftrightarrow> verify_heap (l_timers l) (l_timercnt l) (l_ws l)
     \<and> (l_timercnt l = 0 \<or> l_timercnt l + 3 \<le> length (l_timers l))"

definition timer_ids :: "ev_loop \<Rightarrow> wid set" where
  "timer_ids l = he_w ` set (heap_entries (l_timers l) (l_timercnt l))"

lemma heap_entries_0 [simp]: "heap_entries h 0 = []"
  by (simp add: heap_entries_def)

lemma verify_heap_0 [simp]: "verify_heap h 0 ws"
  by (simp add: verify_heap_def)

lemma verify_index: "verify_heap h N ws \<Longrightarrow> indexed N h ws"
  by (simp add: verify_heap_iff indexed_def)

text \<open>Giving the entry at \<open>k\<close> another time or another watcher leaves everything else in place.\<close>

lemma heap_replace:
  assumes "verify_heap h N ws" "N + 3 \<le> length h" "in_heap N k"
    and "\<And>i. in_heap N i \<Longrightarrow> i \<noteq> k \<Longrightarrow> he_w e \<noteq> he_w (h ! i)"
    and "\<And>i. in_heap N i \<Longrightarrow> i \<noteq> k \<Longrightarrow> ws' (he_w (h ! i)) = ws (he_w (h ! i))"
    and "cached ws' e"
  shows "order_but N k (h[k := e])" "index_but N k (h[k := e]) ws' (he_w (h[k := e] ! k))"
    "\<forall>i. in_heap N i \<longrightarrow> cached ws' (h[k := e] ! i)"
proof -
  have kl: "k < length h" using assms(2,3) by (simp add: in_heap_def)
  have nth: "h[k := e] ! i = (if i = k then e else h ! i)" for i using kl by (simp add: nth_list_update)
  have v: "w_active (ws (he_w (h ! i))) = i" "ordered_at h i" "cached ws (h ! i)" if "in_heap N i" for i
    using assms(1) that by (simp_all add: verify_heap_iff)
  have par: "he_at (h ! HPARENT i) \<le> he_at (h ! i)" if "in_heap N i" "3 < i" for i
    using v(2) [OF that(1)] that(2) by (simp add: ordered_at_def)
  have "ordered_at (h[k := e]) i" if "in_heap N i" "i \<noteq> k" "i = 3 \<or> HPARENT i \<noteq> k" for i
    using v(2) [OF that(1)] that unfolding ordered_at_def nth by auto
  moreover have "he_at (h[k := e] ! HPARENT k) \<le> he_at (h[k := e] ! i)"
    if i: "in_heap N i" "3 < i" "HPARENT i = k" "3 < k" for i
  proof -
    have "HPARENT k \<noteq> k" "i \<noteq> k" using HPARENT_less [OF i(4)] HPARENT_less [OF i(2)] i(3) by auto
    then show ?thesis using par [OF assms(3) i(4)] par [OF i(1,2)] i(3) unfolding nth by auto
  qed
  ultimately show "order_but N k (h[k := e])" unfolding order_but_def by blast
  show "index_but N k (h[k := e]) ws' (he_w (h[k := e] ! k))"
    using v(1) assms(4,5) unfolding index_but_def nth by (metis (full_types))
  show "\<forall>i. in_heap N i \<longrightarrow> cached ws' (h[k := e] ! i)"
    using v(3) assms(5,6) unfolding nth cached_def by auto
qed

lemma verify_heap_cong:
  assumes "verify_heap h N ws" "N = 0 \<or> N + 3 \<le> length h"
    and "\<And>w. w \<in> he_w ` set (heap_entries h N) \<Longrightarrow> w_active (ws' w) = w_active (ws w) \<and> w_at (ws' w) = w_at (ws w)"
  shows "verify_heap h N ws'"
proof (cases "N = 0")
  case False
  then have "he_w (h ! i) \<in> he_w ` set (heap_entries h N)" if "in_heap N i" for i
    using set_heap_entries [of N h] assms(2) that by auto
  with assms(1,3) show ?thesis unfolding verify_heap_iff cached_def by simp
qed simp

text \<open>The root is the earliest entry.\<close>

lemma root_least:
  assumes "verify_heap h N ws" "in_heap N i"
  shows "he_at (h ! 3) \<le> he_at (h ! i)"
  using assms(2)
proof (induction i rule: less_induct)
  case (less i)
  show ?case
  proof (cases "i = 3")
    case False
    then have i: "3 < i" using less.prems by (simp add: in_heap_def)
    have "he_at (h ! 3) \<le> he_at (h ! HPARENT i)"
      using less.IH [of "HPARENT i"] HPARENT_less [OF i] less.prems by (simp add: in_heap_def)
    also have "\<dots> \<le> he_at (h ! i)" using assms(1) less.prems i by (auto simp: verify_heap_iff ordered_at_def)
    finally show ?thesis .
  qed simp
qed

lemma in_entries: "N + 3 \<le> length h \<Longrightarrow> in_heap N i \<Longrightarrow> h ! i \<in> set (heap_entries h N)"
  using set_heap_entries [of N h] by blast

lemma in_timer_ids: "heap_ok l \<Longrightarrow> in_heap (l_timercnt l) i \<Longrightarrow> he_w (l_timers l ! i) \<in> timer_ids l"
  unfolding heap_ok_def timer_ids_def using in_entries [of "l_timercnt l" "l_timers l" i] by (auto simp: in_heap_def)

lemma heap_entries_Suc:
  "N + 3 < length h \<Longrightarrow> heap_entries h (Suc N) = heap_entries h N @ [h ! (N + 3)]"
  by (simp add: heap_entries_eq take_Suc_conv_app_nth add.commute)

lemma heap_entries_cong:
  assumes "N = 0 \<or> N + 3 \<le> length h" "N = 0 \<or> N + 3 \<le> length h'" "\<And>i. in_heap N i \<Longrightarrow> h' ! i = h ! i"
  shows "heap_entries h' N = heap_entries h N"
proof (cases "N = 0")
  case False
  with assms show ?thesis by (intro nth_equalityI) (auto simp: heap_entries_eq in_heap_def)
qed simp

lemma heap_keptD:
  assumes "heap_kept N h ws (h', ws')"
  shows "he_w ` set (heap_entries h' N) = he_w ` set (heap_entries h N)" "length h' = length h" "same_but_active ws ws'"
    "w \<notin> he_w ` set (heap_entries h N) \<Longrightarrow> ws' w = ws w"
  using assms mset_eq_setD unfolding heap_kept_def by auto

lemma pri_adjust_fields [simp]:
  "w_at (pri_adjust v) = w_at v" "w_active (pri_adjust v) = w_active v" "w_repeat (pri_adjust v) = w_repeat v"
  "w_pending (pri_adjust v) = w_pending v" "pri_adjust (v\<lparr>w_at := a\<rparr>) = (pri_adjust v)\<lparr>w_at := a\<rparr>"
  by (simp_all add: pri_adjust_def Let_def)

lemma entry_eta: "(e :: anhe)\<lparr>he_w := w, he_at := a\<rparr> = \<lparr>he_at = a, he_w = w\<rparr>"
  by (cases e) simp

lemma timer_start_heap:
  assumes ok: "heap_ok l" and w: "w_active (l_ws l w) = 0" "w \<notin> timer_ids l" "0 \<le> w_repeat (l_ws l w)"
    and room: "16 * (2 * int (l_timercnt l + 4) + 1) + 4127 < 2 ^ 31"
  shows "\<exists>l'. ev_timer_start w l = Some l' \<and> heap_ok l' \<and> timer_ids l' = insert w (timer_ids l)
    \<and> l_timercnt l' = l_timercnt l + 1
    \<and> same_but_active ((l_ws l)(w := (pri_adjust (l_ws l w))\<lparr>w_at := w_at (l_ws l w) + l_mn_now l\<rparr>)) (l_ws l')
    \<and> (\<forall>v. v \<notin> timer_ids l' \<longrightarrow> l_ws l' v = l_ws l v)
    \<and> l_pendings l' = l_pendings l \<and> l_rfeeds l' = l_rfeeds l \<and> l_mn_now l' = l_mn_now l"
proof -
  define N where "N = l_timercnt l"
  define at where "at = w_at (l_ws l w) + l_mn_now l"
  define ws1 where "ws1 = (l_ws l)(w := (pri_adjust (l_ws l w))\<lparr>w_at := at, w_active := N + 3\<rparr>)"
  have HK: "l_timercnt l + 1 + HEAP0 - 1 = N + 3" by (simp add: N_def HEAP0_eq)
  obtain ys where ys: "array_needsize 16 blank_entry (l_timers l) (N + 3 + 1) = Some (l_timers l @ ys)"
      "N + 3 + 1 \<le> length (l_timers l @ ys)"
    using array_needsize_grown [of 16 "N + 3 + 1" blank_entry "l_timers l"] room by (auto simp: N_def)
  define h where "h = (l_timers l @ ys)[N + 3 := \<lparr>he_at = at, he_w = w\<rparr>]"
  obtain h' ws' where up: "upheap h ws1 (N + 3) = (h', ws')" by (cases "upheap h ws1 (N + 3)")
  have hl: "Suc N + 3 \<le> length h" using ys(2) by (simp add: h_def)
  have hk: "h ! (N + 3) = \<lparr>he_at = at, he_w = w\<rparr>" using ys(2) by (simp add: h_def)
  have hi: "h ! i = l_timers l ! i" if "in_heap N i" for i
    using that ok by (auto simp: h_def in_heap_def heap_ok_def N_def nth_append)
  have v: "w_active (l_ws l (he_w (h ! i))) = i" "ordered_at (l_timers l) i" "cached (l_ws l) (h ! i)" "he_w (h ! i) \<noteq> w"
    if "in_heap N i" for i
    using ok that w(2) in_timer_ids [OF ok, of i] by (auto simp: heap_ok_def verify_heap_iff N_def [symmetric] hi)
  have "\<forall>i. in_heap N i \<longrightarrow> ordered_at h i"
  proof (intro allI impI)
    fix i assume i: "in_heap N i"
    show "ordered_at h i"
    proof (cases "i = 3")
      case False
      then have "in_heap N (HPARENT i)" using i HPARENT_less [of i] by (simp add: in_heap_def)
      then show ?thesis using v(2) [OF i] hi [OF i] hi by (simp add: ordered_at_def)
    qed (simp add: ordered_at_def)
  qed
  moreover have "index_but (Suc N) (N + 3) h ws1 (he_w (h ! (N + 3)))"
    unfolding index_but_def
  proof (intro allI impI)
    fix i assume "in_heap (Suc N) i \<and> i \<noteq> N + 3"
    then have "in_heap N i" by (auto simp: in_heap_def)
    with v(1,4) [of i] show "w_active (ws1 (he_w (h ! i))) = i \<and> he_w (h ! i) \<noteq> he_w (h ! (N + 3))"
      by (simp add: ws1_def hk)
  qed
  ultimately have post: "heap_post (Suc N) h (N + 3) (h ! (N + 3)) ws1 (h', ws')"
    using upheap_last_correct [of N h ws1] hl up by simp
  have "cached ws1 (h ! i)" if "in_heap (Suc N) i" for i
  proof (cases "i = N + 3")
    case False
    then have i: "in_heap N i" using that by (auto simp: in_heap_def)
    then show ?thesis using v(3,4) [OF i] by (simp add: cached_def ws1_def)
  qed (simp add: hk cached_def ws1_def)
  then have ver: "verify_heap h' (Suc N) ws'" by (intro verify_of_post [OF post hl]) blast
  have kept: "heap_kept (Suc N) h ws1 (h', ws')" by (rule heap_kept_of_post [OF post hl])
  have ent: "heap_entries h N = heap_entries (l_timers l) N"
    using ok hl hi by (intro heap_entries_cong) (auto simp: heap_ok_def N_def)
  then have ids: "he_w ` set (heap_entries h (Suc N)) = insert w (timer_ids l)"
    using heap_entries_Suc [of N h] hl by (simp add: hk timer_ids_def N_def [symmetric])
  define l' where "l' = l\<lparr>l_timercnt := Suc N, l_timers := h', l_ws := ws', l_activecnt := l_activecnt l + 1\<rparr>"
  have run: "ev_timer_start w l = Some l'"
  proof -
    define K where "K = N + 3"
    define l3 where "l3 = l\<lparr>l_timercnt := Suc N, l_ws := ws1, l_activecnt := l_activecnt l + 1\<rparr>"
    define l2 where "l2 = (upd_w w (\<lambda>v. v\<lparr>w_at := w_at v + l_mn_now l\<rparr>) l)\<lparr>l_timercnt := Suc N\<rparr>"
    have cnt: "l_timercnt (upd_w w (\<lambda>v. v\<lparr>w_at := w_at v + l_mn_now l\<rparr>) l) + 1 = Suc N" "l_timercnt l2 + HEAP0 - 1 = K"
      by (simp_all add: upd_w_def N_def l2_def HEAP0_eq K_def)
    have l3: "ev_start w K l2 = l3"
      by (simp add: l3_def l2_def ev_start_def upd_w_def ws1_def at_def K_def)
    have c: "cache_at K (l3\<lparr>l_timers := (l_timers l @ ys)[K := ((l_timers l @ ys) ! K)\<lparr>he_w := w\<rparr>]\<rparr>) = l3\<lparr>l_timers := h\<rparr>"
      using ys(2) by (simp add: cache_at_def l3_def h_def ws1_def entry_eta K_def)
    have t: "array_needsize 16 blank_entry (l_timers l3) (K + 1) = Some (l_timers l @ ys)"
      using ys(1) by (simp add: l3_def K_def)
    have nact: "\<not> w_active (l_ws l w) \<noteq> 0" "\<not> w_repeat (l_ws l w) < 0" using w by simp_all
    show ?thesis
      unfolding ev_timer_start_def if_not_P [OF nact(1)] if_not_P [OF nact(2)] Let_def cnt(1) l2_def [symmetric] cnt(2) l3 t Option.bind.bind_lunit c
      by (simp add: with_heap_def l3_def l'_def up [folded K_def])
  qed
  have "same_but_active ((l_ws l)(w := (pri_adjust (l_ws l w))\<lparr>w_at := at\<rparr>)) ws'"
  proof (rule same_but_active_trans [OF _ heap_keptD(3) [OF kept]])
    show "same_but_active ((l_ws l)(w := (pri_adjust (l_ws l w))\<lparr>w_at := at\<rparr>)) ws1"
      by (simp add: ws1_def same_but_active_def)
  qed
  moreover have "ws' v = l_ws l v" if "v \<notin> insert w (timer_ids l)" for v
    using heap_keptD(4) [OF kept, of v] that ids by (simp add: ws1_def)
  ultimately show ?thesis
    using run ver hl heap_keptD(1,2) [OF kept] ids
    by (intro exI [of _ l']) (simp add: l'_def heap_ok_def timer_ids_def N_def [symmetric] at_def [symmetric])
qed

text \<open>The part of \<open>ev_timer_stop\<close> behind the assertions.\<close>

definition stop_heap :: "wid \<Rightarrow> ev_loop \<Rightarrow> ev_loop" where
  "stop_heap w l =
     (let active = w_active (l_ws l w); cnt = l_timercnt l - 1; l2 = l\<lparr>l_timercnt := cnt\<rparr>;
          l3 = (if active < cnt + HEAP0 then
                  let ts = (l_timers l2)[active := l_timers l2 ! (cnt + HEAP0)]
                  in with_heap (adjustheap ts cnt (l_ws l2) active) l2
                else l2);
          l4 = upd_w w (\<lambda>v. v\<lparr>w_at := w_at v - l_mn_now l3\<rparr>) l3
      in ev_stop w l4)"

lemma timer_position:
  assumes "heap_ok l" "w \<in> timer_ids l"
  shows "in_heap (l_timercnt l) (w_active (l_ws l w))" "he_w (l_timers l ! w_active (l_ws l w)) = w"
    "l_timercnt l \<noteq> 0" "l_timercnt l + 3 \<le> length (l_timers l)"
proof -
  have "l_timercnt l \<noteq> 0" using assms(2) by (cases "l_timercnt l") (auto simp: timer_ids_def)
  then have len: "l_timercnt l + 3 \<le> length (l_timers l)" using assms(1) by (simp add: heap_ok_def)
  then obtain i where i: "in_heap (l_timercnt l) i" "w = he_w (l_timers l ! i)"
    using assms(2) set_heap_entries [OF len] by (auto simp: timer_ids_def)
  then have "w_active (l_ws l w) = i" using assms(1) by (simp add: heap_ok_def verify_heap_iff)
  with i len \<open>l_timercnt l \<noteq> 0\<close> show "in_heap (l_timercnt l) (w_active (l_ws l w))"
    "he_w (l_timers l ! w_active (l_ws l w)) = w" "l_timercnt l \<noteq> 0" "l_timercnt l + 3 \<le> length (l_timers l)" by auto
qed

lemma verify_prefix: "verify_heap h (Suc N) ws \<Longrightarrow> verify_heap h N ws"
  by (simp add: verify_heap_iff in_heap_def)

lemma entries_replace_last:
  assumes "in_heap N k" "N + 3 < length h"
  shows "set (heap_entries (h[k := h ! (N + 3)]) N) = {h ! i |i. in_heap (Suc N) i \<and> i \<noteq> k}"
proof -
  have "set (heap_entries (h[k := h ! (N + 3)]) N) = {h[k := h ! (N + 3)] ! i |i. in_heap N i}"
    using assms by (intro set_heap_entries) simp
  also have "\<dots> = {h ! i |i. in_heap (Suc N) i \<and> i \<noteq> k}" (is "?A = ?B")
  proof (intro set_eqI iffI)
    fix x assume "x \<in> ?A"
    then obtain i where i: "in_heap N i" "x = h[k := h ! (N + 3)] ! i" by blast
    show "x \<in> ?B"
    proof (cases "i = k")
      case True
      with i assms have "x = h ! (N + 3)" "in_heap (Suc N) (N + 3)" "N + 3 \<noteq> k" by (auto simp: in_heap_def)
      then show ?thesis by blast
    next
      case False
      with i have "x = h ! i" "in_heap (Suc N) i" by (auto simp: in_heap_def)
      with False show ?thesis by blast
    qed
  next
    fix x assume "x \<in> ?B"
    then obtain i where i: "in_heap (Suc N) i" "i \<noteq> k" "x = h ! i" by blast
    show "x \<in> ?A"
    proof (cases "i = N + 3")
      case True
      then have "x = h[k := h ! (N + 3)] ! k" using assms i by (simp add: in_heap_def)
      with assms(1) show ?thesis by blast
    next
      case False
      then have "x = h[k := h ! (N + 3)] ! i" "in_heap N i" using i by (auto simp: in_heap_def)
      then show ?thesis by blast
    qed
  qed
  finally show ?thesis .
qed

lemma stop_heap_correct:
  assumes ok: "heap_ok l" and w: "w \<in> timer_ids l"
  defines "l' \<equiv> stop_heap w l"
  shows "heap_ok l'" "timer_ids l' = timer_ids l - {w}" "l_timercnt l' = l_timercnt l - 1"
    "same_but_active ((l_ws l)(w := (l_ws l w)\<lparr>w_at := w_at (l_ws l w) - l_mn_now l\<rparr>)) (l_ws l')"
    "w_active (l_ws l' w) = 0" "\<forall>v. v \<notin> timer_ids l \<longrightarrow> l_ws l' v = l_ws l v"
    "l_pendings l' = l_pendings l" "l_rfeeds l' = l_rfeeds l" "l_mn_now l' = l_mn_now l"
proof -
  define k where "k = w_active (l_ws l w)"
  define N where "N = l_timercnt l - 1"
  note pos = timer_position [OF ok w, folded k_def]
  have cnt: "l_timercnt l = Suc N" using pos(3) by (simp add: N_def)
  define h where "h = l_timers l"
  have ver: "verify_heap h (Suc N) (l_ws l)" and hl: "N + 3 < length h"
    using ok pos(4) by (simp_all add: heap_ok_def cnt h_def)
  have ids: "timer_ids l = he_w ` {h ! i |i. in_heap (Suc N) i}"
    using set_heap_entries [of "Suc N" h] hl by (simp add: timer_ids_def cnt h_def)
  have ix: "indexed (Suc N) h (l_ws l)" using ver by (rule verify_index)
  have hk: "he_w (h ! k) = w" "in_heap (Suc N) k" using pos(1,2) by (simp_all add: h_def cnt)
  have others: "he_w ` {h ! i |i. in_heap (Suc N) i \<and> i \<noteq> k} = timer_ids l - {w}"
  proof -
    have "he_w (h ! i) \<noteq> w" if "in_heap (Suc N) i" "i \<noteq> k" for i
      using indexed_distinct [OF ix that(1) hk(2) that(2)] hk(1) by simp
    with hk show ?thesis unfolding ids by blast
  qed
  define res where "res = (if k < N + 3 then adjustheap (h[k := h ! (N + 3)]) N (l_ws l) k else (h, l_ws l))"
  obtain h1 ws1 where res: "res = (h1, ws1)" by (cases res)
  have core: "verify_heap h1 N ws1 \<and> he_w ` set (heap_entries h1 N) = timer_ids l - {w} \<and> length h1 = length h
      \<and> same_but_active (l_ws l) ws1 \<and> (\<forall>v. v \<notin> timer_ids l - {w} \<longrightarrow> ws1 v = l_ws l v)"
  proof (cases "k < N + 3")
    case True
    then have kin: "in_heap N k" using hk(2) by (simp add: in_heap_def)
    have "in_heap (Suc N) (N + 3)" by (simp add: in_heap_def)
    then have ne: "\<And>i. in_heap N i \<Longrightarrow> i \<noteq> k \<Longrightarrow> he_w (h ! (N + 3)) \<noteq> he_w (h ! i)"
      using indexed_distinct [OF ix] by (simp add: in_heap_def)
    have ca: "cached (l_ws l) (h ! (N + 3))" using ver \<open>in_heap (Suc N) (N + 3)\<close> by (simp add: verify_heap_iff)
    have hl': "N + 3 \<le> length h" using hl by simp
    note rep = heap_replace [OF verify_prefix [OF ver] hl' kin ne refl ca]
    have adj: "verify_heap h1 N ws1 \<and> heap_kept N (h[k := h ! (N + 3)]) (l_ws l) (h1, ws1)"
    proof -
      have "adjustheap (h[k := h ! (N + 3)]) N (l_ws l) k = (h1, ws1)" using res True by (simp add: res_def)
      with adjustheap_correct [OF rep(1,2) kin _ rep(3)] hl show ?thesis by simp
    qed
    have e: "he_w ` set (heap_entries (h[k := h ! (N + 3)]) N) = timer_ids l - {w}"
      using entries_replace_last [OF kin hl] others by simp
    show ?thesis using adj heap_keptD [of N "h[k := h ! (N + 3)]" "l_ws l" h1 ws1] e by simp
  next
    case False
    then have k: "k = N + 3" using hk(2) by (simp add: in_heap_def)
    have "in_heap (Suc N) i \<and> i \<noteq> k \<longleftrightarrow> in_heap N i" for i by (auto simp: k in_heap_def)
    then have "{h ! i |i. in_heap (Suc N) i \<and> i \<noteq> k} = {h ! i |i. in_heap N i}" by simp
    then have "he_w ` set (heap_entries h N) = timer_ids l - {w}"
      using others set_heap_entries [of N h] hl by simp
    with False verify_prefix [OF ver] show ?thesis using res by (simp add: res_def)
  qed
  have l': "l' = l\<lparr>l_timercnt := N, l_timers := h1, l_activecnt := l_activecnt l - 1,
      l_ws := ws1(w := (ws1 w)\<lparr>w_at := w_at (ws1 w) - l_mn_now l, w_active := 0\<rparr>)\<rparr>"
    using res unfolding l'_def stop_heap_def Let_def res_def
    by (auto simp: cnt h_def k_def [symmetric] HEAP0_eq with_heap_def upd_w_def ev_stop_def)
  have ww: "ws1 w = l_ws l w" using core by simp
  show "heap_ok l'"
  proof -
    have "verify_heap h1 N (l_ws l')"
      by (rule verify_heap_cong [of h1 N ws1]) (use core hl in \<open>auto simp: l'\<close>)
    then show ?thesis using core hl by (simp add: heap_ok_def l')
  qed
  show "timer_ids l' = timer_ids l - {w}" using core by (simp add: timer_ids_def l')
  show "same_but_active ((l_ws l)(w := (l_ws l w)\<lparr>w_at := w_at (l_ws l w) - l_mn_now l\<rparr>)) (l_ws l')"
    using core ww by (simp add: l' same_but_active_def)
  show "\<forall>v. v \<notin> timer_ids l \<longrightarrow> l_ws l' v = l_ws l v" using core w by (auto simp: l')
qed (simp_all add: l'_def stop_heap_def Let_def with_heap_def upd_w_def ev_stop_def)

text \<open>Giving a timer another time and moving it to its place.\<close>

definition retime :: "wid \<Rightarrow> ev_tstamp \<Rightarrow> ev_loop \<Rightarrow> ev_loop" where
  "retime w a l =
     (let k = w_active (l_ws l w); l2 = cache_at k (upd_w w (\<lambda>v. v\<lparr>w_at := a\<rparr>) l)
      in with_heap (adjustheap (l_timers l2) (l_timercnt l2) (l_ws l2) k) l2)"

lemma retime_heap:
  fixes a :: ev_tstamp
  assumes ok: "heap_ok l" and w: "w \<in> timer_ids l"
  defines "l' \<equiv> retime w a l"
  shows "heap_ok l'" "timer_ids l' = timer_ids l" "l_timercnt l' = l_timercnt l"
    "same_but_active ((l_ws l)(w := (l_ws l w)\<lparr>w_at := a\<rparr>)) (l_ws l')"
    "\<forall>v. v \<notin> timer_ids l \<longrightarrow> l_ws l' v = l_ws l v"
    "l_pendings l' = l_pendings l" "l_rfeeds l' = l_rfeeds l" "l_mn_now l' = l_mn_now l"
proof -
  define k where "k = w_active (l_ws l w)"
  define N where "N = l_timercnt l"
  define h where "h = l_timers l"
  define e where "e = (h ! k)\<lparr>he_at := a\<rparr>"
  define ws1 where "ws1 = (l_ws l)(w := (l_ws l w)\<lparr>w_at := a\<rparr>)"
  note pos = timer_position [OF ok w, folded k_def N_def h_def]
  have ver: "verify_heap h N (l_ws l)" using ok by (simp add: heap_ok_def h_def N_def)
  have ne: "he_w e \<noteq> he_w (h ! i)" if "in_heap N i" "i \<noteq> k" for i
    using indexed_distinct [OF verify_index [OF ver] that(1) pos(1) that(2)] by (simp add: e_def)
  have same: "ws1 (he_w (h ! i)) = l_ws l (he_w (h ! i))" if "in_heap N i" "i \<noteq> k" for i
    using ne [OF that] pos(2) by (simp add: ws1_def e_def)
  have ca: "cached ws1 e" using pos(2) by (simp add: cached_def e_def ws1_def)
  note rep = heap_replace [OF ver pos(4) pos(1) ne same ca]
  obtain h1 ws2 where adj: "adjustheap (h[k := e]) N ws1 k = (h1, ws2)" by (cases "adjustheap (h[k := e]) N ws1 k")
  have core: "verify_heap h1 N ws2" "heap_kept N (h[k := e]) ws1 (h1, ws2)"
    using adjustheap_correct [OF rep(1,2) pos(1) _ rep(3)] pos(4) adj by simp_all
  have wat: "w_at (ws1 w) = a" by (simp add: ws1_def)
  have l': "l' = l\<lparr>l_timers := h1, l_ws := ws2\<rparr>"
    using adj pos(2) wat unfolding l'_def retime_def Let_def k_def [symmetric]
    by (simp add: cache_at_def upd_w_def with_heap_def h_def [symmetric] N_def [symmetric] ws1_def [symmetric] e_def)
  have "he_w ` set (heap_entries (h[k := e]) N) = he_w ` {h[k := e] ! i |i. in_heap N i}"
    using set_heap_entries [of N "h[k := e]"] pos(4) by simp
  also have "\<dots> = he_w ` {h ! i |i. in_heap N i}"
  proof -
    have "he_w (h[k := e] ! i) = he_w (h ! i)" for i
      using pos(1,4) by (cases "i = k") (simp_all add: e_def in_heap_def)
    then show ?thesis unfolding image_def by fastforce
  qed
  finally have ids: "he_w ` set (heap_entries (h[k := e]) N) = timer_ids l"
    using set_heap_entries [OF pos(4)] by (simp add: timer_ids_def h_def N_def)
  show "heap_ok l'" using core heap_keptD(2) [OF core(2)] pos(4) by (simp add: heap_ok_def l' N_def)
  show "timer_ids l' = timer_ids l" using heap_keptD(1) [OF core(2)] ids by (simp add: timer_ids_def l' N_def)
  show "same_but_active ((l_ws l)(w := (l_ws l w)\<lparr>w_at := a\<rparr>)) (l_ws l')"
    using heap_keptD(3) [OF core(2)] by (simp add: l' ws1_def)
  show "\<forall>v. v \<notin> timer_ids l \<longrightarrow> l_ws l' v = l_ws l v"
    using heap_keptD(4) [OF core(2)] ids w by (auto simp: l' ws1_def)
qed (simp_all add: l'_def retime_def Let_def with_heap_def cache_at_def upd_w_def)

section \<open>The pending queues\<close>

text \<open>Every pending watcher is in the queue of its priority, at the position it remembers, and every
  entry of a queue is a watcher that remembers it, or the dummy.\<close>

definition in_queue :: "ev_loop \<Rightarrow> nat \<Rightarrow> nat \<Rightarrow> wid \<Rightarrow> bool" where
  "in_queue l pri j w \<longleftrightarrow> pri < NUMPRI \<and> j < length (l_pendings l ! pri) \<and> fst (l_pendings l ! pri ! j) = w"

definition pend_ok :: "ev_loop \<Rightarrow> bool" where
  "pend_ok l \<longleftrightarrow> length (l_pendings l) = NUMPRI \<and> w_pending (l_ws l pending_w) = 0
   \<and> (\<forall>w. w_pending (l_ws l w) \<noteq> 0 \<longrightarrow> (\<exists>pri. ABSPRI (l_ws l w) = Some pri \<and> in_queue l pri (w_pending (l_ws l w) - 1) w))
   \<and> (\<forall>pri j w. in_queue l pri j w \<longrightarrow> w = pending_w \<or> w_pending (l_ws l w) = j + 1 \<and> ABSPRI (l_ws l w) = Some pri)"

lemma NUMPRI_eq: "NUMPRI = 5"
  by (simp add: NUMPRI_def EV_MINPRI_def EV_MAXPRI_def)

lemma ABSPRI_less: "ABSPRI w = Some pri \<Longrightarrow> pri < NUMPRI"
  by (auto simp: ABSPRI_def NUMPRI_eq EV_MINPRI_def EV_MAXPRI_def split: if_splits)

lemma ABSPRI_cong: "w_priority v = w_priority w \<Longrightarrow> ABSPRI v = ABSPRI w"
  by (simp add: ABSPRI_def)

lemma pri_adjust_ok: "ABSPRI (pri_adjust v) \<noteq> None"
  by (simp add: ABSPRI_def pri_adjust_def Let_def EV_MINPRI_def EV_MAXPRI_def)

lemma pri_adjust_id: "ABSPRI v \<noteq> None \<Longrightarrow> w_priority (pri_adjust v) = w_priority v"
  by (auto simp: ABSPRI_def pri_adjust_def Let_def split: if_splits)

text \<open>Changes that touch neither the queues nor what the watchers remember of them.\<close>

lemma pend_ok_cong:
  assumes "pend_ok l" "l_pendings l' = l_pendings l"
    and "\<And>w. w_pending (l_ws l' w) = w_pending (l_ws l w)"
    and "\<And>w. w_pending (l_ws l w) \<noteq> 0 \<Longrightarrow> ABSPRI (l_ws l' w) = ABSPRI (l_ws l w)"
  shows "pend_ok l'"
proof -
  have q: "in_queue l' = in_queue l" by (intro ext) (simp add: in_queue_def assms(2))
  show ?thesis
    using assms(1) unfolding pend_ok_def q assms(2,3)
    by (metis assms(4) add_is_0 one_neq_zero)
qed

lemma clear_pending_ok:
  assumes ok: "pend_ok l" and w: "w \<noteq> pending_w"
  shows "\<exists>l'. clear_pending w l = Some l' \<and> pend_ok l'
    \<and> l_ws l' = (l_ws l)(w := (l_ws l w)\<lparr>w_pending := 0\<rparr>)
    \<and> l_timers l' = l_timers l \<and> l_timercnt l' = l_timercnt l \<and> l_rfeeds l' = l_rfeeds l \<and> l_mn_now l' = l_mn_now l
    \<and> (w_pending (l_ws l w) = 0 \<longrightarrow> l' = l)"
proof (cases "w_pending (l_ws l w) = 0")
  case True
  then have "l_ws l = (l_ws l)(w := (l_ws l w)\<lparr>w_pending := 0\<rparr>)" by (metis fun_upd_triv watcher.surjective watcher.update_convs(2) watcher.select_convs(2))
  with True ok show ?thesis by (simp add: clear_pending_def)
next
  case False
  then obtain pri where pri: "ABSPRI (l_ws l w) = Some pri" "in_queue l pri (w_pending (l_ws l w) - 1) w"
    using ok unfolding pend_ok_def by blast
  define j where "j = w_pending (l_ws l w) - 1"
  define q where "q = l_pendings l ! pri"
  define l' where "l' = (upd_w w (\<lambda>v. v\<lparr>w_pending := 0\<rparr>) l)\<lparr>l_pendings := (l_pendings l)[pri := q[j := (pending_w, snd (q ! j))]]\<rparr>"
  have len: "length (l_pendings l) = NUMPRI" "pri < NUMPRI" "j < length q"
    using ok pri by (simp_all add: pend_ok_def in_queue_def q_def j_def)
  have iq: "in_queue l' p i v \<longleftrightarrow> (if p = pri \<and> i = j then v = pending_w else in_queue l p i v)" for p i v
    using len by (auto simp: in_queue_def l'_def q_def nth_list_update upd_w_def)
  have run: "clear_pending w l = Some l'"
    using False pri by (simp add: clear_pending_def l'_def q_def j_def Let_def)
  have ws: "l_ws l' = (l_ws l)(w := (l_ws l w)\<lparr>w_pending := 0\<rparr>)" by (simp add: l'_def upd_w_def)
  have ab: "ABSPRI (l_ws l' v) = ABSPRI (l_ws l v)" for v by (rule ABSPRI_cong) (simp add: ws)
  have "pend_ok l'" unfolding pend_ok_def
  proof (intro conjI allI impI)
    show "length (l_pendings l') = NUMPRI" using len by (simp add: l'_def)
    show "w_pending (l_ws l' pending_w) = 0" using ok by (simp add: ws pend_ok_def)
  next
    fix v assume v: "w_pending (l_ws l' v) \<noteq> 0"
    then have vw: "v \<noteq> w" "w_pending (l_ws l v) \<noteq> 0" by (auto simp: ws split: if_splits)
    then obtain p where p: "ABSPRI (l_ws l v) = Some p" "in_queue l p (w_pending (l_ws l v) - 1) v"
      using ok unfolding pend_ok_def by blast
    have "\<not> (p = pri \<and> w_pending (l_ws l v) - 1 = j)"
      using p(2) pri(2) vw by (auto simp: in_queue_def j_def)
    with p vw show "\<exists>pri. ABSPRI (l_ws l' v) = Some pri \<and> in_queue l' pri (w_pending (l_ws l' v) - 1) v"
      unfolding ab iq by (auto simp: ws)
  next
    fix p i v assume i: "in_queue l' p i v"
    show "v = pending_w \<or> w_pending (l_ws l' v) = i + 1 \<and> ABSPRI (l_ws l' v) = Some p"
    proof (cases "p = pri \<and> i = j")
      case False
      with i have "in_queue l p i v" by (simp add: iq)
      with ok have or: "v = pending_w \<or> w_pending (l_ws l v) = i + 1 \<and> ABSPRI (l_ws l v) = Some p" by (simp add: pend_ok_def)
      moreover have "v \<noteq> w" if "v \<noteq> pending_w" using or that False pri(1) by (auto simp: j_def)
      ultimately show ?thesis unfolding ab by (auto simp: ws)
    qed (use i iq in simp)
  qed
  with run ws False show ?thesis by (simp add: l'_def upd_w_def)
qed

lemma feed_fresh:
  fixes ev :: u32
  assumes ok: "pend_ok l" and w: "w \<noteq> pending_w" "w_pending (l_ws l w) = 0" "ABSPRI (l_ws l w) = Some pri"
  defines "l' \<equiv> l\<lparr>l_pendings := (l_pendings l)[pri := l_pendings l ! pri @ [(w, ev)]],
      l_ws := (l_ws l)(w := (l_ws l w)\<lparr>w_pending := length (l_pendings l ! pri) + 1\<rparr>), l_pendingpri := NUMPRI - 1\<rparr>"
  shows "ev_feed_event w ev l = Some l'" "pend_ok l'"
proof -
  show "ev_feed_event w ev l = Some l'"
    using w by (simp add: ev_feed_event_def l'_def upd_w_def Let_def)
  define q where "q = l_pendings l ! pri"
  have len: "length (l_pendings l) = NUMPRI" "pri < NUMPRI" using ok ABSPRI_less [OF w(3)] by (simp_all add: pend_ok_def)
  have iq: "in_queue l' p i v \<longleftrightarrow> in_queue l p i v \<or> p = pri \<and> i = length q \<and> v = w" for p i v
    using len by (cases "p = pri") (auto simp: in_queue_def l'_def q_def nth_append less_Suc_eq)
  have ws: "l_ws l' v = (if v = w then (l_ws l w)\<lparr>w_pending := length q + 1\<rparr> else l_ws l v)" for v
    by (simp add: l'_def q_def)
  have ab: "ABSPRI (l_ws l' v) = ABSPRI (l_ws l v)" for v by (rule ABSPRI_cong) (simp add: ws)
  have noq: "\<not> in_queue l p i w" for p i
  proof
    assume "in_queue l p i w"
    then have "w_pending (l_ws l w) = i + 1" using ok w(1) unfolding pend_ok_def by blast
    with w(2) show False by simp
  qed
  show "pend_ok l'" unfolding pend_ok_def
  proof (intro conjI allI impI)
    show "length (l_pendings l') = NUMPRI" using len by (simp add: l'_def)
    show "w_pending (l_ws l' pending_w) = 0" using ok w(1) by (simp add: ws pend_ok_def)
  next
    fix v assume v: "w_pending (l_ws l' v) \<noteq> 0"
    show "\<exists>p. ABSPRI (l_ws l' v) = Some p \<and> in_queue l' p (w_pending (l_ws l' v) - 1) v"
    proof (cases "v = w")
      case True
      then show ?thesis using w(3) unfolding ab iq by (simp add: ws)
    next
      case False
      then have "w_pending (l_ws l v) \<noteq> 0" using v by (simp add: ws)
      then show ?thesis using ok False unfolding ab iq pend_ok_def by (simp add: ws)
    qed
  next
    fix p i v assume i: "in_queue l' p i v"
    show "v = pending_w \<or> w_pending (l_ws l' v) = i + 1 \<and> ABSPRI (l_ws l' v) = Some p"
    proof (cases "v = w")
      case True
      then show ?thesis using i noq w(3) unfolding ab iq by (auto simp: ws)
    next
      case False
      then show ?thesis using i ok unfolding ab iq pend_ok_def by (simp add: ws)
    qed
  qed
qed

lemma feed_all_fresh:
  assumes "pend_ok l" "distinct xs" "\<forall>w \<in> set xs. w \<noteq> pending_w \<and> w_pending (l_ws l w) = 0 \<and> ABSPRI (l_ws l w) = Some (pr w)"
  shows "\<exists>l'. feed_all xs ev l = Some l' \<and> pend_ok l'
    \<and> (\<forall>p < NUMPRI. l_pendings l' ! p = l_pendings l ! p @ map (\<lambda>w. (w, ev)) (filter (\<lambda>w. pr w = p) xs))
    \<and> l_timers l' = l_timers l \<and> l_timercnt l' = l_timercnt l \<and> l_mn_now l' = l_mn_now l
    \<and> (\<forall>v. (l_ws l' v)\<lparr>w_pending := 0\<rparr> = (l_ws l v)\<lparr>w_pending := 0\<rparr>)"
  using assms
proof (induction xs arbitrary: l)
  case (Cons w xs)
  have w: "w \<noteq> pending_w" "w_pending (l_ws l w) = 0" "ABSPRI (l_ws l w) = Some (pr w)" using Cons.prems(3) by auto
  define l1 where "l1 = l\<lparr>l_pendings := (l_pendings l)[pr w := l_pendings l ! pr w @ [(w, ev)]],
      l_ws := (l_ws l)(w := (l_ws l w)\<lparr>w_pending := length (l_pendings l ! pr w) + 1\<rparr>), l_pendingpri := NUMPRI - 1\<rparr>"
  note f = feed_fresh [OF Cons.prems(1) w, of ev, folded l1_def]
  have "\<forall>v \<in> set xs. v \<noteq> pending_w \<and> w_pending (l_ws l1 v) = 0 \<and> ABSPRI (l_ws l1 v) = Some (pr v)"
    using Cons.prems(2,3) by (auto simp: l1_def)
  then obtain l' where l': "feed_all xs ev l1 = Some l'" "pend_ok l'"
      "\<forall>p < NUMPRI. l_pendings l' ! p = l_pendings l1 ! p @ map (\<lambda>w. (w, ev)) (filter (\<lambda>w. pr w = p) xs)"
      "l_timers l' = l_timers l1" "l_timercnt l' = l_timercnt l1" "l_mn_now l' = l_mn_now l1"
      "\<forall>v. (l_ws l' v)\<lparr>w_pending := 0\<rparr> = (l_ws l1 v)\<lparr>w_pending := 0\<rparr>"
    using Cons.IH [OF f(2)] Cons.prems(2) by auto
  have len: "length (l_pendings l) = NUMPRI" using Cons.prems(1) by (simp add: pend_ok_def)
  have "l_pendings l1 ! p = l_pendings l ! p @ (if pr w = p then [(w, ev)] else [])" if "p < NUMPRI" for p
    using len that by (simp add: l1_def nth_list_update)
  moreover have "(l_ws l1 v)\<lparr>w_pending := 0\<rparr> = (l_ws l v)\<lparr>w_pending := 0\<rparr>" for v by (simp add: l1_def)
  ultimately show ?case using f(1) l' by (simp add: l1_def)
qed simp

section \<open>Expired timers become pending in the order of their times\<close>

definition loop_ok :: "ev_loop \<Rightarrow> bool" where
  "loop_ok l \<longleftrightarrow> heap_ok l \<and> pend_ok l \<and> (\<forall>w. w_active (l_ws l w) \<noteq> 0 \<longrightarrow> w \<in> timer_ids l)
     \<and> pending_w \<notin> timer_ids l \<and> (\<forall>w \<in> timer_ids l. ABSPRI (l_ws l w) \<noteq> None)"

definition due :: "ev_loop \<Rightarrow> wid set" where
  "due l = {w \<in> timer_ids l. w_at (l_ws l w) < l_mn_now l}"

lemma timer_at:
  assumes "heap_ok l" "in_heap (l_timercnt l) i"
  shows "he_at (l_timers l ! i) = w_at (l_ws l (he_w (l_timers l ! i)))"
  using assms by (simp add: heap_ok_def verify_heap_iff cached_def)

lemma finite_timer_ids [simp]: "finite (timer_ids l)"
  by (simp add: timer_ids_def)

lemma timer_due_iff: "heap_ok l \<Longrightarrow> timer_due l \<longleftrightarrow> due l \<noteq> {}"
proof
  assume ok: "heap_ok l" and d: "timer_due l"
  then have i: "in_heap (l_timercnt l) 3" by (simp add: timer_due_def in_heap_def)
  then have "he_w (l_timers l ! 3) \<in> due l"
    using d in_timer_ids [OF ok i] timer_at [OF ok i] by (simp add: due_def timer_due_def HEAP0_eq)
  then show "due l \<noteq> {}" by blast
next
  assume ok: "heap_ok l" and "due l \<noteq> {}"
  then obtain w where w: "w \<in> timer_ids l" "w_at (l_ws l w) < l_mn_now l" by (auto simp: due_def)
  note pos = timer_position [OF ok w(1)]
  have "he_at (l_timers l ! 3) \<le> he_at (l_timers l ! w_active (l_ws l w))"
    using root_least [OF _ pos(1), of "l_timers l" "l_ws l"] ok by (simp add: heap_ok_def)
  also have "\<dots> = w_at (l_ws l w)" using timer_at [OF ok pos(1)] pos(2) by simp
  finally show "timer_due l" using w pos(3) by (simp add: timer_due_def HEAP0_eq)
qed

text \<open>A retimed timer changes nothing else.\<close>

lemma loop_ok_retime:
  assumes ok: "loop_ok l" and w: "w \<in> timer_ids l"
  shows "loop_ok (retime w a l)"
proof -
  have h: "heap_ok l" using ok by (simp add: loop_ok_def)
  note r = retime_heap [OF h w, of a]
  note f = same_but_activeD [OF r(4)]
  have pr: "w_priority (l_ws (retime w a l) v) = w_priority (l_ws l v)" for v using f(4) [of v] by (simp split: if_splits)
  have pe: "w_pending (l_ws (retime w a l) v) = w_pending (l_ws l v)" for v using f(3) [of v] by (simp split: if_splits)
  have ab: "ABSPRI (l_ws (retime w a l) v) = ABSPRI (l_ws l v)" for v by (rule ABSPRI_cong [OF pr])
  have "pend_ok (retime w a l)"
    by (rule pend_ok_cong [of l]) (use ok r(6) pe ab in \<open>simp_all add: loop_ok_def\<close>)
  moreover have "v \<in> timer_ids (retime w a l)" if "w_active (l_ws (retime w a l) v) \<noteq> 0" for v
    using that r(2,5) ok unfolding loop_ok_def by metis
  ultimately show ?thesis using ok r(1,2) ab by (simp add: loop_ok_def)
qed

lemma retime_fields:
  assumes "heap_ok l" "w \<in> timer_ids l"
  shows "w_at (l_ws (retime w a l) v) = (if v = w then a else w_at (l_ws l v))"
    "w_repeat (l_ws (retime w a l) v) = w_repeat (l_ws l v)" "w_pending (l_ws (retime w a l) v) = w_pending (l_ws l v)"
    "w_priority (l_ws (retime w a l) v) = w_priority (l_ws l v)"
  using same_but_activeD [OF retime_heap(4) [OF assms, of a], of v] by (simp_all split: if_splits)

lemma stop_fields:
  assumes "heap_ok l" "w \<in> timer_ids l"
  shows "w_at (l_ws (stop_heap w l) v) = (if v = w then w_at (l_ws l w) - l_mn_now l else w_at (l_ws l v))"
    "w_repeat (l_ws (stop_heap w l) v) = w_repeat (l_ws l v)" "w_pending (l_ws (stop_heap w l) v) = w_pending (l_ws l v)"
    "w_priority (l_ws (stop_heap w l) v) = w_priority (l_ws l v)"
  using same_but_activeD [OF stop_heap_correct(4) [OF assms], of v] by (simp_all split: if_splits)

lemma loop_ok_stop:
  assumes ok: "loop_ok l" and w: "w \<in> timer_ids l"
  shows "loop_ok (stop_heap w l)"
proof -
  have h: "heap_ok l" using ok by (simp add: loop_ok_def)
  note r = stop_heap_correct [OF h w]
  note f = stop_fields [OF h w]
  have ab: "ABSPRI (l_ws (stop_heap w l) v) = ABSPRI (l_ws l v)" for v by (rule ABSPRI_cong [OF f(4)])
  have "pend_ok (stop_heap w l)"
    by (rule pend_ok_cong [of l]) (use ok r(7) f(3) ab in \<open>simp_all add: loop_ok_def\<close>)
  moreover have "v \<in> timer_ids (stop_heap w l)" if "w_active (l_ws (stop_heap w l) v) \<noteq> 0" for v
    using that r(2,5,6) ok unfolding loop_ok_def by (metis DiffI singletonD)
  ultimately show ?thesis using ok r(1,2) ab by (simp add: loop_ok_def)
qed

text \<open>\<open>ev_timer_stop\<close> on an active timer that is not pending.\<close>

lemma timer_stop_active:
  assumes "loop_ok l" "w \<in> timer_ids l" "w_pending (l_ws l w) = 0"
  shows "ev_timer_stop w l = Some (stop_heap w l)"
proof -
  have h: "heap_ok l" using assms(1) by (simp add: loop_ok_def)
  note pos = timer_position [OF h assms(2)]
  have "w_active (l_ws l w) \<noteq> 0" using pos(1) by (simp add: in_heap_def)
  moreover have "clear_pending w l = Some l" using assms(3) by (simp add: clear_pending_def)
  ultimately show ?thesis
    using pos(2,3) by (simp add: ev_timer_stop_def stop_heap_def Let_def)
qed

text \<open>The time a repeating timer gets when it expires.\<close>

definition next_at :: "ev_loop \<Rightarrow> wid \<Rightarrow> ev_tstamp" where
  "next_at l w = max (l_mn_now l) (w_at (l_ws l w) + w_repeat (l_ws l w))"

lemma reify_step_result:
  assumes ok: "loop_ok l" and due: "timer_due l"
    and rep: "\<forall>w \<in> timer_ids l. 0 \<le> w_repeat (l_ws l w)" and np: "\<forall>w \<in> due l. w_pending (l_ws l w) = 0"
  defines "w \<equiv> he_w (l_timers l ! 3)"
  shows "w \<in> due l" "\<forall>v \<in> timer_ids l. w_at (l_ws l w) \<le> w_at (l_ws l v)"
    "reify_step l = Some (feed_reverse w (if w_repeat (l_ws l w) = 0 then stop_heap w l else retime w (next_at l w) l))"
proof -
  have h: "heap_ok l" using ok by (simp add: loop_ok_def)
  have i3: "in_heap (l_timercnt l) 3" using due by (simp add: timer_due_def in_heap_def)
  have wt: "w \<in> timer_ids l" using in_timer_ids [OF h i3] by (simp add: w_def)
  have wat: "he_at (l_timers l ! 3) = w_at (l_ws l w)" using timer_at [OF h i3] by (simp add: w_def)
  show wd: "w \<in> due l" using wt wat due by (simp add: due_def timer_due_def HEAP0_eq)
  show "\<forall>v \<in> timer_ids l. w_at (l_ws l w) \<le> w_at (l_ws l v)"
  proof
    fix v assume "v \<in> timer_ids l"
    note pos = timer_position [OF h this]
    show "w_at (l_ws l w) \<le> w_at (l_ws l v)"
      using root_least [OF _ pos(1), of "l_timers l" "l_ws l"] h timer_at [OF h pos(1)] pos(2) wat by (simp add: heap_ok_def)
  qed
  have act: "w_active (l_ws l w) = 3" using h i3 by (simp add: heap_ok_def verify_heap_iff w_def)
  show "reify_step l = Some (feed_reverse w (if w_repeat (l_ws l w) = 0 then stop_heap w l else retime w (next_at l w) l))"
  proof (cases "w_repeat (l_ws l w) = 0")
    case True
    then show ?thesis
      using timer_stop_active [OF ok wt] np wd by (simp add: reify_step_def HEAP0_eq w_def [symmetric])
  next
    case False
    then have "0 < w_repeat (l_ws l w)" using rep wt by force
    moreover have "next_at l w = (if w_at (l_ws l w) + w_repeat (l_ws l w) < l_mn_now l then l_mn_now l
        else w_at (l_ws l w) + w_repeat (l_ws l w))" by (simp add: next_at_def max_def)
    ultimately show ?thesis
      using False act by (simp add: reify_step_def HEAP0_eq w_def [symmetric] Let_def retime_def adjustheap_def)
  qed
qed

definition timer_outcome :: "ev_loop \<Rightarrow> ev_loop \<Rightarrow> wid \<Rightarrow> bool" where
  "timer_outcome l l' w \<longleftrightarrow>
     (if w \<in> due l then
        if w_repeat (l_ws l w) = 0 then w \<notin> timer_ids l' else w \<in> timer_ids l' \<and> w_at (l_ws l' w) = next_at l w
      else (w \<in> timer_ids l' \<longleftrightarrow> w \<in> timer_ids l) \<and> w_at (l_ws l' w) = w_at (l_ws l w))"

lemma timer_ids_feed_reverse [simp]: "timer_ids (feed_reverse w l) = timer_ids l"
  by (simp add: timer_ids_def feed_reverse_def)

lemma feed_reverse_sel [simp]:
  "l_ws (feed_reverse w l) = l_ws l" "l_mn_now (feed_reverse w l) = l_mn_now l" "l_pendings (feed_reverse w l) = l_pendings l"
  "l_rfeeds (feed_reverse w l) = l_rfeeds l @ [w]"
  by (simp_all add: feed_reverse_def)

lemma loop_ok_feed_reverse [simp]: "loop_ok (feed_reverse w l) = loop_ok l"
  by (simp add: loop_ok_def heap_ok_def pend_ok_def in_queue_def feed_reverse_def timer_ids_def)

text \<open>One step: the earliest timer is settled, all others are as before.\<close>

lemma reify_step_frame:
  assumes ok: "loop_ok l" and due: "timer_due l"
    and rep: "\<forall>w \<in> timer_ids l. 0 \<le> w_repeat (l_ws l w)" and np: "\<forall>w \<in> due l. w_pending (l_ws l w) = 0"
  defines "w \<equiv> he_w (l_timers l ! 3)"
  shows "\<exists>l1. reify_step l = Some l1 \<and> loop_ok l1 \<and> l_rfeeds l1 = l_rfeeds l @ [w] \<and> l_mn_now l1 = l_mn_now l
    \<and> l_pendings l1 = l_pendings l \<and> due l1 = due l - {w} \<and> timer_ids l1 \<subseteq> timer_ids l
    \<and> (\<forall>v. w_pending (l_ws l1 v) = w_pending (l_ws l v) \<and> w_repeat (l_ws l1 v) = w_repeat (l_ws l v)
         \<and> w_priority (l_ws l1 v) = w_priority (l_ws l v) \<and> (v \<noteq> w \<longrightarrow> w_at (l_ws l1 v) = w_at (l_ws l v) \<and> (v \<in> timer_ids l1 \<longleftrightarrow> v \<in> timer_ids l)))
    \<and> (if w_repeat (l_ws l w) = 0 then w \<notin> timer_ids l1 else w \<in> timer_ids l1 \<and> w_at (l_ws l1 w) = next_at l w)"
proof -
  have h: "heap_ok l" using ok by (simp add: loop_ok_def)
  note s = reify_step_result [OF ok due rep np, folded w_def]
  have wt: "w \<in> timer_ids l" using s(1) by (simp add: due_def)
  show ?thesis
  proof (cases "w_repeat (l_ws l w) = 0")
    case True
    note r = stop_heap_correct [OF h wt]
    have "due (feed_reverse w (stop_heap w l)) = due l - {w}"
      using r(2,9) stop_fields(1) [OF h wt] by (auto simp: due_def)
    with True s(3) r(2,7,8,9) stop_fields [OF h wt] loop_ok_stop [OF ok wt] show ?thesis
      by (intro exI [of _ "feed_reverse w (stop_heap w l)"]) auto
  next
    case False
    note r = retime_heap [OF h wt, of "next_at l w"]
    have "\<not> next_at l w < l_mn_now l" by (simp add: next_at_def)
    then have "due (feed_reverse w (retime w (next_at l w) l)) = due l - {w}"
      using r(2,8) retime_fields(1) [OF h wt, of "next_at l w"] by (auto simp: due_def)
    with False s(3) r(2,6,7,8) retime_fields [OF h wt, of "next_at l w"] loop_ok_retime [OF ok wt, of "next_at l w"] wt show ?thesis
      by (intro exI [of _ "feed_reverse w (retime w (next_at l w) l)"]) auto
  qed
qed

lemma reify_loop_correct:
  assumes "loop_ok l" "\<forall>w \<in> timer_ids l. 0 \<le> w_repeat (l_ws l w)" "\<forall>w \<in> due l. w_pending (l_ws l w) = 0"
  shows "\<exists>l' fired. reify_loop l = Some l' \<and> loop_ok l' \<and> l_rfeeds l' = l_rfeeds l @ fired \<and> l_mn_now l' = l_mn_now l
    \<and> l_pendings l' = l_pendings l \<and> distinct fired \<and> set fired = due l \<and> sorted (map (\<lambda>w. w_at (l_ws l w)) fired)
    \<and> (\<forall>v. timer_outcome l l' v \<and> w_pending (l_ws l' v) = w_pending (l_ws l v)
         \<and> w_repeat (l_ws l' v) = w_repeat (l_ws l v) \<and> w_priority (l_ws l' v) = w_priority (l_ws l v))"
  using assms
proof (induction "card (due l)" arbitrary: l rule: less_induct)
  case less
  have h: "heap_ok l" using less.prems(1) by (simp add: loop_ok_def)
  show ?case
  proof (cases "timer_due l")
    case False
    then have "due l = {}" using timer_due_iff [OF h] by blast
    with False less.prems(1) show ?thesis
      by (intro exI [of _ l] exI [of _ "[]"]) (simp add: reify_loop.simps timer_outcome_def)
  next
    case True
    define w where "w = he_w (l_timers l ! 3)"
    note s = reify_step_result(1,2) [OF less.prems(1) True less.prems(2,3), folded w_def]
    obtain l1 where l1: "reify_step l = Some l1" "loop_ok l1" "l_rfeeds l1 = l_rfeeds l @ [w]" "l_mn_now l1 = l_mn_now l"
        "l_pendings l1 = l_pendings l" "due l1 = due l - {w}" "timer_ids l1 \<subseteq> timer_ids l"
        "\<forall>v. w_pending (l_ws l1 v) = w_pending (l_ws l v) \<and> w_repeat (l_ws l1 v) = w_repeat (l_ws l v)
         \<and> w_priority (l_ws l1 v) = w_priority (l_ws l v) \<and> (v \<noteq> w \<longrightarrow> w_at (l_ws l1 v) = w_at (l_ws l v) \<and> (v \<in> timer_ids l1 \<longleftrightarrow> v \<in> timer_ids l))"
        "if w_repeat (l_ws l w) = 0 then w \<notin> timer_ids l1 else w \<in> timer_ids l1 \<and> w_at (l_ws l1 w) = next_at l w"
      using reify_step_frame [OF less.prems(1) True less.prems(2,3), folded w_def] by (elim exE conjE) rule
    have fin: "finite (due l)" by (simp add: due_def)
    have c1: "card (due l1) < card (due l)" unfolding l1(6) by (rule card_Diff1_less [OF fin s(1)])
    have c2: "\<forall>v \<in> timer_ids l1. 0 \<le> w_repeat (l_ws l1 v)" using less.prems(2) l1(7,8) by auto
    have c3: "\<forall>v \<in> due l1. w_pending (l_ws l1 v) = 0" using less.prems(3) l1(6,8) by auto
    obtain l' fired where f: "reify_loop l1 = Some l'" "loop_ok l'" "l_rfeeds l' = l_rfeeds l1 @ fired"
        "l_mn_now l' = l_mn_now l1" "l_pendings l' = l_pendings l1" "distinct fired" "set fired = due l1"
        "sorted (map (\<lambda>w. w_at (l_ws l1 w)) fired)"
        "\<forall>v. timer_outcome l1 l' v \<and> w_pending (l_ws l' v) = w_pending (l_ws l1 v)
         \<and> w_repeat (l_ws l' v) = w_repeat (l_ws l1 v) \<and> w_priority (l_ws l' v) = w_priority (l_ws l1 v)"
      using less.hyps [OF c1 l1(2) c2 c3] by (elim exE conjE) rule
    have at: "w_at (l_ws l1 v) = w_at (l_ws l v)" if "v \<in> set fired" for v using that f(7) l1(6,8) by simp
    have so: "sorted (map (\<lambda>w. w_at (l_ws l w)) (w # fired))"
    proof -
      have m: "map (\<lambda>w. w_at (l_ws l w)) fired = map (\<lambda>w. w_at (l_ws l1 w)) fired" using at by simp
      have "sorted (map (\<lambda>w. w_at (l_ws l w)) fired)" unfolding m by (rule f(8))
      moreover have "\<forall>v \<in> set fired. w_at (l_ws l w) \<le> w_at (l_ws l v)" using f(7) s(2) l1(6) by (auto simp: due_def)
      ultimately show ?thesis by simp
    qed
    have "timer_outcome l l' v" for v
    proof (cases "v = w")
      case True
      have "timer_outcome l1 l' w" using f(9) by blast
      then show ?thesis using True l1(6,9) s(1) by (auto simp: timer_outcome_def split: if_splits)
    next
      case False
      have "timer_outcome l1 l' v" using f(9) by blast
      then show ?thesis using False l1(4,6,8) by (simp add: timer_outcome_def next_at_def)
    qed
    then show ?thesis
      using f l1 so s(1) True
      by (intro exI [of _ l'] exI [of _ "w # fired"]) (auto simp: reify_loop.simps [of l])
  qed
qed

lemma timers_reify_correct:
  assumes ok: "loop_ok l" and nofeed: "l_rfeeds l = []"
    and rep: "\<forall>w \<in> timer_ids l. 0 \<le> w_repeat (l_ws l w)" and np: "\<forall>w \<in> due l. w_pending (l_ws l w) = 0"
  shows "\<exists>l' fired. timers_reify l = Some l' \<and> loop_ok l' \<and> l_rfeeds l' = []
    \<and> distinct fired \<and> set fired = due l \<and> sorted (map (\<lambda>w. w_at (l_ws l w)) fired)
    \<and> (\<forall>pri < NUMPRI. l_pendings l' ! pri = l_pendings l ! pri
         @ map (\<lambda>w. (w, EV_TIMER)) (rev (filter (\<lambda>w. ABSPRI (l_ws l w) = Some pri) fired)))
    \<and> (\<forall>v. timer_outcome l l' v)"
proof -
  obtain l1 fired where f: "reify_loop l = Some l1" "loop_ok l1" "l_rfeeds l1 = l_rfeeds l @ fired" "l_mn_now l1 = l_mn_now l"
      "l_pendings l1 = l_pendings l" "distinct fired" "set fired = due l" "sorted (map (\<lambda>w. w_at (l_ws l w)) fired)"
      "\<forall>v. timer_outcome l l1 v \<and> w_pending (l_ws l1 v) = w_pending (l_ws l v)
         \<and> w_repeat (l_ws l1 v) = w_repeat (l_ws l v) \<and> w_priority (l_ws l1 v) = w_priority (l_ws l v)"
    using reify_loop_correct [OF ok rep np] by (elim exE conjE) rule
  define pr where "pr = (\<lambda>w. the (ABSPRI (l_ws l w)))"
  have ab: "ABSPRI (l_ws l1 w) = ABSPRI (l_ws l w)" for w by (rule ABSPRI_cong) (use f(9) in blast)
  have prw: "ABSPRI (l_ws l w) = Some (pr w)" "w \<noteq> pending_w" if "w \<in> due l" for w
    using that ok by (auto simp: loop_ok_def due_def pr_def)
  have fl: "filter (\<lambda>w. ABSPRI (l_ws l w) = Some pri) fired = filter (\<lambda>w. pr w = pri) fired" for pri
    using prw(1) f(7) by (auto intro!: filter_cong)
  have "\<forall>w \<in> set (rev fired). w \<noteq> pending_w \<and> w_pending (l_ws l1 w) = 0 \<and> ABSPRI (l_ws l1 w) = Some (pr w)"
    using prw np f(7,9) ab by auto
  then obtain l2 where l2: "feed_all (rev fired) EV_TIMER l1 = Some l2" "pend_ok l2"
      "\<forall>p < NUMPRI. l_pendings l2 ! p = l_pendings l1 ! p @ map (\<lambda>w. (w, EV_TIMER)) (filter (\<lambda>w. pr w = p) (rev fired))"
      "l_timers l2 = l_timers l1" "l_timercnt l2 = l_timercnt l1" "l_mn_now l2 = l_mn_now l1"
      "\<forall>v. (l_ws l2 v)\<lparr>w_pending := 0\<rparr> = (l_ws l1 v)\<lparr>w_pending := 0\<rparr>"
    using feed_all_fresh [of l1 "rev fired" pr EV_TIMER] f(2,6) by (auto simp: loop_ok_def)
  define l' where "l' = l2\<lparr>l_rfeeds := []\<rparr>"
  have ids: "timer_ids l' = timer_ids l1" using l2(4,5) by (simp add: timer_ids_def l'_def)
  have same: "w_at (l_ws l' v) = w_at (l_ws l1 v)" "w_active (l_ws l' v) = w_active (l_ws l1 v)"
    "w_priority (l_ws l' v) = w_priority (l_ws l1 v)" for v
  proof -
    have e: "(l_ws l2 v)\<lparr>w_pending := 0\<rparr> = (l_ws l1 v)\<lparr>w_pending := 0\<rparr>" using l2(7) by blast
    show "w_at (l_ws l' v) = w_at (l_ws l1 v)" using arg_cong [OF e, of w_at] by (simp add: l'_def)
    show "w_active (l_ws l' v) = w_active (l_ws l1 v)" using arg_cong [OF e, of w_active] by (simp add: l'_def)
    show "w_priority (l_ws l' v) = w_priority (l_ws l1 v)" using arg_cong [OF e, of w_priority] by (simp add: l'_def)
  qed
  have "verify_heap (l_timers l1) (l_timercnt l1) (l_ws l')"
    by (rule verify_heap_cong [of _ _ "l_ws l1"]) (use f(2) same in \<open>auto simp: loop_ok_def heap_ok_def\<close>)
  moreover have "pend_ok l'" using l2(2) by (simp add: pend_ok_def in_queue_def l'_def)
  moreover have "ABSPRI (l_ws l' v) = ABSPRI (l_ws l1 v)" for v by (rule ABSPRI_cong [OF same(3)])
  ultimately have ok': "loop_ok l'"
    using f(2) ids same l2(4,5) by (simp add: loop_ok_def heap_ok_def l'_def)
  have out: "timer_outcome l l' v" for v
    using f(9) ids same(1) by (simp add: timer_outcome_def)
  show ?thesis
  proof (cases "timer_due l")
    case True
    then have "timers_reify l = Some l'"
      using f(1,3) l2(1) nofeed by (simp add: timers_reify_def feed_reverse_done_def l'_def)
    with ok' f(5,6,7,8) l2(3) out fl show ?thesis
      by (intro exI [of _ l'] exI [of _ fired]) (simp add: l'_def rev_filter)
  next
    case False
    then have "due l = {}" using timer_due_iff [of l] ok by (auto simp: loop_ok_def)
    with False ok nofeed show ?thesis
      by (intro exI [of _ l] exI [of _ "[]"]) (simp add: timers_reify_def timer_outcome_def)
  qed
qed

section \<open>Calling back\<close>

text \<open>A callback that only records the calls.\<close>

definition record_cb :: "(wid \<times> u32) list callback" where
  "record_cb w revents s = Some (fst s, snd s @ [(w, revents)])"

definition calls :: "(wid \<times> u32) list \<Rightarrow> (wid \<times> u32) list" where
  "calls q = filter (\<lambda>c. fst c \<noteq> pending_w) (rev q)"

lemma invoke_queue:
  assumes "l_pendings l ! l_pendingpri l = q" "l_pendingpri l < length (l_pendings l)"
  shows "\<exists>ws. invoke_loop record_cb (l, log)
    = invoke_loop record_cb (l\<lparr>l_pendings := (l_pendings l)[l_pendingpri l := []], l_ws := ws\<rparr>, log @ calls q)"
  using assms
proof (induction q arbitrary: l log rule: rev_induct)
  case Nil
  then have "(l_pendings l)[l_pendingpri l := []] = l_pendings l" by (metis list_update_id)
  then show ?case by (intro exI [of _ "l_ws l"]) (simp add: calls_def)
next
  case (snoc c q)
  define l1 where "l1 = upd_w (fst c) (\<lambda>v. v\<lparr>w_pending := 0\<rparr>) l\<lparr>l_pendings := (l_pendings l)[l_pendingpri l := q]\<rparr>"
  define log1 where "log1 = log @ (if fst c = pending_w then [] else [c])"
  have step: "invoke_loop record_cb (l, log) = invoke_loop record_cb (l1, log1)"
    using snoc.prems by (subst invoke_loop.simps) (simp add: Let_def EV_CB_INVOKE_def record_cb_def l1_def log1_def)
  have "l_pendings l1 ! l_pendingpri l1 = q" "l_pendingpri l1 < length (l_pendings l1)"
    using snoc.prems by (simp_all add: l1_def upd_w_def)
  from snoc.IH [OF this, of log1] obtain ws where
    "invoke_loop record_cb (l1, log1) = invoke_loop record_cb (l1\<lparr>l_pendings := (l_pendings l1)[l_pendingpri l1 := []], l_ws := ws\<rparr>, log1 @ calls q)"
    by blast
  moreover have "log1 @ calls q = log @ calls (q @ [c])" by (simp add: log1_def calls_def)
  ultimately show ?case using step by (auto simp: l1_def upd_w_def)
qed

lemma invoke_all:
  assumes "l_pendingpri l = p" "p < length (l_pendings l)"
  shows "\<exists>l'. invoke_loop record_cb (l, log) = Some (l', log @ concat (map (\<lambda>i. calls (l_pendings l ! i)) (rev [0..<Suc p])))
    \<and> (\<forall>i. l_pendings l' ! i = (if i \<le> p then [] else l_pendings l ! i))"
  using assms
proof (induction p arbitrary: l log)
  case 0
  obtain ws where q: "invoke_loop record_cb (l, log)
      = invoke_loop record_cb (l\<lparr>l_pendings := (l_pendings l)[0 := []], l_ws := ws\<rparr>, log @ calls (l_pendings l ! 0))"
    using invoke_queue [of l "l_pendings l ! 0" log] "0.prems" by auto
  show ?case unfolding q using "0.prems" by (subst invoke_loop.simps) (simp add: Let_def)
next
  case (Suc p)
  define log1 where "log1 = log @ calls (l_pendings l ! Suc p)"
  obtain ws where q: "invoke_loop record_cb (l, log)
      = invoke_loop record_cb (l\<lparr>l_pendings := (l_pendings l)[Suc p := []], l_ws := ws\<rparr>, log1)"
    using invoke_queue [of l "l_pendings l ! Suc p" log] Suc.prems by (auto simp: log1_def)
  define l1 where "l1 = l\<lparr>l_pendings := (l_pendings l)[Suc p := []], l_ws := ws, l_pendingpri := p\<rparr>"
  have e: "invoke_loop record_cb (l, log) = invoke_loop record_cb (l1, log1)"
    unfolding q using Suc.prems by (subst invoke_loop.simps) (simp add: Let_def l1_def)
  obtain l' where l': "invoke_loop record_cb (l1, log1)
      = Some (l', log1 @ concat (map (\<lambda>i. calls (l_pendings l1 ! i)) (rev [0..<Suc p])))"
      "\<forall>i. l_pendings l' ! i = (if i \<le> p then [] else l_pendings l1 ! i)"
    using Suc.IH [of l1 log1] Suc.prems by (auto simp: l1_def)
  have m: "map (\<lambda>i. calls (l_pendings l1 ! i)) (rev [0..<Suc p]) = map (\<lambda>i. calls (l_pendings l ! i)) (rev [0..<Suc p])"
    by (simp add: l1_def)
  have "log1 @ concat (map (\<lambda>i. calls (l_pendings l1 ! i)) (rev [0..<Suc p]))
      = log @ concat (map (\<lambda>i. calls (l_pendings l ! i)) (rev [0..<Suc (Suc p)]))"
    unfolding m by (simp add: log1_def)
  moreover have "l_pendings l' ! i = (if i \<le> Suc p then [] else l_pendings l ! i)" for i
    using l'(2) Suc.prems by (auto simp: l1_def nth_list_update le_Suc_eq)
  ultimately show ?case using e l'(1) by auto
qed

lemma invoke_pending_record:
  assumes "length (l_pendings l) = NUMPRI"
  shows "\<exists>l'. ev_invoke_pending record_cb (l, log) = Some (l', log @ concat (map (\<lambda>i. calls (l_pendings l ! i)) (rev [0..<NUMPRI])))
    \<and> (\<forall>i < NUMPRI. l_pendings l' ! i = [])"
proof -
  have "Suc (NUMPRI - 1) = NUMPRI" "NUMPRI - 1 < NUMPRI" by (simp_all add: NUMPRI_eq)
  with invoke_all [of "l\<lparr>l_pendingpri := NUMPRI - 1\<rparr>" "NUMPRI - 1" log] assms show ?thesis
    by (auto simp: ev_invoke_pending_def less_Suc_eq_le)
qed

section \<open>Properties\<close>

definition stopped_watcher :: watcher where
  "stopped_watcher = \<lparr>w_active = 0, w_pending = 0, w_priority = 0, w_at = 0, w_repeat = 0\<rparr>"

definition new_loop :: ev_loop where
  "new_loop = \<lparr>l_mn_now = 0, l_timers = [], l_timercnt = 0, l_pendings = replicate NUMPRI [], l_pendingpri = 0,
     l_rfeeds = [], l_activecnt = 0, l_ws = (\<lambda>_. stopped_watcher)\<rparr>"

lemma new_loop_ok: "loop_ok (new_loop\<lparr>l_ws := ws\<rparr>)" if "\<forall>w. w_active (ws w) = 0 \<and> w_pending (ws w) = 0"
proof -
  have "\<not> in_queue (new_loop\<lparr>l_ws := ws\<rparr>) pri j w" for pri j w
    by (auto simp: in_queue_def new_loop_def)
  with that show ?thesis
    by (simp add: loop_ok_def heap_ok_def pend_ok_def timer_ids_def new_loop_def)
qed

lemma loop_ok_clear:
  assumes ok: "loop_ok l" and w: "w \<noteq> pending_w"
  shows "\<exists>l'. clear_pending w l = Some l' \<and> loop_ok l' \<and> w_pending (l_ws l' w) = 0
    \<and> (\<forall>v. w_active (l_ws l' v) = w_active (l_ws l v) \<and> w_repeat (l_ws l' v) = w_repeat (l_ws l v))
    \<and> timer_ids l' = timer_ids l \<and> l_timercnt l' = l_timercnt l"
proof -
  obtain l' where l': "clear_pending w l = Some l'" "pend_ok l'" "l_ws l' = (l_ws l)(w := (l_ws l w)\<lparr>w_pending := 0\<rparr>)"
      "l_timers l' = l_timers l" "l_timercnt l' = l_timercnt l"
    using clear_pending_ok [OF _ w, of l] ok by (auto simp: loop_ok_def)
  have ids: "timer_ids l' = timer_ids l" using l'(4,5) by (simp add: timer_ids_def)
  have "verify_heap (l_timers l) (l_timercnt l) (l_ws l')"
    by (rule verify_heap_cong [of _ _ "l_ws l"]) (use ok l'(3) in \<open>auto simp: loop_ok_def heap_ok_def\<close>)
  moreover have "ABSPRI (l_ws l' v) = ABSPRI (l_ws l v)" for v by (rule ABSPRI_cong) (simp add: l'(3))
  ultimately show ?thesis
    using ok l' ids by (intro exI [of _ l']) (auto simp: loop_ok_def heap_ok_def)
qed

lemma ev_clear_pending_ok:
  assumes ok: "loop_ok l" and w: "w \<noteq> pending_w"
  shows "\<exists>ev l'. ev_clear_pending w l = Some (ev, l') \<and> loop_ok l' \<and> timer_ids l' = timer_ids l
    \<and> l_ws l' = (l_ws l)(w := (l_ws l w)\<lparr>w_pending := 0\<rparr>)
    \<and> (if w_pending (l_ws l w) = 0 then ev = 0 \<and> l' = l
       else \<exists>pri. ABSPRI (l_ws l w) = Some pri \<and> l_pendings l ! pri ! (w_pending (l_ws l w) - 1) = (w, ev)
            \<and> l_pendings l' = (l_pendings l)[pri := (l_pendings l ! pri)[w_pending (l_ws l w) - 1 := (pending_w, ev)]])"
proof -
  obtain l' where l': "clear_pending w l = Some l'" "loop_ok l'" "timer_ids l' = timer_ids l"
    using loop_ok_clear [OF assms] by blast
  moreover have ws: "l_ws l' = (l_ws l)(w := (l_ws l w)\<lparr>w_pending := 0\<rparr>)" "w_pending (l_ws l w) = 0 \<longrightarrow> l' = l"
    using clear_pending_ok [OF _ w, of l] ok l'(1) by (auto simp: loop_ok_def)
  show ?thesis
  proof (cases "w_pending (l_ws l w) = 0")
    case True
    then have "ev_clear_pending w l = Some (0, l)" by (simp add: ev_clear_pending_def)
    with True ok ws show ?thesis by auto
  next
    case False
    then obtain pri where pri: "ABSPRI (l_ws l w) = Some pri" "in_queue l pri (w_pending (l_ws l w) - 1) w"
      using ok unfolding loop_ok_def pend_ok_def by blast
    let ?e = "l_pendings l ! pri ! (w_pending (l_ws l w) - 1)"
    have "ev_clear_pending w l = Some (snd ?e, l')"
      using False pri(1) l'(1) by (simp add: ev_clear_pending_def clear_pending_def Let_def)
    moreover have "?e = (w, snd ?e)" using pri(2) by (metis in_queue_def prod.collapse)
    moreover have "l_pendings l' = (l_pendings l)[pri := (l_pendings l ! pri)[w_pending (l_ws l w) - 1 := (pending_w, snd ?e)]]"
      using False pri(1) l'(1) by (auto simp: clear_pending_def Let_def)
    ultimately show ?thesis using False pri(1) l' ws by auto
  qed
qed

lemma loop_ok_start:
  assumes ok: "loop_ok l" and w: "w \<noteq> pending_w" "w_active (l_ws l w) = 0" "0 \<le> w_repeat (l_ws l w)"
    and room: "l_timercnt l < 2 ^ 24"
  shows "\<exists>l'. ev_timer_start w l = Some l' \<and> loop_ok l' \<and> timer_ids l' = insert w (timer_ids l)"
proof -
  have h: "heap_ok l" using ok by (simp add: loop_ok_def)
  have wn: "w \<notin> timer_ids l" using timer_position(1) [OF h, of w] w(2) by (auto simp: in_heap_def)
  have "16 * (2 * int (l_timercnt l + 4) + 1) + 4127 < 2 ^ 31" using room by simp
  from timer_start_heap [OF h w(2) wn w(3) this] obtain l' where l': "ev_timer_start w l = Some l'" "heap_ok l'" "timer_ids l' = insert w (timer_ids l)"
      "same_but_active ((l_ws l)(w := (pri_adjust (l_ws l w))\<lparr>w_at := w_at (l_ws l w) + l_mn_now l\<rparr>)) (l_ws l')"
      "\<forall>v. v \<notin> timer_ids l' \<longrightarrow> l_ws l' v = l_ws l v" "l_pendings l' = l_pendings l"
    by (elim exE conjE) rule
  note f = same_but_activeD [OF l'(4)]
  have pr: "w_priority (l_ws l' v) = (if v = w then w_priority (pri_adjust (l_ws l w)) else w_priority (l_ws l v))" for v
    using f(4) [of v] by simp
  have abw: "ABSPRI (l_ws l' w) \<noteq> None"
    using pri_adjust_ok [of "l_ws l w"] ABSPRI_cong [of "l_ws l' w" "pri_adjust (l_ws l w)"] pr [of w] by simp
  have abo: "ABSPRI (l_ws l' v) = ABSPRI (l_ws l v)" if "ABSPRI (l_ws l v) \<noteq> None" for v
    by (rule ABSPRI_cong) (use pr [of v] pri_adjust_id [OF that] in auto)
  have "pend_ok l'"
  proof (rule pend_ok_cong [of l])
    show "pend_ok l" using ok by (simp add: loop_ok_def)
    then show "w_pending (l_ws l v) \<noteq> 0 \<Longrightarrow> ABSPRI (l_ws l' v) = ABSPRI (l_ws l v)" for v
      using abo [of v] unfolding pend_ok_def by fastforce
    show "w_pending (l_ws l' v) = w_pending (l_ws l v)" for v using f(3) [of v] by (simp split: if_splits)
  qed (rule l'(6))
  moreover have "v \<in> timer_ids l'" if "w_active (l_ws l' v) \<noteq> 0" for v
    using that l'(3,5) ok unfolding loop_ok_def by (metis insertCI)
  moreover have "ABSPRI (l_ws l' v) \<noteq> None" if "v \<in> timer_ids l'" for v
    using that l'(3) abw abo ok by (auto simp: loop_ok_def)
  ultimately show ?thesis using l' w(1) ok by (intro exI [of _ l']) (simp add: loop_ok_def)
qed

lemma active_iff: "loop_ok l \<Longrightarrow> w_active (l_ws l w) \<noteq> 0 \<longleftrightarrow> w \<in> timer_ids l"
  using timer_position(1) [of l w] by (auto simp: loop_ok_def in_heap_def)

lemma timer_stop_ok:
  assumes "loop_ok l" "w \<noteq> pending_w"
  shows "\<exists>l'. ev_timer_stop w l = Some l' \<and> loop_ok l' \<and> timer_ids l' = timer_ids l - {w}"
proof -
  obtain l1 where l1: "clear_pending w l = Some l1" "loop_ok l1" "w_pending (l_ws l1 w) = 0" "timer_ids l1 = timer_ids l"
    using loop_ok_clear [OF assms] by blast
  have h1: "heap_ok l1" using l1(2) by (simp add: loop_ok_def)
  have e: "ev_timer_stop w l = ev_timer_stop w l1" using l1(1,3) by (simp add: ev_timer_stop_def clear_pending_def)
  show ?thesis
  proof (cases "w \<in> timer_ids l")
    case True
    with timer_stop_active [OF l1(2) _ l1(3)] loop_ok_stop [OF l1(2)] stop_heap_correct(2) [OF h1] l1(4) e
    show ?thesis by simp
  next
    case False
    then have "w_active (l_ws l1 w) = 0" using active_iff [OF l1(2), of w] l1(4) by simp
    with l1 False show ?thesis by (simp add: ev_timer_stop_def)
  qed
qed

text \<open>Setting the time of a timer that is not running is invisible to the loop.\<close>

lemma loop_ok_set_at:
  assumes ok: "loop_ok l" and w: "w \<notin> timer_ids l"
  shows "loop_ok (upd_w w (\<lambda>v. v\<lparr>w_at := f v\<rparr>) l)" "timer_ids (upd_w w (\<lambda>v. v\<lparr>w_at := f v\<rparr>) l) = timer_ids l"
proof -
  define l2 where "l2 = upd_w w (\<lambda>v. v\<lparr>w_at := f v\<rparr>) l"
  have ids: "timer_ids l2 = timer_ids l" by (simp add: timer_ids_def l2_def upd_w_def)
  have "verify_heap (l_timers l) (l_timercnt l) (l_ws l2)"
    by (rule verify_heap_cong [of _ _ "l_ws l"])
      (use ok w in \<open>auto simp: loop_ok_def heap_ok_def l2_def upd_w_def timer_ids_def\<close>)
  moreover have "pend_ok l2"
    by (rule pend_ok_cong [of l]) (use ok in \<open>auto simp: loop_ok_def l2_def upd_w_def ABSPRI_def\<close>)
  moreover have "ABSPRI (l_ws l2 v) = ABSPRI (l_ws l v)" for v by (rule ABSPRI_cong) (simp add: l2_def upd_w_def)
  ultimately show "loop_ok l2" using ok ids by (auto simp: loop_ok_def heap_ok_def l2_def upd_w_def)
  show "timer_ids l2 = timer_ids l" by (rule ids)
qed

lemma timer_again_ok:
  assumes ok: "loop_ok l" and w: "w \<noteq> pending_w" "0 \<le> w_repeat (l_ws l w)" and room: "l_timercnt l < 2 ^ 24"
  shows "\<exists>l'. ev_timer_again w l = Some l' \<and> loop_ok l'
    \<and> timer_ids l' = (if w_repeat (l_ws l w) = 0 then timer_ids l - {w} else insert w (timer_ids l))"
proof -
  obtain l1 where l1: "clear_pending w l = Some l1" "loop_ok l1" "w_pending (l_ws l1 w) = 0"
      "\<forall>v. w_active (l_ws l1 v) = w_active (l_ws l v) \<and> w_repeat (l_ws l1 v) = w_repeat (l_ws l v)"
      "timer_ids l1 = timer_ids l" "l_timercnt l1 = l_timercnt l"
    using loop_ok_clear [OF ok w(1)] by (elim exE conjE) rule
  have h1: "heap_ok l1" using l1(2) by (simp add: loop_ok_def)
  note act = active_iff [OF l1(2), of w, unfolded l1(5)]
  consider (stop) "w_repeat (l_ws l w) = 0" "w \<in> timer_ids l" | (idle) "w_repeat (l_ws l w) = 0" "w \<notin> timer_ids l"
    | (move) "w_repeat (l_ws l w) \<noteq> 0" "w \<in> timer_ids l" | (start) "w_repeat (l_ws l w) \<noteq> 0" "w \<notin> timer_ids l" by blast
  then show ?thesis
  proof cases
    case stop
    with timer_stop_ok [OF l1(2) w(1)] act l1(1,4,5) show ?thesis by (simp add: ev_timer_again_def)
  next
    case idle
    with act l1 show ?thesis by (simp add: ev_timer_again_def)
  next
    case move
    define a where "a = l_mn_now l1 + w_repeat (l_ws l1 w)"
    have "ev_timer_again w l = Some (retime w a l1)"
      using l1(1,4) act move by (simp add: ev_timer_again_def retime_def a_def Let_def upd_w_def)
    with loop_ok_retime [OF l1(2), of w a] retime_heap(2) [OF h1, of w a] move l1(5) show ?thesis
      by (simp add: insert_absorb)
  next
    case start
    define l2 where "l2 = upd_w w (\<lambda>v. v\<lparr>w_at := w_repeat v\<rparr>) l1"
    have l2: "loop_ok l2" "timer_ids l2 = timer_ids l"
      using loop_ok_set_at [OF l1(2), of w w_repeat] start(2) l1(5) by (simp_all add: l2_def)
    have "w_active (l_ws l2 w) = 0" "0 \<le> w_repeat (l_ws l2 w)" "l_timercnt l2 < 2 ^ 24"
      using act start(2) l1(4,6) w(2) room by (simp_all add: l2_def upd_w_def)
    from loop_ok_start [OF l2(1) w(1) this] show ?thesis
      using l1(1,4) act start l2(2) by (simp add: ev_timer_again_def l2_def)
  qed
qed

text \<open>C7: The timers of the event loop stay consistent: on a consistent loop with fewer than \<open>2 ^ 24\<close>
  timers, starting, stopping and restarting a timer whose repeat is not negative and clearing its
  pending event are never undefined, never fail an assertion, and keep every condition that the
  loop's own verifier asserts - the heap order, the positions the watchers remember, the cached times
  and the pending queues. Starting a timer adds exactly it to the heap, stopping it removes exactly
  it. Clearing leaves the heap and all other watchers alone and returns the event that was queued
  for the watcher, whose place the dummy watcher takes, or nothing when there was none.\<close>

theorem ev_timers_consistent:
  assumes "loop_ok l" "w \<noteq> pending_w" "0 \<le> w_repeat (l_ws l w)" "l_timercnt l < 2 ^ 24"
  shows "(\<exists>l'. ev_timer_start w l = Some l' \<and> loop_ok l' \<and> timer_ids l' = insert w (timer_ids l))
    \<and> (\<exists>l'. ev_timer_stop w l = Some l' \<and> loop_ok l' \<and> timer_ids l' = timer_ids l - {w})
    \<and> (\<exists>l'. ev_timer_again w l = Some l' \<and> loop_ok l'
         \<and> timer_ids l' = (if w_repeat (l_ws l w) = 0 then timer_ids l - {w} else insert w (timer_ids l)))
    \<and> (\<exists>ev l'. ev_clear_pending w l = Some (ev, l') \<and> loop_ok l' \<and> timer_ids l' = timer_ids l
         \<and> l_ws l' = (l_ws l)(w := (l_ws l w)\<lparr>w_pending := 0\<rparr>)
         \<and> (if w_pending (l_ws l w) = 0 then ev = 0 \<and> l' = l
            else \<exists>pri. ABSPRI (l_ws l w) = Some pri \<and> l_pendings l ! pri ! (w_pending (l_ws l w) - 1) = (w, ev)
              \<and> l_pendings l' = (l_pendings l)[pri := (l_pendings l ! pri)[w_pending (l_ws l w) - 1 := (pending_w, ev)]]))"
proof (intro conjI)
  show "\<exists>l'. ev_timer_start w l = Some l' \<and> loop_ok l' \<and> timer_ids l' = insert w (timer_ids l)"
  proof (cases "w_active (l_ws l w) = 0")
    case False
    with active_iff [OF assms(1), of w] assms(1) show ?thesis by (simp add: ev_timer_start_def insert_absorb)
  qed (use loop_ok_start [OF assms(1,2) _ assms(3,4)] in blast)
qed (rule timer_stop_ok [OF assms(1,2)], rule timer_again_ok [OF assms], rule ev_clear_pending_ok [OF assms(1,2)])

text \<open>Three timers for the examples: 1 and 2 run once, 3 repeats.\<close>

definition three_watchers :: store where
  "three_watchers = (\<lambda>_. stopped_watcher)(1 := stopped_watcher\<lparr>w_at := 30\<rparr>, 2 := stopped_watcher\<lparr>w_at := 10\<rparr>,
     3 := stopped_watcher\<lparr>w_at := 20, w_repeat := 5\<rparr>)"

lemma three_watchers_ok: "loop_ok (new_loop\<lparr>l_ws := three_watchers\<rparr>)"
  by (rule new_loop_ok) (simp add: three_watchers_def stopped_watcher_def)

theorem ev_timers_consistent_witness:
  "\<exists>l'. ev_timer_start 3 (new_loop\<lparr>l_ws := three_watchers\<rparr>) = Some l' \<and> loop_ok l' \<and> timer_ids l' = {3}"
proof -
  have "timer_ids (new_loop\<lparr>l_ws := three_watchers\<rparr>) = {}" by (simp add: timer_ids_def new_loop_def)
  moreover have "(3 :: wid) \<noteq> pending_w" "0 \<le> w_repeat (l_ws (new_loop\<lparr>l_ws := three_watchers\<rparr>) 3)"
    "l_timercnt (new_loop\<lparr>l_ws := three_watchers\<rparr>) < 2 ^ 24"
    by (simp_all add: pending_w_def three_watchers_def new_loop_def)
  ultimately show ?thesis using ev_timers_consistent [OF three_watchers_ok, of 3] by simp
qed

text \<open>C6: Expired timers are called back exactly once each and in the order of their times: after
  \<open>timers_reify\<close> and \<open>ev_invoke_pending\<close> on a loop without other pending events, the calls are the
  expired timers, from the highest priority to the lowest and within a priority from the earliest to
  the latest. Both loops end, timers that repeat are scheduled again at their next time or now,
  whichever is later, those that do not are stopped, and all others are left alone.\<close>

theorem ev_timers_fire_in_order:
  assumes "loop_ok l" "l_rfeeds l = []" "\<forall>pri < NUMPRI. l_pendings l ! pri = []"
    and "\<forall>w \<in> timer_ids l. 0 \<le> w_repeat (l_ws l w)"
  shows "\<exists>l1 l2 fired. timers_reify l = Some l1 \<and> loop_ok l1 \<and> (\<forall>v. timer_outcome l l1 v)
    \<and> ev_invoke_pending record_cb (l1, []) = Some (l2, concat (map (\<lambda>pri. map (\<lambda>w. (w, EV_TIMER))
        (filter (\<lambda>w. ABSPRI (l_ws l w) = Some pri) fired)) (rev [0..<NUMPRI])))
    \<and> (\<forall>pri < NUMPRI. l_pendings l2 ! pri = [])
    \<and> distinct fired \<and> set fired = due l \<and> sorted (map (\<lambda>w. w_at (l_ws l w)) fired)"
proof -
  have np: "\<forall>w \<in> due l. w_pending (l_ws l w) = 0"
    using assms(1,3) by (auto simp: loop_ok_def pend_ok_def in_queue_def)
  obtain l1 fired where r: "timers_reify l = Some l1" "loop_ok l1" "distinct fired" "set fired = due l"
      "sorted (map (\<lambda>w. w_at (l_ws l w)) fired)"
      "\<forall>pri < NUMPRI. l_pendings l1 ! pri = l_pendings l ! pri
         @ map (\<lambda>w. (w, EV_TIMER)) (rev (filter (\<lambda>w. ABSPRI (l_ws l w) = Some pri) fired))"
      "\<forall>v. timer_outcome l l1 v"
    using timers_reify_correct [OF assms(1,2,4) np] by (elim exE conjE) rule
  have "calls (l_pendings l1 ! pri) = map (\<lambda>w. (w, EV_TIMER)) (filter (\<lambda>w. ABSPRI (l_ws l w) = Some pri) fired)"
    if "pri < NUMPRI" for pri
  proof -
    have "pending_w \<notin> set fired" using r(4) assms(1) by (auto simp: loop_ok_def due_def)
    then have "filter (\<lambda>c. fst c \<noteq> pending_w) (map (\<lambda>w. (w, EV_TIMER)) (filter P fired))
        = map (\<lambda>w. (w, EV_TIMER)) (filter P fired)" for P
      by (induction fired) auto
    then show ?thesis using r(6) assms(3) that by (simp add: calls_def rev_map)
  qed
  then have "map (\<lambda>pri. calls (l_pendings l1 ! pri)) (rev [0..<NUMPRI]) = map (\<lambda>pri. map (\<lambda>w. (w, EV_TIMER))
      (filter (\<lambda>w. ABSPRI (l_ws l w) = Some pri) fired)) (rev [0..<NUMPRI])"
    by (intro map_cong) auto
  moreover have "length (l_pendings l1) = NUMPRI" using r(2) by (simp add: loop_ok_def pend_ok_def)
  ultimately obtain l2 where "ev_invoke_pending record_cb (l1, []) = Some (l2, concat (map (\<lambda>pri. map (\<lambda>w. (w, EV_TIMER))
      (filter (\<lambda>w. ABSPRI (l_ws l w) = Some pri) fired)) (rev [0..<NUMPRI])))" "\<forall>pri < NUMPRI. l_pendings l2 ! pri = []"
    using invoke_pending_record [of l1 "[]"] by (simp only: append_Nil) blast
  with r show ?thesis by blast
qed

lemma loop_ok_now [simp]: "loop_ok (l\<lparr>l_mn_now := t\<rparr>) = loop_ok l" "timer_ids (l\<lparr>l_mn_now := t\<rparr>) = timer_ids l"
  by (simp_all add: loop_ok_def heap_ok_def pend_ok_def in_queue_def timer_ids_def)

definition demo_start :: "ev_loop ub" where
  "demo_start = do {
     l1 \<leftarrow> ev_timer_start 1 (new_loop\<lparr>l_ws := three_watchers\<rparr>);
     l2 \<leftarrow> ev_timer_start 2 l1;
     ev_timer_start 3 l2
   }"

lemma demo_start_ok: "\<exists>l. demo_start = Some l \<and> loop_ok l \<and> timer_ids l = {1, 2, 3}"
proof -
  define l0 where "l0 = new_loop\<lparr>l_ws := three_watchers\<rparr>"
  have w: "(1 :: wid) \<noteq> pending_w" "(2 :: wid) \<noteq> pending_w" "(3 :: wid) \<noteq> pending_w" by (simp_all add: pending_w_def)
  have r: "map_option (\<lambda>l. (w_active (l_ws l 2), w_repeat (l_ws l 2), l_timercnt l)) (ev_timer_start 1 l0) = Some (0, 0, 1)"
    "map_option (\<lambda>l. (w_active (l_ws l 3), w_repeat (l_ws l 3), l_timercnt l)) (Option.bind (ev_timer_start 1 l0) (ev_timer_start 2)) = Some (0, 5, 2)"
    unfolding l0_def by code_simp+
  have e: "timer_ids l0 = {}" by (simp add: timer_ids_def l0_def new_loop_def)
  obtain l1 where l1: "ev_timer_start 1 l0 = Some l1" "loop_ok l1" "timer_ids l1 = {1}"
    using loop_ok_start [OF three_watchers_ok w(1)] e
    by (auto simp: l0_def new_loop_def three_watchers_def stopped_watcher_def)
  obtain l2 where l2: "ev_timer_start 2 l1 = Some l2" "loop_ok l2" "timer_ids l2 = {2, 1}"
    using loop_ok_start [OF l1(2) w(2)] r(1) l1 by auto
  obtain l3 where l3: "ev_timer_start 3 l2 = Some l3" "loop_ok l3" "timer_ids l3 = {3, 2, 1}"
    using loop_ok_start [OF l2(2) w(3)] r(2) l1 l2 by auto
  show ?thesis using l1(1) l2(1) l3 by (auto simp: demo_start_def l0_def)
qed

theorem ev_timers_fire_in_order_witness:
  "\<exists>l l1 l2. demo_start = Some l \<and> timers_reify (l\<lparr>l_mn_now := 25\<rparr>) = Some l1
     \<and> ev_invoke_pending record_cb (l1, []) = Some (l2, [(2, EV_TIMER), (3, EV_TIMER)])"
proof -
  obtain l where l: "demo_start = Some l" "loop_ok l" "timer_ids l = {1, 2, 3}" using demo_start_ok by blast
  define l' where "l' = l\<lparr>l_mn_now := 25\<rparr>"
  have ok: "loop_ok l'" "timer_ids l' = {1, 2, 3}"
    using l(2,3) by (simp_all add: l'_def)
  have "map_option (\<lambda>l. (l_rfeeds l, l_pendings l, map (\<lambda>w. (w_at (l_ws l w), w_repeat (l_ws l w), w_priority (l_ws l w))) [1, 2, 3])) demo_start
      = Some ([], [[], [], [], [], []], [(30, 0, 0), (10, 0, 0), (20, 5, 0)])"
    by code_simp
  from this [unfolded l(1)] have f: "l_rfeeds l' = []" "l_pendings l' = [[], [], [], [], []]" "w_at (l_ws l' 1) = 30" "w_at (l_ws l' 2) = 10" "w_at (l_ws l' 3) = 20"
      "\<forall>w \<in> timer_ids l'. 0 \<le> w_repeat (l_ws l' w)" "\<forall>w \<in> timer_ids l'. w_priority (l_ws l' w) = 0"
    using ok(2) by (auto simp: l'_def)
  have due: "due l' = {2, 3}" using f(3-5) ok(2) by (auto simp: due_def l'_def)
  have "\<forall>pri < NUMPRI. l_pendings l' ! pri = []" by (simp add: f(2) NUMPRI_eq less_Suc_eq numeral_eq_Suc nth_Cons')
  from ev_timers_fire_in_order [OF ok(1) f(1) this f(6)] obtain l1 l2 fired where r:
      "timers_reify l' = Some l1" "ev_invoke_pending record_cb (l1, []) = Some (l2, concat (map (\<lambda>pri. map (\<lambda>w. (w, EV_TIMER))
        (filter (\<lambda>w. ABSPRI (l_ws l' w) = Some pri) fired)) (rev [0..<NUMPRI])))"
      "distinct fired" "set fired = due l'" "sorted (map (\<lambda>w. w_at (l_ws l' w)) fired)"
    by (elim exE conjE) rule
  have "length fired = 2" using distinct_card [OF r(3)] r(4) due by simp
  then obtain a b where ab: "fired = [a, b]" by (auto simp: length_Suc_conv numeral_2_eq_2)
  then have fired: "fired = [2, 3]" using r(3,4,5) due f(4,5) by (auto simp: doubleton_eq_iff)
  have "ABSPRI (l_ws l' 2) = Some 2" "ABSPRI (l_ws l' 3) = Some 2"
    using f(7) ok(2) by (simp_all add: ABSPRI_def EV_MINPRI_def EV_MAXPRI_def)
  then show ?thesis using r(1,2) l(1) unfolding fired by (auto simp: l'_def NUMPRI_eq upt_rec numeral_eq_Suc)
qed

end
