(* ===== verification/Escaping.thy ===== *)
theory Escaping
  imports C_Numbers Strsplit
begin

text \<open>
  How untrusted strings travel through the logs: the encoding of \<open>lib/audit_logging.c\<close> (the kernel's),
  its twin in \<open>auparse/ellist.c\<close>, the decoding \<open>au_unescape\<close> and \<open>print_escaped\<close> of
  \<open>auparse/interpret.c\<close>, and the escaping of interpreted values for terminals and shells in the
  same file.

  A byte is a \<open>char\<close>; \<open>schar\<close> is its value as the signed \<open>char\<close> of the C code. A write behind the end
  of a buffer and \<open>strcpy\<close> to NULL are \<open>None\<close>; the sizes of the buffers are arguments. Whether memory
  can be allocated during a call is the argument \<open>mem_ok\<close>.
\<close>

section \<open>Characters\<close>

abbreviation byte :: "char \<Rightarrow> nat" where
  "byte c \<equiv> of_char c"

definition schar :: "char \<Rightarrow> int" where
  "schar c = (if byte c < 128 then int (byte c) else int (byte c) - 256)"

definition isxdigit :: "char \<Rightarrow> bool" where
  "isxdigit c \<longleftrightarrow> hex_val c \<noteq> None"

definition to_upper :: "char \<Rightarrow> char" where
  "to_upper c = (if 97 \<le> byte c \<and> byte c \<le> 122 then char_of (byte c - 32) else c)"

abbreviation quote :: char where
  "quote \<equiv> CHR 0x22"

section \<open>Encoding\<close>

text \<open>The loop reads at most up to the terminating NUL, which is below 0x21.\<close>

definition needs_encoding :: "char \<Rightarrow> bool" where
  "needs_encoding c \<longleftrightarrow> c = quote \<or> schar c < 0x21 \<or> c = CHR 0x7F"

definition audit_value_needs_encoding :: "string option \<Rightarrow> nat \<Rightarrow> bool" where
  "audit_value_needs_encoding str sz =
     (case str of None \<Rightarrow> False | Some s \<Rightarrow> list_ex needs_encoding (take sz (s @ [NUL])))"

definition hex_digits :: string where
  "hex_digits = ''0123456789ABCDEF''"

definition hex_pair :: "char \<Rightarrow> string" where
  "hex_pair c = [hex_digits ! (byte c div 16), hex_digits ! (byte c mod 16)]"

definition hex_encode :: "string \<Rightarrow> string" where
  "hex_encode s = concat (map hex_pair s)"

text \<open>\<open>audit_encode_value\<close>: the string left in the buffer \<open>final\<close>, whose size is given; NULL when
  there is no buffer. Reading behind the terminator of \<open>buf\<close> or writing behind the end of \<open>final\<close> is
  undefined.\<close>

definition audit_encode_value :: "nat option \<Rightarrow> string option \<Rightarrow> nat \<Rightarrow> string option ub" where
  "audit_encode_value final buf sz =
     (case final of
        None \<Rightarrow> Some None
      | Some room \<Rightarrow>
          (case buf of
             None \<Rightarrow> if room < 1 then None else Some (Some [])
           | Some s \<Rightarrow>
               if sz > length s + 1 \<or> 2 * sz + 1 > room then None
               else Some (Some (hex_encode (take sz (s @ [NUL]))))))"

text \<open>The length is an \<open>unsigned int\<close>, and so is the size of the buffer computed from it.\<close>

definition audit_encode_nv_string :: "bool \<Rightarrow> string \<Rightarrow> string option \<Rightarrow> nat \<Rightarrow> string option ub" where
  "audit_encode_nv_string mem_ok name val vlen =
     (let vlen = (case val of Some v \<Rightarrow> if vlen = 0 then length v mod 2 ^ 32 else vlen | None \<Rightarrow> vlen) in
      if val \<noteq> None \<and> audit_value_needs_encoding val vlen then
        if mem_ok then
          do { t \<leftarrow> audit_encode_value (Some ((2 * vlen + 1) mod 2 ^ 32)) val vlen;
               Some (map_option (\<lambda>tmp. name @ ''='' @ tmp) t) }
        else Some None
      else
        Some (if mem_ok then Some (name @ ''='' @ [quote] @ (case val of Some v \<Rightarrow> v | None \<Rightarrow> ''?'') @ [quote])
              else None))"

text \<open>The functions \<open>_audit_c2x\<close> and \<open>escape\<close> of \<open>ellist.c\<close>; characters are unsigned here.\<close>

definition audit_c2x :: "string \<Rightarrow> nat \<Rightarrow> string" where
  "audit_c2x buf sz = hex_encode (take sz buf)"

definition c2x_escape :: "string \<Rightarrow> string" where
  "c2x_escape tmp =
     (if list_ex (\<lambda>c. c = quote \<or> byte c < 0x21 \<or> byte c > 0x7e) tmp then audit_c2x tmp (length tmp)
      else [quote] @ tmp @ [quote])"

section \<open>Decoding\<close>

text \<open>\<open>strchr (AsciiArray, c)\<close> also finds the terminator.\<close>

definition ascii_index :: "char \<Rightarrow> nat option" where
  "ascii_index c = strchr c (hex_digits @ [NUL])"

definition x2c :: "char \<Rightarrow> char \<Rightarrow> char" where
  "x2c a b =
     char_of ((case ascii_index (to_upper a) of Some i \<Rightarrow> i mod 16 * 16 | None \<Rightarrow> 0)
       + (case ascii_index (to_upper b) of Some i \<Rightarrow> i mod 16 | None \<Rightarrow> 0))"

text \<open>The conversion loop; behind an odd number of digits it reads the terminator.\<close>

fun unhex :: "string \<Rightarrow> string" where
  "unhex [] = []"
| "unhex [a] = [x2c a NUL]"
| "unhex (a # b # s) = x2c a b # unhex s"

text \<open>An allocated block: bytes that were never written are \<open>None\<close>. Reading a string from it.\<close>

type_synonym block = "char option list"

definition block_of :: "string \<Rightarrow> block" where
  "block_of s = map Some s @ [Some NUL]"

fun read_str :: "block \<Rightarrow> string ub" where
  "read_str [] = None"
| "read_str (None # b) = None"
| "read_str (Some c # b) = (if c = NUL then Some [] else map_option (\<lambda>s. c # s) (read_str b))"

text \<open>\<open>au_unescape\<close>: NULL, or the block it returns. The block is as long as the input; the digits are
  copied into it and converted in place, and the first half of the block is cleared behind the
  result.\<close>

definition unescape_block :: "string \<Rightarrow> nat \<Rightarrow> block" where
  "unescape_block str olen =
     (let copied = block_of str @ replicate (olen - length str) None;
          bytes = unhex str;
          converted = overwrite 0 (block_of bytes) copied
      in if olen div 2 > length bytes - 1
         then overwrite (length bytes) (replicate (olen div 2 - (length bytes - 1)) (Some NUL)) converted
         else converted)"

definition au_unescape :: "bool \<Rightarrow> string \<Rightarrow> block option ub" where
  "au_unescape mem_ok buf =
     (let name_end = (if peek buf = CHR ''('' then map_option Suc (strchr (CHR '')'') buf)
                      else Some (length (takeWhile isxdigit buf)))
      in case name_end of
           None \<Rightarrow> Some None
         | Some k \<Rightarrow>
             let str = take k buf in
             if \<not> mem_ok then None
             else if peek buf = CHR ''('' then Some (Some (block_of str @ replicate (length buf - length str) None))
             else if length str < 2 then Some None
             else Some (Some (unescape_block str (length buf))))"

definition print_escaped :: "bool \<Rightarrow> string \<Rightarrow> block option ub" where
  "print_escaped mem_ok val =
     (if peek val = quote then
        (case strchr quote (tl val) of
           None \<Rightarrow> Some (if mem_ok then Some (block_of '' '') else None)
         | Some k \<Rightarrow> Some (if mem_ok then Some (block_of (take k (tl val))) else None))
      else do {
        out \<leftarrow> (if char_at val 0 = CHR ''0'' \<and> char_at val 1 = CHR ''0'' then au_unescape mem_ok (drop 2 val)
               else au_unescape mem_ok val);
        Some (case out of Some b \<Rightarrow> Some b | None \<Rightarrow> if mem_ok then Some (block_of val) else None)
      })"

text \<open>The loop of \<open>print_proctitle\<close>, which writes blanks over the NULs in front of \<open>fin\<close>; the search
  for the next NUL has no bound of its own.\<close>

function blank_nuls :: "nat \<Rightarrow> nat \<Rightarrow> block \<Rightarrow> block ub" where
  "blank_nuls fin ptr b =
     (if ptr \<ge> length b then None
      else (case b ! ptr of
          None \<Rightarrow> None
        | Some c \<Rightarrow>
            if c \<noteq> NUL then blank_nuls fin (ptr + 1) b
            else if ptr \<ge> fin then Some b
            else blank_nuls fin (ptr + 1) (b[ptr := Some blank])))"
  by pat_completeness auto
termination
  by (relation "measure (\<lambda>(fin, ptr, b). length b - ptr)") auto

declare blank_nuls.simps [simp del]

definition print_proctitle :: "bool \<Rightarrow> string \<Rightarrow> block option ub" where
  "print_proctitle mem_ok val = do {
     out \<leftarrow> print_escaped mem_ok val;
     if peek val \<noteq> quote then
       (case out of
          None \<Rightarrow> None
        | Some b \<Rightarrow> map_option Some (blank_nuls (length val div 2) 0 b))
     else Some out
   }"

section \<open>Escaping of interpreted values\<close>

datatype auparse_esc_t = AUPARSE_ESC_RAW | AUPARSE_ESC_TTY | AUPARSE_ESC_SHELL | AUPARSE_ESC_SHELL_QUOTE

definition octal :: "char \<Rightarrow> string" where
  "octal c = [CHR 0x5C, char_of (48 + byte c div 64 mod 4), char_of (48 + byte c div 8 mod 8), char_of (48 + byte c mod 8)]"

definition need_tty_escape :: "string \<Rightarrow> nat" where
  "need_tty_escape s = length (filter (\<lambda>c. byte c < 32) s)"

definition tty_escape :: "string \<Rightarrow> string" where
  "tty_escape s = concat (map (\<lambda>c. if byte c < 32 then octal c else [c]) s)"

definition sh_set :: string where
  "sh_set = [CHR 0x22, CHR 0x27, CHR 0x60, CHR ''$'', CHR 0x5C, CHR ''!'', CHR ''('', CHR '')'', CHR ''|'', blank]"

definition quote_set :: string where
  "quote_set = sh_set @ '';#&*?[]<>{}''"

text \<open>The counting function for shells compares signed characters, so it also counts those above 0x7f.\<close>

definition need_shell_escape :: "string \<Rightarrow> nat" where
  "need_shell_escape s = length (filter (\<lambda>c. schar c < 32 \<or> c \<in> set sh_set) s)"

definition need_shell_quote_escape :: "string \<Rightarrow> nat" where
  "need_shell_quote_escape s = length (filter (\<lambda>c. byte c < 32 \<or> c \<in> set quote_set) s)"

definition escape_set :: "string \<Rightarrow> string \<Rightarrow> string" where
  "escape_set special s =
     concat (map (\<lambda>c. if byte c < 32 then octal c else if c \<in> set special then [CHR 0x5C, c] else [c]) s)"

definition shell_escape :: "string \<Rightarrow> string" where
  "shell_escape s = escape_set sh_set s"

definition shell_quote_escape :: "string \<Rightarrow> string" where
  "shell_quote_escape s = escape_set quote_set s"

definition need_escaping :: "auparse_esc_t \<Rightarrow> string \<Rightarrow> nat" where
  "need_escaping mode s =
     (case mode of
        AUPARSE_ESC_RAW \<Rightarrow> 0
      | AUPARSE_ESC_TTY \<Rightarrow> need_tty_escape s
      | AUPARSE_ESC_SHELL \<Rightarrow> need_shell_escape s
      | AUPARSE_ESC_SHELL_QUOTE \<Rightarrow> need_shell_quote_escape s)"

text \<open>\<open>escape\<close>: the string written to the destination; in raw mode nothing is written.\<close>

definition escape :: "auparse_esc_t \<Rightarrow> string \<Rightarrow> string option" where
  "escape mode s =
     (case mode of
        AUPARSE_ESC_RAW \<Rightarrow> None
      | AUPARSE_ESC_TTY \<Rightarrow> Some (tty_escape s)
      | AUPARSE_ESC_SHELL \<Rightarrow> Some (shell_escape s)
      | AUPARSE_ESC_SHELL_QUOTE \<Rightarrow> Some (shell_quote_escape s))"

abbreviation key_separator :: char where
  "key_separator \<equiv> CHR 0x01"

text \<open>Writing a string with its terminator into a block.\<close>

definition write_str :: "nat \<Rightarrow> string \<Rightarrow> block \<Rightarrow> block ub" where
  "write_str i s b = (if i + length s + 1 > length b then None else Some (overwrite i (block_of s) b))"

text \<open>Lengths are kept in an \<open>unsigned int\<close>: of a string of 4 GiB or more only the part up to the
  length modulo \<open>2 ^ 32\<close> is looked at, and the sizes passed to \<open>malloc\<close> wrap around.\<close>

definition uint32 :: "nat \<Rightarrow> nat" where
  "uint32 n = n mod 2 ^ 32"

lemma uint32_code [code]: "uint32 n = nat (int n mod 4294967296)"
  by (simp add: uint32_def nat_mod_distrib)

definition uint_part :: "string \<Rightarrow> string" where
  "uint_part s = take (uint32 (length s)) s"

text \<open>The loop of \<open>key_escape\<close>: \<open>orig\<close> is what is left of the source, \<open>dptr\<close> the position in the
  destination. Every key is escaped for itself, the separators are kept.\<close>

function key_escape_loop :: "auparse_esc_t \<Rightarrow> string \<Rightarrow> nat \<Rightarrow> block \<Rightarrow> block ub" where
  "key_escape_loop mode orig dptr dest =
     (if orig = [] then Some dest
      else
        let key = takeWhile (\<lambda>c. c \<noteq> key_separator) orig;
            rest = drop (length key) orig;
            written = (if need_escaping mode (uint_part key) = 0 then Some key else escape mode (uint_part key))
        in case written of
             None \<Rightarrow> None
           | Some w \<Rightarrow>
               (case write_str dptr w dest of
                  None \<Rightarrow> None
                | Some dest' \<Rightarrow>
                    let dptr' = dptr + length w in
                    if rest = [] then Some (dest'[dptr' := Some NUL])
                    else key_escape_loop mode (tl rest) (dptr' + 1) (dest'[dptr' := Some key_separator])))"
  by pat_completeness auto
termination
proof (relation "measure (\<lambda>(mode, orig, dptr, dest). length orig)", simp, goal_cases)
  case (1 mode orig dptr dest key rest written w dest' dptr')
  then have "length rest \<le> length orig" "rest \<noteq> []" by simp_all
  then show ?case by (cases rest) auto
qed

declare key_escape_loop.simps [simp del]

definition key_escape :: "auparse_esc_t \<Rightarrow> string \<Rightarrow> block \<Rightarrow> block ub" where
  "key_escape mode orig dest = key_escape_loop mode orig 0 dest"

text \<open>The keys of a value, and how many characters of them need escaping.\<close>

function count_keys :: "auparse_esc_t \<Rightarrow> string \<Rightarrow> nat" where
  "count_keys mode ptr =
     (if ptr = [] then 0
      else let key = takeWhile (\<lambda>c. c \<noteq> key_separator) ptr
           in uint32 (need_escaping mode (uint_part key) + count_keys mode (drop (length key + 1) ptr)))"
  by pat_completeness auto
termination
  by (relation "measure (\<lambda>(mode, ptr). length ptr)") auto

declare count_keys.simps [simp del]

text \<open>The last part of \<open>auparse_do_interpretation\<close>: escaping of the interpreted value \<open>out\<close>. The
  result is the block that is returned.\<close>

definition escape_output :: "bool \<Rightarrow> bool \<Rightarrow> auparse_esc_t \<Rightarrow> string \<Rightarrow> block option ub" where
  "escape_output mem_ok is_key mode out =
     (if mode = AUPARSE_ESC_RAW then Some (Some (block_of out))
      else let len = uint32 (length out) in
      if \<not> (is_key \<and> key_separator \<in> set out) then
        let cnt = need_escaping mode (uint_part out) in
        (if cnt = 0 then Some (Some (block_of out))
         else if \<not> mem_ok then Some None
         else do {
           w \<leftarrow> escape mode (uint_part out);
           b \<leftarrow> write_str 0 w (replicate (uint32 (len + 1 + 3 * cnt)) None);
           Some (Some b)
         })
      else let cnt = count_keys mode out in
        (if cnt = 0 then Some (Some (block_of out))
         else if \<not> mem_ok then Some None
         else do {
           b \<leftarrow> key_escape mode out (replicate (uint32 (len + 1 + 3 * cnt)) None);
           Some (Some b)
         }))"

section \<open>Encoding and decoding\<close>

lemma hex_digits_index: "n < 16 \<Longrightarrow> ascii_index (to_upper (hex_digits ! n)) = Some n"
proof -
  have "\<forall>n \<in> set [0..<16]. ascii_index (to_upper (hex_digits ! n)) = Some n" by code_simp
  then show "n < 16 \<Longrightarrow> ?thesis" by simp
qed

lemma hex_digits_isxdigit: "n < 16 \<Longrightarrow> isxdigit (hex_digits ! n)"
proof -
  have "\<forall>n \<in> set [0..<16]. isxdigit (hex_digits ! n)" by code_simp
  then show "n < 16 \<Longrightarrow> ?thesis" by simp
qed

lemma x2c_hex_pair: "x2c (hex_digits ! (byte c div 16)) (hex_digits ! (byte c mod 16)) = c"
proof -
  have b: "byte c < 256" by simp
  then have "byte c div 16 < 16" "byte c mod 16 < 16" by (auto intro: less_mult_imp_div_less)
  then show ?thesis using b by (simp add: x2c_def hex_digits_index)
qed

lemma hex_encode_simps [simp]: "hex_encode [] = []" "hex_encode (c # s) = hex_pair c @ hex_encode s"
  "hex_encode (s @ t) = hex_encode s @ hex_encode t"
  by (simp_all add: hex_encode_def)

lemma length_hex_encode [simp]: "length (hex_encode s) = 2 * length s"
  by (induction s) (simp_all add: hex_pair_def)

lemma unhex_hex_encode [simp]: "unhex (hex_encode s) = s"
  by (induction s) (simp_all add: hex_pair_def x2c_hex_pair)

lemma hex_encode_isxdigit: "\<forall>c \<in> set (hex_encode s). isxdigit c"
proof -
  have "byte c < 256" for c :: char by simp
  then have "byte c div 16 < 16" "byte c mod 16 < 16" for c :: char
    by (auto intro: less_mult_imp_div_less)
  then show ?thesis by (induction s) (simp_all add: hex_pair_def hex_digits_isxdigit)
qed

lemma length_unhex: "length (unhex s) = (length s + 1) div 2"
  by (induction s rule: unhex.induct) simp_all

lemma read_str_append [simp]: "read_str (map Some s @ Some NUL # r) = Some (cstr s)"
  by (induction s) (simp_all add: cstr_def)

lemma read_str_block [simp]: "read_str (block_of s @ r) = Some (cstr s)" "read_str (block_of s) = Some (cstr s)"
  using read_str_append [of s r] read_str_append [of s "[]"] by (simp_all add: block_of_def)

lemma overwrite_0_block: "\<exists>r. overwrite 0 (block_of s) b = map Some s @ Some NUL # r"
  by (simp add: overwrite_def block_of_def)

lemma unescape_block_bytes: "\<exists>r. unescape_block str olen = map Some (unhex str) @ Some NUL # r"
proof -
  define copied where "copied = block_of str @ replicate (olen - length str) None"
  obtain r where r: "overwrite 0 (block_of (unhex str)) copied = map Some (unhex str) @ Some NUL # r"
    using overwrite_0_block by blast
  show ?thesis
  proof (cases "olen div 2 > length (unhex str) - 1")
    case True
    then obtain k where k: "olen div 2 - (length (unhex str) - 1) = Suc k" by (metis Suc_diff_Suc)
    have "overwrite (length (unhex str)) (replicate (Suc k) (Some NUL)) (map Some (unhex str) @ Some NUL # r)
      = map Some (unhex str) @ Some NUL # replicate k (Some NUL) @ drop k r"
      by (simp add: overwrite_def)
    with True r k show ?thesis by (simp add: unescape_block_def Let_def copied_def)
  next
    case False
    with r show ?thesis by (simp add: unescape_block_def Let_def copied_def)
  qed
qed

lemma isxdigit_not_special: "isxdigit c \<Longrightarrow> c \<noteq> CHR ''('' \<and> c \<noteq> quote \<and> c \<noteq> NUL \<and> c \<noteq> blank"
  by (auto simp: isxdigit_def hex_val_def Let_def split: if_splits)

lemma peek_hex_encode: "s \<noteq> [] \<Longrightarrow> isxdigit (peek (hex_encode s @ t))"
  using hex_encode_isxdigit [of s] by (cases s) (auto simp: hex_pair_def)

text \<open>Decoding what was encoded gives the bytes back, followed by a NUL.\<close>

lemma au_unescape_hex:
  assumes "s \<noteq> []"
  shows "\<exists>r. au_unescape True (hex_encode s) = Some (Some (map Some s @ Some NUL # r))"
proof -
  have "length (takeWhile isxdigit (hex_encode s)) = length (hex_encode s)"
    using hex_encode_isxdigit [of s] by (simp only: takeWhile_eq_all_conv [THEN iffD2])
  moreover have "peek (hex_encode s) \<noteq> CHR ''(''" using peek_hex_encode [OF assms, of "[]"] isxdigit_not_special by auto
  moreover have "2 \<le> length (hex_encode s)" using assms by (cases s) (simp_all add: hex_pair_def)
  moreover obtain r where "unescape_block (hex_encode s) (2 * length s) = map Some s @ Some NUL # r"
    using unescape_block_bytes [of "hex_encode s" "2 * length s"] by auto
  ultimately show ?thesis using assms unfolding au_unescape_def Let_def by simp
qed

lemma hex_pair_00: "char_at (hex_encode s) 0 = CHR ''0'' \<and> char_at (hex_encode s) 1 = CHR ''0'' \<Longrightarrow> s \<noteq> [] \<Longrightarrow> peek s = NUL"
proof -
  assume a: "char_at (hex_encode s) 0 = CHR ''0'' \<and> char_at (hex_encode s) 1 = CHR ''0''" "s \<noteq> []"
  then obtain c t where s: "s = c # t" by (cases s) auto
  have "hex_digits ! (byte c div 16) = CHR ''0''" "hex_digits ! (byte c mod 16) = CHR ''0''"
    using a(1) s by (simp_all add: hex_pair_def)
  with x2c_hex_pair [of c] have "c = x2c (CHR ''0'') (CHR ''0'')" by simp
  also have "\<dots> = NUL" by code_simp
  finally show ?thesis using s by simp
qed

lemma print_escaped_hex:
  assumes "s \<noteq> []" "peek s \<noteq> NUL"
  shows "\<exists>r. print_escaped True (hex_encode s) = Some (Some (map Some s @ Some NUL # r))"
proof -
  have "peek (hex_encode s) \<noteq> quote" using peek_hex_encode [OF assms(1), of "[]"] isxdigit_not_special by auto
  moreover have "\<not> (char_at (hex_encode s) 0 = CHR ''0'' \<and> char_at (hex_encode s) 1 = CHR ''0'')"
    using hex_pair_00 assms by blast
  moreover obtain r where "au_unescape True (hex_encode s) = Some (Some (map Some s @ Some NUL # r))"
    using au_unescape_hex [OF assms(1)] by blast
  ultimately show ?thesis unfolding print_escaped_def by (simp only: if_False) simp
qed

lemma print_escaped_quoted:
  assumes "quote \<notin> set s"
  shows "print_escaped True ([quote] @ s @ quote # t) = Some (Some (block_of s))"
  using strchr_first [OF assms, of t] by (simp add: print_escaped_def)

lemma needs_encoding_quote: "\<not> list_ex needs_encoding s \<Longrightarrow> quote \<notin> set s"
  by (auto simp: list_ex_iff needs_encoding_def)

lemma needs_encoding_blank: "needs_encoding blank"
  by code_simp

lemma is_cstr_peek: "is_cstr s \<Longrightarrow> s \<noteq> [] \<Longrightarrow> peek s \<noteq> NUL"
  by (cases s) (auto simp: is_cstr_def)

text \<open>A value as it stands in a record, and that it is read back.\<close>

definition value_text :: "string \<Rightarrow> string" where
  "value_text v = (if list_ex needs_encoding v then hex_encode v else [quote] @ v @ [quote])"

lemma value_text_decodes:
  assumes "is_cstr v" "v \<noteq> []"
  shows "\<exists>b. print_escaped True (value_text v) = Some (Some b) \<and> read_str b = Some v"
proof (cases "list_ex needs_encoding v")
  case True
  obtain r where "print_escaped True (hex_encode v) = Some (Some (map Some v @ Some NUL # r))"
    using print_escaped_hex is_cstr_peek assms by blast
  moreover have "read_str (map Some v @ Some NUL # r) = Some v"
    by (simp only: read_str_append cstr_id [OF assms(1)])
  ultimately show ?thesis using True by (simp add: value_text_def)
next
  case False
  have "print_escaped True ([quote] @ v @ [quote]) = Some (Some (block_of v))"
    using print_escaped_quoted [OF needs_encoding_quote [OF False]] by simp
  moreover have "read_str (block_of v) = Some v" by (simp only: read_str_block cstr_id [OF assms(1)])
  ultimately show ?thesis using False by (simp add: value_text_def)
qed

lemma blank_value_text: "blank \<notin> set (value_text v)"
proof (cases "list_ex needs_encoding v")
  case True
  have "blank \<notin> set (hex_encode v)"
    using hex_encode_isxdigit [of v] isxdigit_not_special by blast
  with True show ?thesis by (simp add: value_text_def)
next
  case False
  then have "blank \<notin> set ([quote] @ v @ [quote])" using needs_encoding_blank by (auto simp: list_ex_iff)
  with False show ?thesis by (simp add: value_text_def)
qed

lemma encode_nv_string_text:
  "length v < 2 ^ 31 \<Longrightarrow> audit_encode_nv_string True name (Some v) 0 = Some (Some (name @ ''='' @ value_text v))"
  by (simp add: audit_encode_nv_string_def audit_value_needs_encoding_def audit_encode_value_def value_text_def)

text \<open>C8: A string that a program logs as a field comes back unchanged when the field is interpreted,
  whatever characters it has: \<open>audit_encode_nv_string\<close> quotes it or, when it contains quotes, blanks,
  control characters or bytes above the ASCII range, writes it in hexadecimal, and \<open>print_escaped\<close>
  recovers it from the field's value, which has no blank at which the record could be cut.\<close>

theorem encoded_value_roundtrip:
  assumes "is_cstr v" "v \<noteq> []" "length v < 2 ^ 31"
  shows "\<exists>f b. audit_encode_nv_string True name (Some v) 0 = Some (Some (name @ ''='' @ f))
    \<and> print_escaped True f = Some (Some b) \<and> read_str b = Some v \<and> blank \<notin> set f"
  using value_text_decodes [OF assms(1,2)] encode_nv_string_text [OF assms(3)] blank_value_text by blast

theorem encoded_value_roundtrip_witness:
  "\<exists>f b. audit_encode_nv_string True ''acct'' (Some ''a b'') 0 = Some (Some (''acct'' @ ''='' @ f))
    \<and> print_escaped True f = Some (Some b) \<and> read_str b = Some ''a b'' \<and> blank \<notin> set f"
  by (rule encoded_value_roundtrip) (simp_all add: is_cstr_def)

section \<open>Process titles\<close>

definition blanked :: "char \<Rightarrow> char" where
  "blanked c = (if c = NUL then blank else c)"

lemma blank_nuls_run:
  "length p + length s = fin \<Longrightarrow>
     blank_nuls fin (length p) (map Some p @ map Some s @ Some NUL # t) = Some (map Some (p @ map blanked s) @ Some NUL # t)"
proof (induction s arbitrary: p)
  case Nil
  then show ?case by (subst blank_nuls.simps) (simp add: nth_append)
next
  case (Cons c s)
  have "blank_nuls fin (length p) (map Some p @ map Some (c # s) @ Some NUL # t)
    = blank_nuls fin (length (p @ [blanked c])) (map Some (p @ [blanked c]) @ map Some s @ Some NUL # t)"
    using Cons.prems by (subst blank_nuls.simps) (simp add: nth_append list_update_append blanked_def)
  also have "\<dots> = Some (map Some ((p @ [blanked c]) @ map blanked s) @ Some NUL # t)"
    using Cons.prems by (intro Cons.IH) simp
  finally show ?case by simp
qed

text \<open>C29: The title of a process, its arguments separated by NULs and written in hexadecimal, is shown
  with a blank for every separator and nothing else changed, and the loop that replaces them never
  leaves the buffer, provided the title does not begin with a separator.\<close>

theorem proctitle_arguments:
  assumes "s \<noteq> []" "peek s \<noteq> NUL"
  shows "\<exists>b. print_proctitle True (hex_encode s) = Some (Some b) \<and> read_str b = Some (map blanked s)"
proof -
  obtain r where r: "print_escaped True (hex_encode s) = Some (Some (map Some s @ Some NUL # r))"
    using print_escaped_hex [OF assms] by blast
  have "peek (hex_encode s) \<noteq> quote" using peek_hex_encode [OF assms(1), of "[]"] isxdigit_not_special by auto
  moreover have "blank_nuls (length s) 0 (map Some s @ Some NUL # r) = Some (map Some (map blanked s) @ Some NUL # r)"
    using blank_nuls_run [of "[]" s "length s" r] by simp
  moreover have "read_str (map Some (map blanked s) @ Some NUL # r) = Some (map blanked s)"
    by (simp only: read_str_append) (simp add: cstr_id is_cstr_def blanked_def image_iff)
  ultimately show ?thesis using r by (simp add: print_proctitle_def)
qed

theorem proctitle_arguments_witness:
  "\<exists>b. print_proctitle True (hex_encode (''ls'' @ [NUL] @ ''-l'')) = Some (Some b) \<and> read_str b = Some ''ls -l''"
proof -
  have "map blanked (''ls'' @ [NUL] @ ''-l'') = ''ls -l''" by code_simp
  then show ?thesis using proctitle_arguments [of "''ls'' @ [NUL] @ ''-l''"] by simp
qed

text \<open>A title that begins with a separator is taken for an abstract socket name: the separator is
  dropped, the terminator is overwritten and digits of the encoding become visible.\<close>

lemma proctitle_leading_nul:
  "map_option (map_option read_str) (print_proctitle True (hex_encode (NUL # ''ABC''))) = Some (Some (Some ''ABC 43''))"
  by code_simp

section \<open>Escaped output\<close>

definition control :: "char \<Rightarrow> bool" where
  "control c \<longleftrightarrow> byte c < 32"

lemma control_octal_digit: "n < (8 :: nat) \<Longrightarrow> \<not> control (char_of (48 + n))"
  by (simp add: control_def)

lemma backslash_no_control: "\<not> control (CHR 0x5C)"
  by code_simp

lemma octal_no_control: "c \<in> set (octal d) \<Longrightarrow> \<not> control c"
proof -
  note backslash_no_control
  moreover have "byte d div 64 mod 4 < 8" "byte d div 8 mod 8 < 8" "byte d mod 8 < 8"
    by (simp_all add: less_le_trans [OF mod_less_divisor])
  ultimately have "list_all (\<lambda>c. \<not> control c) (octal d)"
    unfolding octal_def by (simp only: list.pred_inject control_octal_digit simp_thms HOL.simp_thms)
  then show "c \<in> set (octal d) \<Longrightarrow> \<not> control c" by (simp add: list_all_iff)
qed

lemma length_concat_bound:
  "(\<And>c. length (f c) \<le> (if P c then 4 else 1)) \<Longrightarrow> length (concat (map f s)) \<le> length s + 3 * length (filter P s)"
proof (induction s)
  case (Cons c s)
  have "length (concat (map f s)) \<le> length s + 3 * length (filter P s)" by (rule Cons.IH [OF Cons.prems])
  moreover have "length (f c) \<le> (if P c then 4 else 1)" by (rule Cons.prems)
  ultimately show ?case by (cases "P c") simp_all
qed simp

lemma set_concat_map: "(\<And>c. \<forall>d \<in> set (f c). Q d) \<Longrightarrow> \<forall>d \<in> set (concat (map f s)). Q d"
  by (induction s) auto

lemma length_octal [simp]: "length (octal c) = 4"
  by (simp add: octal_def)

lemma tty_escape_facts:
  "\<forall>d \<in> set (tty_escape s). \<not> control d" "length (tty_escape s) \<le> length s + 3 * need_tty_escape s"
  unfolding tty_escape_def need_tty_escape_def
  by (rule set_concat_map, simp add: octal_no_control control_def [symmetric])
    (rule length_concat_bound, simp)

lemma control_schar: "byte c < 32 \<Longrightarrow> schar c < 32"
  by (simp add: schar_def)

lemma escape_set_facts:
  "\<forall>d \<in> set (escape_set special s). \<not> control d"
  "(\<And>c. byte c < 32 \<or> c \<in> set special \<Longrightarrow> P c) \<Longrightarrow> length (escape_set special s) \<le> length s + 3 * length (filter P s)"
  unfolding escape_set_def
  by (rule set_concat_map, simp add: octal_no_control backslash_no_control control_def [symmetric])
    (rule length_concat_bound, auto)

lemma shell_escape_facts:
  "\<forall>d \<in> set (shell_escape s). \<not> control d" "length (shell_escape s) \<le> length s + 3 * need_shell_escape s"
  unfolding shell_escape_def need_shell_escape_def
  by (rule escape_set_facts(1), rule escape_set_facts(2)) (blast intro: control_schar)

lemma shell_quote_escape_facts:
  "\<forall>d \<in> set (shell_quote_escape s). \<not> control d" "length (shell_quote_escape s) \<le> length s + 3 * need_shell_quote_escape s"
  unfolding shell_quote_escape_def need_shell_quote_escape_def
  by (rule escape_set_facts(1), rule escape_set_facts(2))

text \<open>What every mode but the raw one guarantees of a single string: no control character is left, and
  the room that is allocated suffices.\<close>

lemma escape_facts:
  assumes "escape mode s = Some w"
  shows "(\<forall>c \<in> set w. \<not> control c) \<and> length w \<le> length s + 3 * need_escaping mode s"
proof (cases mode)
  case AUPARSE_ESC_TTY
  with assms tty_escape_facts [of s] show ?thesis by (simp add: escape_def need_escaping_def)
next
  case AUPARSE_ESC_SHELL
  with assms shell_escape_facts [of s] show ?thesis by (simp add: escape_def need_escaping_def)
next
  case AUPARSE_ESC_SHELL_QUOTE
  with assms shell_quote_escape_facts [of s] show ?thesis by (simp add: escape_def need_escaping_def)
qed (use assms in \<open>simp add: escape_def\<close>)

lemma need_escaping_0:
  assumes "need_escaping mode s = 0" "mode \<noteq> AUPARSE_ESC_RAW"
  shows "\<forall>c \<in> set s. \<not> control c"
proof (cases mode)
  case AUPARSE_ESC_SHELL
  with assms have "\<forall>c \<in> set s. \<not> schar c < 32"
    by (simp add: need_escaping_def need_shell_escape_def filter_empty_conv)
  then show ?thesis using control_schar by (auto simp: control_def)
qed (use assms in \<open>simp_all add: need_escaping_def need_tty_escape_def need_shell_quote_escape_def filter_empty_conv control_def\<close>)

lemma escape_defined: "mode \<noteq> AUPARSE_ESC_RAW \<Longrightarrow> \<exists>w. escape mode s = Some w"
  by (cases mode) (simp_all add: escape_def)

text \<open>A key as it is written, escaped only when it needs it.\<close>

definition shown_key :: "auparse_esc_t \<Rightarrow> string \<Rightarrow> string" where
  "shown_key mode s = (if need_escaping mode s = 0 then s else the (escape mode s))"

lemma shown_key_facts:
  assumes "mode \<noteq> AUPARSE_ESC_RAW"
  shows "(if need_escaping mode s = 0 then Some s else escape mode s) = Some (shown_key mode s)"
    "\<forall>c \<in> set (shown_key mode s). \<not> control c" "length (shown_key mode s) \<le> length s + 3 * need_escaping mode s"
proof -
  obtain w where w: "escape mode s = Some w" using escape_defined [OF assms] by blast
  from w escape_facts [OF w] need_escaping_0 [OF _ assms, of s]
  show "(if need_escaping mode s = 0 then Some s else escape mode s) = Some (shown_key mode s)"
    "\<forall>c \<in> set (shown_key mode s). \<not> control c" "length (shown_key mode s) \<le> length s + 3 * need_escaping mode s"
    by (simp_all add: shown_key_def)
qed

lemma write_str_at:
  assumes "length p + length w + 1 \<le> length p + length r"
  shows "\<exists>r'. write_str (length p) w (p @ r) = Some (p @ map Some w @ Some NUL # r') \<and> length r = length w + 1 + length r'"
  using assms by (intro exI [of _ "drop (length w + 1) r"]) (simp add: write_str_def overwrite_def block_of_def)

lemma uint32_id [simp]: "n < 2 ^ 32 \<Longrightarrow> uint32 n = n"
  by (simp add: uint32_def)

lemma uint_part_id: "length s < 2 ^ 32 \<Longrightarrow> uint_part s = s"
  by (simp add: uint_part_def)

lemma need_escaping_le: "need_escaping mode s \<le> length s"
  by (cases mode) (simp_all add: need_escaping_def need_tty_escape_def need_shell_escape_def need_shell_quote_escape_def)

text \<open>Below 4 GiB nothing wraps around: the keys are counted exactly.\<close>

lemma count_keys_exact:
  assumes "length s < 2 ^ 32"
  shows "count_keys mode s \<le> length s"
    "s \<noteq> [] \<Longrightarrow> count_keys mode s = need_escaping mode (takeWhile (\<lambda>c. c \<noteq> key_separator) s)
       + count_keys mode (drop (length (takeWhile (\<lambda>c. c \<noteq> key_separator) s) + 1) s)"
proof -
  have "count_keys mode s \<le> length s \<and> (s \<noteq> [] \<longrightarrow> count_keys mode s = need_escaping mode (takeWhile (\<lambda>c. c \<noteq> key_separator) s)
       + count_keys mode (drop (length (takeWhile (\<lambda>c. c \<noteq> key_separator) s) + 1) s))"
    using assms
  proof (induction "length s" arbitrary: s rule: less_induct)
    case less
    show ?case
    proof (cases "s = []")
      case True then show ?thesis by (simp add: count_keys.simps)
    next
      case False
      define key where "key = takeWhile (\<lambda>c. c \<noteq> key_separator) s"
      define rest where "rest = drop (length key + 1) s"
      have k: "length key \<le> length s" by (simp add: key_def length_takeWhile_le)
      have eq: "count_keys mode s = uint32 (need_escaping mode key + count_keys mode rest)"
        using False k less.prems by (subst count_keys.simps) (simp add: Let_def key_def [symmetric] rest_def uint_part_id)
      have "length rest < length s" using False by (simp add: rest_def)
      then have c: "count_keys mode rest \<le> length rest" using less by simp
      have "need_escaping mode key + count_keys mode rest \<le> length s"
      proof (cases "length key = length s")
        case True
        then have "rest = []" by (simp add: rest_def)
        then show ?thesis using True need_escaping_le [of mode key] by (simp add: count_keys.simps)
      next
        case False
        then show ?thesis using k c need_escaping_le [of mode key] by (simp add: rest_def)
      qed
      with eq less.prems show ?thesis by (simp add: key_def [symmetric] rest_def)
    qed
  qed
  then show "count_keys mode s \<le> length s"
    "s \<noteq> [] \<Longrightarrow> count_keys mode s = need_escaping mode (takeWhile (\<lambda>c. c \<noteq> key_separator) s)
       + count_keys mode (drop (length (takeWhile (\<lambda>c. c \<noteq> key_separator) s) + 1) s)"
    by blast+
qed

text \<open>The keys of a value, each escaped for itself.\<close>

function shown_keys :: "auparse_esc_t \<Rightarrow> string \<Rightarrow> string" where
  "shown_keys mode s =
     (if s = [] then []
      else let key = takeWhile (\<lambda>c. c \<noteq> key_separator) s; rest = drop (length key) s
           in shown_key mode key @ (if rest = [] then [] else key_separator # shown_keys mode (tl rest)))"
  by pat_completeness auto
termination
  by (relation "measure (\<lambda>(mode, s). length s)") (auto simp: less_Suc_eq_le [symmetric])

declare shown_keys.simps [simp del]

lemma key_escape_loop_correct:
  assumes "mode \<noteq> AUPARSE_ESC_RAW" "s \<noteq> []" "last s \<noteq> key_separator" "length s + 3 * count_keys mode s < length r"
    "length s < 2 ^ 32"
  shows "\<exists>r'. key_escape_loop mode s (length p) (p @ r) = Some (p @ map Some (shown_keys mode s) @ Some NUL # r')"
  using assms(2-)
proof (induction "length s" arbitrary: s p r rule: less_induct)
  case less
  define key where "key = takeWhile (\<lambda>c. c \<noteq> key_separator) s"
  define rest where "rest = drop (length key) s"
  have s: "s = key @ rest"
    unfolding rest_def key_def dropWhile_eq_drop [symmetric] by (simp add: takeWhile_dropWhile_id)
  note f = shown_key_facts [OF assms(1), of key]
  have cnt: "count_keys mode s = need_escaping mode key + count_keys mode (tl rest)"
    using count_keys_exact(2) [OF less.prems(4,1)] by (simp add: key_def [symmetric] rest_def drop_Suc tl_drop [symmetric])
  have f1: "(if need_escaping mode (uint_part key) = 0 then Some key else escape mode (uint_part key)) = Some (shown_key mode key)"
    using f(1) less.prems(4) s by (simp add: uint_part_id split: if_splits)
  define q where "q = p @ map Some (shown_key mode key)"
  obtain r' where w: "write_str (length p) (shown_key mode key) (p @ r) = Some (q @ Some NUL # r')"
    "length r = length (shown_key mode key) + 1 + length r'"
    using write_str_at [of p "shown_key mode key" r] f(3) less.prems(3) s cnt by (auto simp: q_def)
  have step: "key_escape_loop mode s (length p) (p @ r) =
      (if rest = [] then Some (q @ Some NUL # r')
       else key_escape_loop mode (tl rest) (length (q @ [Some key_separator])) ((q @ [Some key_separator]) @ r'))"
    using less.prems(1) f1 w(1)
    by (subst key_escape_loop.simps) (simp add: Let_def key_def [symmetric] rest_def [symmetric] q_def list_update_append)
  have sk: "shown_keys mode s = shown_key mode key @ (if rest = [] then [] else key_separator # shown_keys mode (tl rest))"
    using less.prems(1) unfolding rest_def by (subst shown_keys.simps) (simp add: Let_def key_def [symmetric])
  show ?case
  proof (cases "rest = []")
    case True
    with step sk show ?thesis by (auto simp: q_def)
  next
    case False
    have sep: "hd rest = key_separator"
      using False hd_dropWhile [of "\<lambda>c. c \<noteq> key_separator" s] by (simp add: rest_def key_def dropWhile_eq_drop [symmetric])
    have tl: "tl rest \<noteq> []" "last (tl rest) = last s"
      using False sep less.prems(2) s by (cases rest; auto split: if_splits)+
    have "length (tl rest) < length s" "length (tl rest) + 3 * count_keys mode (tl rest) < length r'"
      "length (tl rest) < 2 ^ 32"
      using False s less.prems(3,4) cnt w(2) f(3) by (cases rest; simp)+
    from less.hyps [OF this(1) tl(1) _ this(2,3), of "q @ [Some key_separator]"] tl(2) less.prems(2) obtain t where
      "key_escape_loop mode (tl rest) (length (q @ [Some key_separator])) ((q @ [Some key_separator]) @ r')
        = Some ((q @ [Some key_separator]) @ map Some (shown_keys mode (tl rest)) @ Some NUL # t)" by auto
    with step False sk show ?thesis by (simp add: q_def)
  qed
qed

lemma shown_keys_no_control:
  "mode \<noteq> AUPARSE_ESC_RAW \<Longrightarrow> \<forall>c \<in> set (shown_keys mode s). \<not> control c \<or> c = key_separator"
proof (induction mode s rule: shown_keys.induct)
  case (1 mode s)
  show ?case
  proof (cases "s = []")
    case False
    define key where "key = takeWhile (\<lambda>c. c \<noteq> key_separator) s"
    define rest where "rest = drop (length key) s"
    have eq: "shown_keys mode s = shown_key mode key @ (if rest = [] then [] else key_separator # shown_keys mode (tl rest))"
      using False unfolding rest_def by (subst shown_keys.simps) (simp add: Let_def key_def [symmetric])
    have "\<forall>c \<in> set (shown_keys mode (tl rest)). \<not> control c \<or> c = key_separator" if "rest \<noteq> []"
      using 1(1) [OF False key_def rest_def that 1(2)] .
    then show ?thesis using shown_key_facts(2) [OF 1(2), of key] unfolding eq by (cases "rest = []") (simp_all add: ball_Un)
  qed (simp add: shown_keys.simps)
qed

lemma count_keys_0:
  "count_keys mode s = 0 \<Longrightarrow> mode \<noteq> AUPARSE_ESC_RAW \<Longrightarrow> length s < 2 ^ 32 \<Longrightarrow> \<forall>c \<in> set s. \<not> control c \<or> c = key_separator"
proof (induction mode s rule: count_keys.induct)
  case (1 mode s)
  show ?case
  proof (cases "s = []")
    case False
    define key where "key = takeWhile (\<lambda>c. c \<noteq> key_separator) s"
    have "count_keys mode s = need_escaping mode key + count_keys mode (drop (length key + 1) s)"
      using count_keys_exact(2) [OF 1(4) False] by (simp add: key_def)
    with 1(2) have z: "need_escaping mode key = 0" "count_keys mode (drop (length key + 1) s) = 0" by simp_all
    have "\<forall>c \<in> set (drop (length key + 1) s). \<not> control c \<or> c = key_separator"
      using 1(1) [OF False key_def] z(2) 1(3,4) by simp
    moreover have "\<forall>c \<in> set key. \<not> control c" by (rule need_escaping_0 [OF z(1) 1(3)])
    moreover have "set s \<subseteq> set key \<union> {key_separator} \<union> set (drop (length key + 1) s)"
    proof (cases "dropWhile (\<lambda>c. c \<noteq> key_separator) s")
      case Nil
      then have "s = key" using takeWhile_dropWhile_id [of "\<lambda>c. c \<noteq> key_separator" s] by (simp only: key_def append_Nil2)
      then show ?thesis by auto
    next
      case (Cons c t)
      then have "c = key_separator" "s = key @ c # t"
        using hd_dropWhile [of "\<lambda>c. c \<noteq> key_separator" s] takeWhile_dropWhile_id [of "\<lambda>c. c \<noteq> key_separator" s]
        by (simp, simp only: key_def)
      then show ?thesis by auto
    qed
    ultimately show ?thesis by blast
  qed simp
qed

lemma no_control_cstr: "\<forall>c \<in> set s. \<not> control c \<or> c = key_separator \<Longrightarrow> is_cstr s"
  by (auto simp: is_cstr_def control_def)

text \<open>C9: When the memory is available, escaping an interpreted value of less than 1 GiB in any mode but
  the raw one stays within the buffer that was allocated for it, and the result is a terminated string
  without control characters, with one exception: a value of several keys keeps the separators 0x01
  between its keys. A value of several keys that ends in a separator is excluded: its terminator would
  be missing.\<close>

theorem escape_output_safe:
  assumes "mode \<noteq> AUPARSE_ESC_RAW" "is_cstr out" "is_key \<and> key_separator \<in> set out \<Longrightarrow> last out \<noteq> key_separator"
    and len: "length out < 2 ^ 30"
  shows "\<exists>b s. escape_output True is_key mode out = Some (Some b) \<and> read_str b = Some s
    \<and> (\<forall>c \<in> set s. \<not> control c \<or> is_key \<and> c = key_separator)"
proof (cases "is_key \<and> key_separator \<in> set out")
  case False
  note f = shown_key_facts [OF assms(1), of out]
  have part: "uint_part out = out" "uint32 (length out) = length out" using len by (simp_all add: uint_part_id)
  show ?thesis
  proof (cases "need_escaping mode out = 0")
    case True
    with assms(1) False have "escape_output True is_key mode out = Some (Some (block_of out))"
      by (simp add: escape_output_def part Let_def)
    moreover have "read_str (block_of out) = Some out" by (simp add: cstr_id [OF assms(2)])
    ultimately show ?thesis using need_escaping_0 [OF True assms(1)] by blast
  next
    case need: False
    define size where "size = length out + 1 + 3 * need_escaping mode out"
    have size: "uint32 size = size" using len need_escaping_le [of mode out] by (simp add: size_def)
    from need f(1) have w: "escape mode out = Some (shown_key mode out)" by simp
    obtain r where "write_str 0 (shown_key mode out) (replicate size None)
        = Some (map Some (shown_key mode out) @ Some NUL # r)"
      using write_str_at [of "[]" "shown_key mode out" "replicate size None"] f(3) by (auto simp: size_def)
    with assms(1) False need w size have "escape_output True is_key mode out = Some (Some (map Some (shown_key mode out) @ Some NUL # r))"
      unfolding size_def by (simp add: escape_output_def part Let_def)
    moreover have "cstr (shown_key mode out) = shown_key mode out"
      using no_control_cstr [of "shown_key mode out"] f(2) by (simp add: cstr_id)
    ultimately show ?thesis using f(2) by (intro exI conjI) (assumption, simp, blast)
  qed
next
  case True
  then have ne: "out \<noteq> []" by auto
  have len': "length out < 2 ^ 32" using len by simp
  show ?thesis
  proof (cases "count_keys mode out = 0")
    case True': True
    have "escape_output True is_key mode out = Some (Some (block_of out))"
      using True True' assms(1) by (simp add: escape_output_def Let_def)
    moreover have "read_str (block_of out) = Some out" by (simp add: cstr_id [OF assms(2)])
    moreover have "\<forall>c \<in> set out. \<not> control c \<or> c = key_separator"
      using count_keys_0 [OF True' assms(1) len'] by blast
    ultimately show ?thesis using True by blast
  next
    case need: False
    define size where "size = length out + 1 + 3 * count_keys mode out"
    have size: "uint32 size = size" using len count_keys_exact(1) [OF len', of mode] by (simp add: size_def)
    obtain r where "key_escape_loop mode out (length []) ([] @ replicate size None)
        = Some ([] @ map Some (shown_keys mode out) @ Some NUL # r)"
      using key_escape_loop_correct [OF assms(1) ne assms(3) [OF True], of "replicate size None" "[]"] len'
      by (auto simp: size_def)
    with assms(1) True need size have "escape_output True is_key mode out = Some (Some (map Some (shown_keys mode out) @ Some NUL # r))"
      using len' unfolding size_def by (simp add: escape_output_def key_escape_def Let_def)
    moreover have "cstr (shown_keys mode out) = shown_keys mode out"
      using no_control_cstr [of "shown_keys mode out"] shown_keys_no_control [OF assms(1)] by (simp add: cstr_id)
    ultimately show ?thesis using shown_keys_no_control [OF assms(1), of out] True by (intro exI conjI) (assumption, simp, blast)
  qed
qed

theorem escape_output_safe_witness:
  "(\<exists>b s. escape_output True False AUPARSE_ESC_TTY [CHR ''a'', CHR 0x1B] = Some (Some b) \<and> read_str b = Some s
    \<and> (\<forall>c \<in> set s. \<not> control c))
   \<and> (\<exists>b s. escape_output True True AUPARSE_ESC_SHELL [CHR ''a'', blank, key_separator, CHR ''b''] = Some (Some b)
    \<and> read_str b = Some s \<and> (\<forall>c \<in> set s. \<not> control c \<or> c = key_separator))"
  using escape_output_safe [of AUPARSE_ESC_TTY "[CHR ''a'', CHR 0x1B]" False]
    escape_output_safe [of AUPARSE_ESC_SHELL "[CHR ''a'', blank, key_separator, CHR ''b'']" True]
  by (simp add: is_cstr_def)

text \<open>Behind a last separator the terminator is missing: the result cannot be read as a string.\<close>

lemma key_escape_unterminated:
  "map_option (map_option read_str) (escape_output True True AUPARSE_ESC_SHELL [CHR ''a'', blank, key_separator])
     = Some (Some None)"
  by code_simp

end
