(* ===== verification/Audit_Logging.thy ===== *)
theory Audit_Logging
  imports Escaping
begin

text \<open>
  The messages that programs log themselves: the functions \<open>audit_log_*\<close> of \<open>lib/audit_logging.c\<close>, their
  helpers, and \<open>audit_send_user_message\<close> of \<open>lib/deprecated.c\<close>.

  What the functions ask of the system - the name of the executable, the terminals, host names and
  addresses, the working directory, and what the kernel answers to a message - is the record
  \<open>log_env\<close>. The static variables are the record \<open>statics\<close>, passed through every call. Writing behind
  the end of a buffer is \<open>None\<close>. Strings are shorter than 4 GiB, so that their lengths fit an
  \<open>unsigned int\<close>.
\<close>

section \<open>Environment\<close>

record log_env =
  le_getaddrinfo :: "string \<Rightarrow> string option"
  le_readlink :: "string option"
  le_proc_comm :: "string option"
  le_ttyname :: "nat \<Rightarrow> string option"
  le_bad_tty :: "string \<Rightarrow> bool"
  le_gethostname :: string
  le_getcwd :: "string option"
  le_send :: "int \<Rightarrow> string \<Rightarrow> int \<times> int option"
  le_can_write :: bool
  le_AUDIT_USER :: int
  le_AUDIT_FIRST_USER_MSG :: int
  le_AUDIT_LAST_USER_MSG :: int

record statics =
  s_host :: string
  s_exe_user :: string
  s_exe_comm :: string
  s_exe_acct :: string
  s_exe_avc :: string
  s_exe_semanage :: string
  s_exe_command :: string

definition PATH_MAX :: int where "PATH_MAX = 4096"
definition UT_NAMESIZE :: nat where "UT_NAMESIZE = 32"
definition MAX_USER :: nat where "MAX_USER = UT_NAMESIZE * 2 + 8"
definition HOSTLEN :: nat where "HOSTLEN = 64"
definition INET6_ADDRSTRLEN :: nat where "INET6_ADDRSTRLEN = 46"
definition TEXT_LENGTH :: int where "TEXT_LENGTH = 8970"

text \<open>A string of at most \<open>n - 1\<close> characters, as \<open>snprintf\<close> leaves it in a buffer of size \<open>n\<close>.\<close>

definition snprintf :: "int \<Rightarrow> string \<Rightarrow> string" where
  "snprintf n s = take (nat (n - 1)) s"

definition ilen :: "string \<Rightarrow> int" where
  "ilen s = int (length s)"

definition or_unknown :: "string option \<Rightarrow> string" where
  "or_unknown s = (case s of Some t \<Rightarrow> t | None \<Rightarrow> ''?'')"

text \<open>NULL when the string is empty.\<close>

definition nonempty :: "string option \<Rightarrow> string option" where
  "nonempty s = (if s = Some [] then None else s)"

definition quoted :: "string \<Rightarrow> string" where
  "quoted s = [quote] @ s @ [quote]"

definition show_int :: "int \<Rightarrow> string" where
  "show_int i = (if i < 0 then CHR ''-'' # show_nat (nat (- i)) else show_nat (nat i))"

text \<open>\<open>audit_encode_value\<close> writes two digits for every character and a terminator, and knows nothing of the
  size of its destination. Here the destination is a buffer of \<open>room\<close> bytes of the caller: when the
  writes of \<open>audit_encode_value\<close> leave it, the behaviour is undefined; there is no such test in the code.\<close>

definition encode_into :: "int \<Rightarrow> string \<Rightarrow> string ub" where
  "encode_into room s = (if 2 * ilen s + 1 > room then None else Some (hex_encode s))"

section \<open>Helpers\<close>

definition resolve_addr :: "log_env \<Rightarrow> string option \<Rightarrow> string" where
  "resolve_addr env host =
     (case host of
        None \<Rightarrow> ''?''
      | Some h \<Rightarrow> if h = [] then ''?'' else or_unknown (le_getaddrinfo env h))"

definition get_exename :: "log_env \<Rightarrow> int \<Rightarrow> string ub" where
  "get_exename env sz =
     (case le_readlink env of
        None \<Rightarrow> Some (quoted ''?'')
      | Some tmp \<Rightarrow>
          if audit_value_needs_encoding (Some tmp) (length tmp) then encode_into sz tmp
          else Some (snprintf sz (quoted tmp)))"

text \<open>What was read from \<open>/proc/self/comm\<close> loses its last character, the newline.\<close>

definition get_commname :: "log_env \<Rightarrow> string option \<Rightarrow> int \<Rightarrow> string ub" where
  "get_commname env comm sz =
     (let c = (case comm of
                 Some s \<Rightarrow> Some s
               | None \<Rightarrow> (case le_proc_comm env of
                            None \<Rightarrow> None
                          | Some s \<Rightarrow> if s = [] then None else Some (cstr (butlast s))))
      in case c of
           None \<Rightarrow> Some (quoted ''?'')
         | Some s \<Rightarrow>
             if audit_value_needs_encoding (Some s) (length s) then encode_into sz s
             else Some (snprintf sz (quoted s)))"

definition starts_with :: "string \<Rightarrow> string \<Rightarrow> bool" where
  "starts_with p s \<longleftrightarrow> take (length p) s = p"

text \<open>The first of the standard descriptors that has a terminal.\<close>

fun first_tty :: "log_env \<Rightarrow> nat list \<Rightarrow> string option" where
  "first_tty env [] = None"
| "first_tty env (i # is) =
     (case le_ttyname env i of
        Some t \<Rightarrow> if t \<noteq> [] then Some t else first_tty env is
      | None \<Rightarrow> first_tty env is)"

definition get_tty :: "log_env \<Rightarrow> string option" where
  "get_tty env =
     (case first_tty env [0, 1, 2] of
        None \<Rightarrow> None
      | Some t \<Rightarrow>
          if le_bad_tty env t then None
          else if starts_with ''/dev/'' t then Some (drop 5 t)
          else Some t)"

definition get_hostname :: "log_env \<Rightarrow> string option \<Rightarrow> statics \<Rightarrow> string option \<times> statics" where
  "get_hostname env ttyn st =
     (case ttyn of
        None \<Rightarrow> (None, st)
      | Some t \<Rightarrow>
          if starts_with ''pts'' t \<or> starts_with ''tty'' t \<or> starts_with ''/dev/tty'' t then
            let st' = (if s_host st = [] then st\<lparr>s_host := take (HOSTLEN - 1) (le_gethostname env)\<rparr> else st)
            in (Some (s_host st'), st')
          else (None, st))"

section \<open>Sending\<close>

datatype hide_t = HIDE_IT | REAL_ERR

definition EPERM :: int where "EPERM = 1"
definition EINVAL :: int where "EINVAL = 22"
definition ECONNREFUSED :: int where "ECONNREFUSED = 111"

text \<open>What is left in \<open>errno\<close>: the second call's value, if it set one.\<close>

definition later_errno :: "int option \<Rightarrow> int option \<Rightarrow> int option" where
  "later_errno e1 e2 = (case e2 of Some e \<Rightarrow> Some e | None \<Rightarrow> e1)"

text \<open>The answer to a message, from the label \<open>retry\<close> on; \<open>retried\<close> is \<open>retry_cnt\<close>.\<close>

function send_retry :: "log_env \<Rightarrow> bool \<Rightarrow> int option \<Rightarrow> int \<Rightarrow> hide_t \<Rightarrow> string \<Rightarrow> int \<times> int option" where
  "send_retry env retried eno typ hide_error message =
     (case le_send env typ message of (rc, e) \<Rightarrow>
        let eno' = later_errno eno e in
        if rc = - ECONNREFUSED then (0, eno')
        else if rc = - EPERM \<and> \<not> le_can_write env \<and> hide_error = HIDE_IT then (0, eno')
        else if rc = - EINVAL \<and> le_AUDIT_FIRST_USER_MSG env \<le> typ \<and> typ \<le> le_AUDIT_LAST_USER_MSG env \<and> \<not> retried then
          send_retry env True eno' (le_AUDIT_USER env) hide_error message
        else (rc, eno'))"
  by pat_completeness auto
termination
  by (relation "measure (\<lambda>(env, retried, _). if retried then 0 else 1)") auto

declare send_retry.simps [simp del]

definition audit_send_user_message :: "log_env \<Rightarrow> int \<Rightarrow> hide_t \<Rightarrow> string \<Rightarrow> int \<times> int option" where
  "audit_send_user_message env typ hide_error message = send_retry env False None typ hide_error message"

text \<open>\<open>errno = 0; ret = audit_send_user_message (...); if ((ret < 1) && errno == 0) errno = ret;\<close>\<close>

definition errno_of :: "int option \<Rightarrow> int" where
  "errno_of e = (case e of Some x \<Rightarrow> x | None \<Rightarrow> 0)"

definition with_errno :: "int \<times> int option \<Rightarrow> int \<times> int option" where
  "with_errno r = (case r of (ret, e) \<Rightarrow> (ret, Some (if ret < 1 \<and> errno_of e = 0 then ret else errno_of e)))"

definition send_logged :: "log_env \<Rightarrow> int \<Rightarrow> hide_t \<Rightarrow> string \<Rightarrow> int \<times> int option" where
  "send_logged env typ hide_error buf = with_errno (audit_send_user_message env typ hide_error buf)"

section \<open>Common parts of the messages\<close>

definition success_text :: "int \<Rightarrow> string" where
  "success_text result = (if result \<noteq> 0 then ''success'' else ''failed'')"

definition address_text :: "log_env \<Rightarrow> string option \<Rightarrow> string option \<Rightarrow> string" where
  "address_text env addr hostname =
     (case nonempty addr of
        None \<Rightarrow> resolve_addr env hostname
      | Some a \<Rightarrow> take (INET6_ADDRSTRLEN - 1) a)"

definition tty_text :: "log_env \<Rightarrow> string option \<Rightarrow> string option" where
  "tty_text env tty = (case tty of None \<Rightarrow> get_tty env | Some t \<Rightarrow> if t = [] then None else Some t)"

definition exe_text :: "log_env \<Rightarrow> string \<Rightarrow> string ub" where
  "exe_text env exename = (if exename = [] then get_exename env (PATH_MAX * 2) else Some exename)"

definition host_text :: "log_env \<Rightarrow> string option \<Rightarrow> string option \<Rightarrow> statics \<Rightarrow> string option \<times> statics" where
  "host_text env hostname tty st =
     (if hostname = None \<and> tty \<noteq> None then get_hostname env tty st else (hostname, st))"

text \<open>The end of most messages.\<close>

definition origin_text :: "string option \<Rightarrow> string \<Rightarrow> string option \<Rightarrow> string" where
  "origin_text host addrbuf tty =
     '' hostname='' @ or_unknown host @ '' addr='' @ addrbuf @ '' terminal='' @ or_unknown tty"

section \<open>Logging functions\<close>

text \<open>The result is the return value and, when a message was sent, \<open>errno\<close>.\<close>

type_synonym log_result = "((int \<times> int option) \<times> statics) ub"

definition user_message :: "log_env \<Rightarrow> string \<Rightarrow> string option \<Rightarrow> string option \<Rightarrow> string option \<Rightarrow> int \<Rightarrow> statics \<Rightarrow> (string \<times> statics) ub" where
  "user_message env message hostname addr tty result st =
     (let host = nonempty hostname; addrbuf = address_text env addr host in
      do {
        exename \<leftarrow> exe_text env (s_exe_user st);
        let st1 = st\<lparr>s_exe_user := exename\<rparr>; tty1 = tty_text env tty in
        case host_text env host tty1 st1 of (host1, st2) \<Rightarrow>
          Some (snprintf TEXT_LENGTH (message @ '' exe='' @ exename @ origin_text host1 addrbuf tty1
                  @ '' res='' @ success_text result), st2)
      })"

definition audit_log_user_message ::
    "log_env \<Rightarrow> int \<Rightarrow> int \<Rightarrow> string \<Rightarrow> string option \<Rightarrow> string option \<Rightarrow> string option \<Rightarrow> int \<Rightarrow> statics \<Rightarrow> log_result" where
  "audit_log_user_message env audit_fd typ message hostname addr tty result st =
     (if audit_fd < 0 then Some ((0, None), st)
      else do {
        (buf, st1) \<leftarrow> user_message env message hostname addr tty result st;
        Some (send_logged env typ HIDE_IT buf, st1)
      })"

definition comm_message ::
    "log_env \<Rightarrow> string \<Rightarrow> string option \<Rightarrow> string option \<Rightarrow> string option \<Rightarrow> string option \<Rightarrow> int \<Rightarrow> statics \<Rightarrow> (string \<times> statics) ub" where
  "comm_message env message comm hostname addr tty result st =
     (let host = nonempty hostname; addrbuf = address_text env addr host in
      do {
        exename \<leftarrow> exe_text env (s_exe_comm st);
        let st1 = st\<lparr>s_exe_comm := exename\<rparr>; tty1 = tty_text env tty in
        do {
          commname \<leftarrow> get_commname env comm (PATH_MAX * 2);
          case host_text env host tty1 st1 of (host1, st2) \<Rightarrow>
            Some (snprintf TEXT_LENGTH (message @ '' comm='' @ commname @ '' exe='' @ exename
                    @ origin_text host1 addrbuf tty1 @ '' res='' @ success_text result), st2)
        }
      })"

definition audit_log_user_comm_message ::
    "log_env \<Rightarrow> int \<Rightarrow> int \<Rightarrow> string \<Rightarrow> string option \<Rightarrow> string option \<Rightarrow> string option \<Rightarrow> string option \<Rightarrow> int \<Rightarrow> statics \<Rightarrow> log_result" where
  "audit_log_user_comm_message env audit_fd typ message comm hostname addr tty result st =
     (if audit_fd < 0 then Some ((0, None), st)
      else do {
        (buf, st1) \<leftarrow> comm_message env message comm hostname addr tty result st;
        Some (send_logged env typ HIDE_IT buf, st1)
      })"

text \<open>The account: at most \<open>UT_NAMESIZE\<close> characters of the name, encoded where necessary.\<close>

definition acct_text :: "string \<Rightarrow> string ub" where
  "acct_text name =
     (let len = length (take UT_NAMESIZE (take (MAX_USER - 1) name)) in
      if audit_value_needs_encoding (Some name) len then encode_into (int MAX_USER) (take len name)
      else Some (quoted (take len (take (MAX_USER - 1) name))))"

text \<open>In \<open>audit_log_acct_message\<close> the static \<open>exename\<close> also takes the name of the program that is passed.\<close>

definition acct_exename :: "log_env \<Rightarrow> string option \<Rightarrow> string \<Rightarrow> string ub" where
  "acct_exename env pgname exename =
     (case pgname of
        None \<Rightarrow> exe_text env exename
      | Some p \<Rightarrow> Some (snprintf (PATH_MAX * 2) (if peek p \<noteq> quote then quoted p else p)))"

definition acct_message ::
    "log_env \<Rightarrow> string option \<Rightarrow> string \<Rightarrow> string option \<Rightarrow> u32 \<Rightarrow> string option \<Rightarrow> string option \<Rightarrow> string option \<Rightarrow> int \<Rightarrow> statics \<Rightarrow> (string \<times> statics) ub" where
  "acct_message env pgname op1 name id1 host addr tty result st =
     (let host0 = nonempty host; addrbuf = address_text env addr host0 in
      do {
        exename \<leftarrow> acct_exename env pgname (s_exe_acct st);
        let st1 = st\<lparr>s_exe_acct := exename\<rparr>; tty1 = tty_text env tty in
        case host_text env host0 tty1 st1 of (host1, st2) \<Rightarrow>
          do {
            who \<leftarrow> (case name of
                     Some n \<Rightarrow> if id1 = - 1 then map_option (\<lambda>a. '' acct='' @ a) (acct_text n)
                               else Some ('' id='' @ show_nat (unat id1))
                   | None \<Rightarrow> Some ('' id='' @ show_nat (unat id1)));
            Some (snprintf TEXT_LENGTH (''op='' @ op1 @ who @ '' exe='' @ exename @ origin_text host1 addrbuf tty1
                    @ '' res='' @ success_text result), st2)
          }
      })"

definition audit_log_acct_message ::
    "log_env \<Rightarrow> int \<Rightarrow> int \<Rightarrow> string option \<Rightarrow> string \<Rightarrow> string option \<Rightarrow> u32 \<Rightarrow> string option \<Rightarrow> string option \<Rightarrow> string option \<Rightarrow> int \<Rightarrow> statics \<Rightarrow> log_result" where
  "audit_log_acct_message env audit_fd typ pgname op1 name id1 host addr tty result st =
     (if audit_fd < 0 then Some ((0, None), st)
      else do {
        (buf, st1) \<leftarrow> acct_message env pgname op1 name id1 host addr tty result st;
        Some (send_logged env typ REAL_ERR buf, st1)
      })"

text \<open>Here the host name is not completed, and the user is printed as a signed number. A refusal for
  want of privileges goes to the system log.\<close>

definition avc_message ::
    "log_env \<Rightarrow> string \<Rightarrow> string option \<Rightarrow> string option \<Rightarrow> string option \<Rightarrow> u32 \<Rightarrow> statics \<Rightarrow> (string \<times> statics) ub" where
  "avc_message env message hostname addr tty uid st =
     (let host = nonempty hostname; addrbuf = address_text env addr host in
      do {
        exename \<leftarrow> exe_text env (s_exe_avc st);
        let tty1 = tty_text env tty in
        Some (snprintf TEXT_LENGTH (message @ '' exe='' @ exename @ '' sauid='' @ show_int (sint uid)
                @ origin_text host addrbuf tty1), st\<lparr>s_exe_avc := exename\<rparr>)
      })"

definition audit_log_user_avc_message ::
    "log_env \<Rightarrow> int \<Rightarrow> int \<Rightarrow> string \<Rightarrow> string option \<Rightarrow> string option \<Rightarrow> string option \<Rightarrow> u32 \<Rightarrow> statics \<Rightarrow> log_result" where
  "audit_log_user_avc_message env audit_fd typ message hostname addr tty uid st =
     (if audit_fd < 0 then Some ((0, None), st)
      else do {
        (buf, st1) \<leftarrow> avc_message env message hostname addr tty uid st;
        case audit_send_user_message env typ REAL_ERR buf of (ret, e) \<Rightarrow>
          if ret = - EPERM \<and> \<not> le_can_write env then Some ((0, Some (errno_of e)), st1)
          else Some (with_errno (ret, e), st1)
      })"

definition given_or_unknown :: "string option \<Rightarrow> string" where
  "given_or_unknown s = or_unknown (nonempty s)"

definition semanage_message ::
    "log_env \<Rightarrow> string option \<Rightarrow> string \<Rightarrow> string option \<Rightarrow> u32 \<Rightarrow> string option \<Rightarrow> string option \<Rightarrow> string option \<Rightarrow> string option \<Rightarrow>
     string option \<Rightarrow> string option \<Rightarrow> string option \<Rightarrow> string option \<Rightarrow> string option \<Rightarrow> int \<Rightarrow> statics \<Rightarrow> (string \<times> statics) ub" where
  "semanage_message env pgname op1 name id1 new_seuser new_role new_range old_seuser old_role old_range host addr tty result st =
     (let host0 = nonempty host; addrbuf = address_text env addr host0 in
      do {
        (pg, st1) \<leftarrow> (case nonempty pgname of
                        Some p \<Rightarrow> Some (p, st)
                      | None \<Rightarrow> map_option (\<lambda>e. (e, st\<lparr>s_exe_semanage := e\<rparr>)) (exe_text env (s_exe_semanage st)));
        let tty1 = (case nonempty tty of None \<Rightarrow> get_tty env | Some t \<Rightarrow> Some t) in
        do {
          who \<leftarrow> (case nonempty name of
                   Some n \<Rightarrow> map_option (\<lambda>a. '' acct='' @ a) (acct_text n)
                 | None \<Rightarrow> Some ('' id='' @ show_nat (unat id1)));
          Some (snprintf TEXT_LENGTH (''op='' @ op1 @ who
                  @ '' old-seuser='' @ given_or_unknown old_seuser @ '' old-role='' @ given_or_unknown old_role
                  @ '' old-range='' @ given_or_unknown old_range @ '' new-seuser='' @ given_or_unknown new_seuser
                  @ '' new-role='' @ given_or_unknown new_role @ '' new-range='' @ given_or_unknown new_range
                  @ '' exe='' @ pg @ origin_text host0 addrbuf (nonempty tty1) @ '' res='' @ success_text result), st1)
        }
      })"

definition audit_log_semanage_message ::
    "log_env \<Rightarrow> int \<Rightarrow> int \<Rightarrow> string option \<Rightarrow> string \<Rightarrow> string option \<Rightarrow> u32 \<Rightarrow> string option \<Rightarrow> string option \<Rightarrow> string option \<Rightarrow> string option \<Rightarrow>
     string option \<Rightarrow> string option \<Rightarrow> string option \<Rightarrow> string option \<Rightarrow> string option \<Rightarrow> int \<Rightarrow> statics \<Rightarrow> log_result" where
  "audit_log_semanage_message env audit_fd typ pgname op1 name id1 new_seuser new_role new_range old_seuser old_role old_range host addr tty result st =
     (if audit_fd < 0 then Some ((0, None), st)
      else do {
        (buf, st1) \<leftarrow> semanage_message env pgname op1 name id1 new_seuser new_role new_range old_seuser old_role old_range host addr tty result st;
        Some (send_logged env typ REAL_ERR buf, st1)
      })"

text \<open>The command without leading blanks and without trailing blanks and newlines.\<close>

definition trim_command :: "string \<Rightarrow> string" where
  "trim_command command =
     rev (dropWhile (\<lambda>c. c = CHR 0x0A \<or> c = blank) (rev (dropWhile (\<lambda>c. c = blank) command)))"

text \<open>A field of the message: the value, encoded or quoted.\<close>

definition value_field :: "bool \<Rightarrow> string \<Rightarrow> string" where
  "value_field encoded s = (if encoded then s else quoted s)"

text \<open>The command as it is put into the buffer: whether it is encoded, and the characters. A long command
  is cut at \<open>PATH_MAX\<close> characters, but only \<open>PATH_MAX - 1\<close> of them are looked at.\<close>

definition command_value :: "string \<Rightarrow> (bool \<times> string) ub" where
  "command_value cmd0 =
     (let (cmd, len) = (if ilen cmd0 \<ge> PATH_MAX then (take (nat PATH_MAX) cmd0, nat (PATH_MAX - 1)) else (cmd0, length cmd0)) in
      if audit_value_needs_encoding (Some cmd) len
      then map_option (\<lambda>t. (True, t)) (encode_into (PATH_MAX * 2) (take len cmd))
      else if ilen cmd + 1 > PATH_MAX * 2 then None
      else Some (False, cmd))"

definition cwd_value :: "log_env \<Rightarrow> (bool \<times> string) ub" where
  "cwd_value env =
     (let cwd = or_unknown (le_getcwd env) in
      if audit_value_needs_encoding (Some cwd) (length cwd)
      then map_option (\<lambda>t. (True, t)) (encode_into (PATH_MAX * 2) cwd)
      else if ilen cwd + 1 > PATH_MAX * 2 then None
      else Some (False, cwd))"

definition command_message :: "log_env \<Rightarrow> string \<Rightarrow> string option \<Rightarrow> int \<Rightarrow> string \<Rightarrow> string ub" where
  "command_message env command tty result exename =
     do {
       (cwdenc, cwdname) \<leftarrow> cwd_value env;
       (cmdenc, commname) \<leftarrow> command_value (trim_command command);
       Some (snprintf TEXT_LENGTH (''cwd='' @ value_field cwdenc cwdname @ '' cmd='' @ value_field cmdenc commname
               @ '' exe='' @ exename @ '' terminal='' @ or_unknown tty @ '' res='' @ success_text result))
     }"

definition audit_log_user_command ::
    "log_env \<Rightarrow> bool \<Rightarrow> int \<Rightarrow> int \<Rightarrow> string \<Rightarrow> string option \<Rightarrow> int \<Rightarrow> statics \<Rightarrow> log_result" where
  "audit_log_user_command env mem_ok audit_fd typ command tty result st =
     (if audit_fd < 0 then Some ((0, None), st)
      else do {
        exename \<leftarrow> exe_text env (s_exe_command st);
        let st1 = st\<lparr>s_exe_command := exename\<rparr> in
        if \<not> mem_ok then Some ((- 1, None), st1)
        else do {
          buf \<leftarrow> command_message env command (tty_text env tty) result exename;
          Some (send_logged env typ HIDE_IT buf, st1)
        }
      })"

section \<open>What is logged\<close>

lemma encode_needed: "audit_value_needs_encoding (Some s) (length s) \<longleftrightarrow> list_ex needs_encoding s"
  by (simp add: audit_value_needs_encoding_def)

lemma encode_needed_take: "n \<le> length s \<Longrightarrow> audit_value_needs_encoding (Some s) n \<longleftrightarrow> list_ex needs_encoding (take n s)"
  by (simp add: audit_value_needs_encoding_def)

lemma value_field_text:
  "encode_into room s = Some t \<Longrightarrow> list_ex needs_encoding s \<Longrightarrow> value_field True t = value_text s"
  "\<not> list_ex needs_encoding s \<Longrightarrow> value_field False s = value_text s"
  by (auto simp: encode_into_def value_field_def value_text_def quoted_def split: if_splits)

lemma command_value_short:
  assumes "ilen cmd < PATH_MAX"
  shows "\<exists>enc t. command_value cmd = Some (enc, t) \<and> value_field enc t = value_text cmd"
proof (cases "list_ex needs_encoding cmd")
  case True
  then have "encode_into (PATH_MAX * 2) cmd = Some (hex_encode cmd)"
    using assms by (simp add: encode_into_def PATH_MAX_def)
  with True assms show ?thesis
    using value_field_text(1) [of "PATH_MAX * 2" cmd] by (auto simp: command_value_def encode_needed)
next
  case False
  with assms show ?thesis
    using value_field_text(2) [OF False] by (auto simp: command_value_def encode_needed PATH_MAX_def)
qed

lemma cwd_value_short:
  assumes "le_getcwd env = Some w" "ilen w < PATH_MAX"
  shows "\<exists>enc t. cwd_value env = Some (enc, t) \<and> value_field enc t = value_text w"
proof (cases "list_ex needs_encoding w")
  case True
  then have "encode_into (PATH_MAX * 2) w = Some (hex_encode w)"
    using assms by (simp add: encode_into_def PATH_MAX_def)
  with True assms show ?thesis
    using value_field_text(1) [of "PATH_MAX * 2" w] by (auto simp: cwd_value_def encode_needed or_unknown_def)
next
  case False
  with assms show ?thesis
    using value_field_text(2) [OF False] by (auto simp: cwd_value_def encode_needed or_unknown_def PATH_MAX_def)
qed

lemma acct_text_value: "acct_text name = Some (value_text (take UT_NAMESIZE name))"
proof -
  have l: "take UT_NAMESIZE (take (MAX_USER - 1) name) = take UT_NAMESIZE name"
    by (simp add: UT_NAMESIZE_def MAX_USER_def)
  have t: "take (min (length name) UT_NAMESIZE) name = take UT_NAMESIZE name" by (simp add: min_def)
  have m: "take (min (min (length name) UT_NAMESIZE) (MAX_USER - Suc 0)) name = take UT_NAMESIZE name"
    by (auto simp: UT_NAMESIZE_def MAX_USER_def min_def)
  have "2 * ilen (take UT_NAMESIZE name) + 1 \<le> int MAX_USER"
    by (simp add: ilen_def UT_NAMESIZE_def MAX_USER_def)
  then show ?thesis
    unfolding acct_text_def l Let_def length_take
    by (simp add: encode_needed_take t m encode_into_def value_text_def quoted_def)
qed

lemma value_text_length: "s \<noteq> [] \<Longrightarrow> ilen (value_text s) \<le> 2 * ilen s + 1"
  using length_greater_0_conv [of s] by (auto simp: value_text_def ilen_def length_hex_encode simp del: length_greater_0_conv)

lemma snprintf_fits: "ilen s < n \<Longrightarrow> snprintf n s = s"
  by (simp add: snprintf_def ilen_def)

lemma snprintf_prefix: "ilen p \<le> n - 1 \<Longrightarrow> \<exists>r. snprintf n (p @ s) = p @ r"
  by (simp add: snprintf_def ilen_def)

text \<open>C10: What a program logs is what a reader of the log gets back, as long as it fits the message: the
  message that \<open>audit_log_user_command\<close> sends carries, in this order and complete, the working directory,
  the command without the blanks around it, the program, the terminal and the result, and
  interpreting the first two fields returns the directory and the command, whatever characters they
  have. Both are shorter than \<open>PATH_MAX\<close>, and twice their lengths with those of the program and the
  terminal are at most 8900 (a longer message is cut). The message that \<open>audit_log_acct_message\<close> sends
  for an operation of at most 8800 characters carries the operation and the account complete, and
  interpreting the account returns the first 32 characters of the name.\<close>

theorem logged_fields_roundtrip:
  assumes "le_getcwd env = Some w" "is_cstr w" "w \<noteq> []" "ilen w < PATH_MAX"
    and "trim_command command = c" "is_cstr c" "c \<noteq> []" "ilen c < PATH_MAX"
    and "exe_text env (s_exe_command st) = Some exe" "0 \<le> fd"
    and "2 * ilen w + 2 * ilen c + ilen exe + ilen (or_unknown (tty_text env tty)) \<le> 8900"
    and "is_cstr name" "name \<noteq> []" "acct_exename env pgname (s_exe_acct st) = Some x" "ilen op1 \<le> 8800"
  shows "(\<exists>f b g d. audit_log_user_command env True fd typ command tty result st
        = Some (send_logged env typ HIDE_IT
            (''cwd='' @ f @ '' cmd='' @ g @ '' exe='' @ exe @ '' terminal='' @ or_unknown (tty_text env tty)
              @ '' res='' @ success_text result), st\<lparr>s_exe_command := exe\<rparr>)
      \<and> print_escaped True f = Some (Some b) \<and> read_str b = Some w
      \<and> print_escaped True g = Some (Some d) \<and> read_str d = Some c)
    \<and> (\<exists>a e rest st'. audit_log_acct_message env fd typ pgname op1 (Some name) (- 1) host addr tty result st
        = Some (send_logged env typ REAL_ERR (''op='' @ op1 @ '' acct='' @ a @ '' exe='' @ rest), st')
      \<and> print_escaped True a = Some (Some e) \<and> read_str e = Some (take UT_NAMESIZE name))"
proof
  obtain enc t where w: "cwd_value env = Some (enc, t)" "value_field enc t = value_text w"
    using cwd_value_short [OF assms(1,4)] by blast
  obtain enc' t' where c: "command_value c = Some (enc', t')" "value_field enc' t' = value_text c"
    using command_value_short [OF assms(8)] by blast
  have "ilen (value_text w) \<le> 2 * ilen w + 1" "ilen (value_text c) \<le> 2 * ilen c + 1"
    using value_text_length [OF assms(3)] value_text_length [OF assms(7)] .
  then have "audit_log_user_command env True fd typ command tty result st
        = Some (send_logged env typ HIDE_IT
            (''cwd='' @ value_text w @ '' cmd='' @ value_text c @ '' exe='' @ exe @ '' terminal='' @ or_unknown (tty_text env tty)
              @ '' res='' @ success_text result), st\<lparr>s_exe_command := exe\<rparr>)"
    using w c assms(5,9,10,11)
    by (simp add: audit_log_user_command_def command_message_def snprintf_fits ilen_def TEXT_LENGTH_def success_text_def)
  with value_text_decodes [OF assms(2,3)] value_text_decodes [OF assms(6,7)]
  show "\<exists>f b g d. audit_log_user_command env True fd typ command tty result st
        = Some (send_logged env typ HIDE_IT
            (''cwd='' @ f @ '' cmd='' @ g @ '' exe='' @ exe @ '' terminal='' @ or_unknown (tty_text env tty)
              @ '' res='' @ success_text result), st\<lparr>s_exe_command := exe\<rparr>)
      \<and> print_escaped True f = Some (Some b) \<and> read_str b = Some w
      \<and> print_escaped True g = Some (Some d) \<and> read_str d = Some c" by blast
  define a where "a = value_text (take UT_NAMESIZE name)"
  have n: "is_cstr (take UT_NAMESIZE name)" "take UT_NAMESIZE name \<noteq> []"
    using assms(12,13) by (auto simp: is_cstr_def UT_NAMESIZE_def dest: in_set_takeD)
  have "ilen a \<le> 65" using value_text_length [OF n(2)] by (simp add: a_def ilen_def UT_NAMESIZE_def)
  then have "ilen (''op='' @ op1 @ '' acct='' @ a @ '' exe='') \<le> TEXT_LENGTH - 1"
    using assms(15) by (simp add: ilen_def TEXT_LENGTH_def)
  then have fits: "\<exists>rest. snprintf TEXT_LENGTH (''op='' @ op1 @ '' acct='' @ a @ '' exe='' @ s) = ''op='' @ op1 @ '' acct='' @ a @ '' exe='' @ rest" for s
    using snprintf_prefix [of "''op='' @ op1 @ '' acct='' @ a @ '' exe=''" TEXT_LENGTH s] by simp
  obtain h st2 where h: "host_text env (nonempty host) (tty_text env tty) (st\<lparr>s_exe_acct := x\<rparr>) = (h, st2)"
    by (cases "host_text env (nonempty host) (tty_text env tty) (st\<lparr>s_exe_acct := x\<rparr>)")
  have "\<exists>s. audit_log_acct_message env fd typ pgname op1 (Some name) (- 1) host addr tty result st
        = Some (send_logged env typ REAL_ERR (snprintf TEXT_LENGTH (''op='' @ op1 @ '' acct='' @ a @ '' exe='' @ s)), st2)"
    using acct_text_value [of name] assms(10,14) h
    by (intro exI) (simp add: audit_log_acct_message_def acct_message_def a_def Let_def)
  with fits have "\<exists>rest st'. audit_log_acct_message env fd typ pgname op1 (Some name) (- 1) host addr tty result st
        = Some (send_logged env typ REAL_ERR (''op='' @ op1 @ '' acct='' @ a @ '' exe='' @ rest), st')" by metis
  with value_text_decodes [OF n]
  show "\<exists>a e rest st'. audit_log_acct_message env fd typ pgname op1 (Some name) (- 1) host addr tty result st
        = Some (send_logged env typ REAL_ERR (''op='' @ op1 @ '' acct='' @ a @ '' exe='' @ rest), st')
      \<and> print_escaped True a = Some (Some e) \<and> read_str e = Some (take UT_NAMESIZE name)"
    unfolding a_def by blast
qed

definition demo_log_env :: log_env where
  "demo_log_env = \<lparr>le_getaddrinfo = (\<lambda>_. None), le_readlink = Some ''/bin/sh'', le_proc_comm = None, le_ttyname = (\<lambda>_. None),
     le_bad_tty = (\<lambda>_. False), le_gethostname = ''localhost'', le_getcwd = Some ''/root'', le_send = (\<lambda>_ _. (1, None)),
     le_can_write = True, le_AUDIT_USER = 1005, le_AUDIT_FIRST_USER_MSG = 1100, le_AUDIT_LAST_USER_MSG = 1199\<rparr>"

definition no_statics :: statics where
  "no_statics = \<lparr>s_host = [], s_exe_user = [], s_exe_comm = [], s_exe_acct = [], s_exe_avc = [], s_exe_semanage = [], s_exe_command = []\<rparr>"

theorem logged_fields_roundtrip_witness:
  "(\<exists>f b g d. audit_log_user_command demo_log_env True 3 1123 '' ls -l '' None 1 no_statics
      = Some (send_logged demo_log_env 1123 HIDE_IT (''cwd='' @ f @ '' cmd='' @ g @ '' exe='' @ quoted ''/bin/sh''
        @ '' terminal='' @ ''?'' @ '' res='' @ success_text 1), no_statics\<lparr>s_exe_command := quoted ''/bin/sh''\<rparr>)
    \<and> print_escaped True f = Some (Some b) \<and> read_str b = Some ''/root''
    \<and> print_escaped True g = Some (Some d) \<and> read_str d = Some ''ls -l'')
   \<and> (\<exists>a e rest st'. audit_log_acct_message demo_log_env 3 1123 None ''login'' (Some ''root'') (- 1) None None None 1 no_statics
        = Some (send_logged demo_log_env 1123 REAL_ERR (''op='' @ ''login'' @ '' acct='' @ a @ '' exe='' @ rest), st')
      \<and> print_escaped True a = Some (Some e) \<and> read_str e = Some (take UT_NAMESIZE ''root''))"
proof -
  have "le_getcwd demo_log_env = Some ''/root''" "is_cstr ''/root''" "''/root'' \<noteq> []" "ilen ''/root'' < PATH_MAX"
    "trim_command '' ls -l '' = ''ls -l''" "is_cstr ''ls -l''" "''ls -l'' \<noteq> []" "ilen ''ls -l'' < PATH_MAX"
    by (simp_all add: demo_log_env_def is_cstr_def ilen_def PATH_MAX_def trim_command_def)
  moreover have "exe_text demo_log_env (s_exe_command no_statics) = Some (quoted ''/bin/sh'')"
    "acct_exename demo_log_env None (s_exe_acct no_statics) = Some (quoted ''/bin/sh'')"
    by code_simp+
  moreover have "(0 :: int) \<le> 3" "is_cstr ''root''" "''root'' \<noteq> []" "ilen ''login'' \<le> 8800"
    by (simp_all add: is_cstr_def ilen_def)
  moreover have tty: "or_unknown (tty_text demo_log_env None) = ''?''" by code_simp
  moreover from tty have "2 * ilen ''/root'' + 2 * ilen ''ls -l'' + ilen (quoted ''/bin/sh'') + ilen (or_unknown (tty_text demo_log_env None)) \<le> 8900"
    by (simp add: ilen_def quoted_def)
  ultimately show ?thesis
    using logged_fields_roundtrip [of demo_log_env "''/root''" "'' ls -l ''" "''ls -l''" no_statics "quoted ''/bin/sh''" 3 None
        "''root''" None "quoted ''/bin/sh''" "''login''" 1123 1 None None]
    by metis
qed

section \<open>Buffers\<close>

lemma get_exename_short:
  assumes "\<And>p. le_readlink env = Some p \<Longrightarrow> ilen p < PATH_MAX"
  shows "\<exists>e. get_exename env (PATH_MAX * 2) = Some e"
proof (cases "le_readlink env")
  case (Some p)
  then have "ilen p < PATH_MAX" by (rule assms)
  with Some show ?thesis by (auto simp: get_exename_def encode_into_def)
qed (simp add: get_exename_def)



text \<open>A command longer than the limit is cut to \<open>PATH_MAX\<close> characters, but the last one is never
  looked at: when it is a quote or a control character, it is written into the quoted field as it
  is.\<close>

theorem command_last_character_unchecked:
  assumes "ilen s = PATH_MAX - 1" "\<not> list_ex needs_encoding s"
  shows "command_value (s @ c # rest) = Some (False, s @ [c])"
proof -
  have l: "length s = 4095" using assms(1) by (simp add: ilen_def PATH_MAX_def)
  have "nat PATH_MAX = Suc 4095" "nat (PATH_MAX - 1) = 4095" by (simp_all add: PATH_MAX_def)
  with l have t: "take (nat PATH_MAX) (s @ c # rest) = s @ [c]" "nat (PATH_MAX - 1) = length s" by simp_all
  have "\<not> audit_value_needs_encoding (Some (s @ [c])) (length s)" using assms(2) by (simp add: encode_needed_take)
  moreover have "PATH_MAX \<le> ilen (s @ c # rest)" "ilen (s @ [c]) + 1 \<le> PATH_MAX * 2"
    using assms(1) by (simp_all add: ilen_def PATH_MAX_def)
  ultimately show ?thesis unfolding command_value_def t Let_def by simp
qed

theorem command_last_character_unchecked_witness:
  "command_value (replicate 4095 (CHR ''a'') @ quote # ''b'') = Some (False, replicate 4095 (CHR ''a'') @ [quote])"
proof -
  have "\<not> needs_encoding (CHR ''a'')" by code_simp
  then have "\<not> list_ex needs_encoding (replicate 4095 (CHR ''a''))" by (auto simp: list_ex_iff set_replicate_conv_if)
  moreover have "ilen (replicate 4095 (CHR ''a'')) = PATH_MAX - 1" by (simp add: ilen_def PATH_MAX_def)
  ultimately show ?thesis using command_last_character_unchecked by blast
qed

text \<open>After a call that names the program, a call that does not reports that program again.\<close>

lemma acct_program_sticky:
  assumes "acct_message env (Some p) op1 name id1 host addr tty result st = Some (buf, st')" "p \<noteq> []" "peek p \<noteq> quote"
  shows "\<exists>e. acct_exename env' None (s_exe_acct st') = Some e \<and> e = snprintf (PATH_MAX * 2) (quoted p)"
proof -
  have "s_exe_acct st' = snprintf (PATH_MAX * 2) (quoted p)"
    using assms by (auto simp: acct_message_def acct_exename_def host_text_def get_hostname_def Let_def
        split: option.splits if_splits prod.splits Option.bind_splits)
  moreover have "snprintf (PATH_MAX * 2) (quoted p) \<noteq> []" by (simp add: snprintf_def PATH_MAX_def quoted_def)
  ultimately show ?thesis by (simp add: acct_exename_def exe_text_def)
qed

section \<open>Sending\<close>

text \<open>The value that reaches the caller: the errors that only mean that auditing is not available become
  0.\<close>

definition reported :: "log_env \<Rightarrow> hide_t \<Rightarrow> int \<Rightarrow> int" where
  "reported env hide rc = (if rc = - 111 \<or> rc = - 1 \<and> \<not> le_can_write env \<and> hide = HIDE_IT then 0 else rc)"

lemma send_retry_True:
  "send_retry env True eno typ hide message =
     (reported env hide (fst (le_send env typ message)), later_errno eno (snd (le_send env typ message)))"
  by (subst send_retry.simps)
    (auto simp: ECONNREFUSED_def EPERM_def EINVAL_def Let_def reported_def split: prod.splits)


end
