(* ===== verification/Ellist.thy ===== *)
theory Ellist
  imports Nvlist Escaping Lookup_Table
begin

text \<open>
  The records of one event in the parsing library, \<open>auparse/ellist.c\<close>: the list with its cursor, and
  \<open>parse_up_record\<close>, which cuts a record into its fields.

  A record is cut by the tokenizer of \<open>common/strsplit.c\<close>. What the loop writes into its copy of the
  text - the NUL between name and value - lies inside a token that has already been cut off, and the
  calls of the tokenizer that follow only look behind it; so the tokens are computed first and the
  loop runs over them. The allocation of the node is the argument \<open>mem_ok\<close>; the failure of any other
  allocation, which the code does not check, is not modelled. The list is the sequence of its nodes,
  the cursor an index. The working directory of the event is a pointer that \<open>aup_list_clear\<close> frees
  without resetting it; freeing it again is undefined.
\<close>

section \<open>Environment\<close>

text \<open>The tables of names, and the record types of the kernel's header.\<close>

record parse_env =
  pe_tables :: gen_tables
  pe_AUDIT_CWD :: int
  pe_AUDIT_AVC :: int

definition AUDIT_USER_AVC :: int where "AUDIT_USER_AVC = 1107"

abbreviation interp_separator :: char where
  "interp_separator \<equiv> CHR 0x1D"

definition begins :: "string \<Rightarrow> string \<Rightarrow> bool" where
  "begins p s \<longleftrightarrow> take (length p) s = p"

section \<open>Tokens\<close>

definition record_tokens :: "string \<Rightarrow> string list ub" where
  "record_tokens s =
     map_option (\<lambda>(is, mem). map (\<lambda>i. the (string_at mem i)) is) (split_all (length s + 2) (s @ [NUL]))"

text \<open>What a token is: one with a \<open>=\<close> is a field unless it begins the \<open>msg\<close> field of the kernel, any
  other one is bare.\<close>

datatype token = Skip | Field string string | Bare

definition cut_field :: "string \<Rightarrow> token" where
  "cut_field ptr =
     (case strchr (CHR ''='') ptr of
        None \<Rightarrow> Skip
      | Some k \<Rightarrow>
          let name = take k ptr in
          Field (if peek name = CHR ''('' then tl name else name) (drop (k + 1) ptr))"

definition classify :: "string \<Rightarrow> token" where
  "classify ptr =
     (if CHR ''='' \<notin> set ptr then Bare
      else if begins ''msg='' ptr then
        if char_at ptr 4 = CHR ''a'' then Skip
        else if char_at ptr 4 = CHR 0x27 then cut_field (drop 5 ptr)
        else cut_field ptr
      else cut_field ptr)"

definition strip_last :: "char \<Rightarrow> string \<Rightarrow> string" where
  "strip_last c v = (if v \<noteq> [] \<and> last v = c then butlast v else v)"

definition trim_value :: "string \<Rightarrow> string" where
  "trim_value v =
     (let v3 = strip_last (CHR 0x27) (strip_last (CHR '','') (strip_last (CHR '':'') v)) in
      if v3 \<noteq> [] \<and> last v3 = CHR '')'' \<and> v3 \<noteq> ''(none)'' \<and> v3 \<noteq> ''(null)'' then butlast v3 else v3)"

section \<open>Fields\<close>

definition append_nv :: "rnode \<Rightarrow> string option \<Rightarrow> string \<Rightarrow> rnode ub" where
  "append_nv r name val =
     map_option (\<lambda>l. r\<lparr>r_nv := l\<rparr>)
       (nvlist_append True (r_nv r) \<lparr>nv_name = name, nv_val = Some val, nv_interp_val = None, nv_item = 0\<rparr>)"

text \<open>\<open>strtok_r\<close> with one separator: the parts that are not empty.\<close>

fun split_on :: "char \<Rightarrow> string \<Rightarrow> string list" where
  "split_on c [] = [[]]"
| "split_on c (d # s) =
     (if d = c then [] # split_on c s
      else (case split_on c s of [] \<Rightarrow> [[d]] | w # ws \<Rightarrow> (d # w) # ws))"

definition strtok :: "char \<Rightarrow> string \<Rightarrow> string list" where
  "strtok c s = filter (\<lambda>w. w \<noteq> []) (split_on c s)"

fun append_keys :: "rnode \<Rightarrow> string list \<Rightarrow> rnode ub" where
  "append_keys r [] = Some r"
| "append_keys r (k # ks) = do { r' \<leftarrow> append_nv r (Some ''key'') (c2x_escape k); append_keys r' ks }"

text \<open>A \<open>key\<close> field: one that is quoted is kept, an encoded one is split at the separators.\<close>

definition add_key :: "rnode \<Rightarrow> string \<Rightarrow> rnode ub" where
  "add_key r val =
     (if peek val = quote then append_nv r (Some ''key'') val
      else do {
        key \<leftarrow> au_unescape True val;
        case key of
          None \<Rightarrow> append_nv r (Some ''key'') val
        | Some b \<Rightarrow> do { s \<leftarrow> read_str b; append_keys r (strtok key_separator s) }
      })"

text \<open>What is remembered of a field that was just stored, which depends on its position; the result is
  the offset, 1 when the record begins with a node name.\<close>

definition gather_info :: "parse_env \<Rightarrow> nat \<Rightarrow> string \<Rightarrow> string \<Rightarrow> rnode \<Rightarrow> rnode \<times> nat" where
  "gather_info env offset name val r =
     (let n = unat (cnt (r_nv r)) in
      if n = 1 \<and> name = ''node'' then (r, 1)
      else if n = 1 + offset \<and> name = ''type'' then (r\<lparr>r_type := audit_name_to_msg_type (pe_tables env) val\<rparr>, offset)
      else if (n = 2 + offset \<or> n = 11 + offset) \<and> name = ''arch'' then
        (case strtoul_base 16 val of (ival, err) \<Rightarrow>
           (r\<lparr>r_machine := (if err then - 2 else audit_elf_to_machine (pe_tables env) (ulong_to_u32 ival))\<rparr>, offset))
      else if (n = 3 + offset \<or> n = 12 + offset) \<and> name = ''syscall'' then
        (case strtoul_base 10 val of (v, err) \<Rightarrow>
           (r\<lparr>r_syscall := (if err then - 1 else to_int32 (int v))\<rparr>, offset))
      else if n = 6 + offset \<and> name = ''a0'' then
        (case strtoul_base 16 val of (v, err) \<Rightarrow> (r\<lparr>r_a0 := (if err then ULONG_MAX else v)\<rparr>, offset))
      else if n = 7 + offset \<and> name = ''a1'' then
        (case strtoul_base 16 val of (v, err) \<Rightarrow> (r\<lparr>r_a1 := (if err then ULONG_MAX else v)\<rparr>, offset))
      else if r_type r = pe_AUDIT_CWD env then
        ((if name = ''cwd'' then r\<lparr>r_cwd := Some val\<rparr> else r), offset)
      else (r, offset))"

text \<open>The permissions between braces, joined by commas; \<open>Inl\<close> when they do not fit the buffer of 256
  characters. The result is the text and the tokens behind the closing brace.\<close>

fun gather_perms :: "string list \<Rightarrow> string \<Rightarrow> unit + string \<times> string list" where
  "gather_perms [] ctx = Inr (ctx, [])"
| "gather_perms (ptr # toks) ctx =
     (if peek ptr = CHR ''}'' then Inr (ctx, toks)
      else if length ptr + 1 \<ge> 256 - length ctx then Inl ()
      else gather_perms toks (if ctx = [] then ptr else ctx @ '','' @ ptr))"

lemma gather_perms_shorter: "gather_perms toks ctx = Inr (c, rest) \<Longrightarrow> length rest \<le> length toks"
  by (induction toks ctx rule: gather_perms.induct) (auto split: if_splits)

text \<open>The loop over the tokens: the return code and the record.\<close>

function parse_tokens :: "parse_env \<Rightarrow> nat \<Rightarrow> string list \<Rightarrow> rnode \<Rightarrow> (int \<times> rnode) ub" where
  "parse_tokens env offset [] r = Some (0, r)"
| "parse_tokens env offset (ptr # toks) r =
     (case classify ptr of
        Skip \<Rightarrow> parse_tokens env offset toks r
      | Field name val0 \<Rightarrow>
          let val = trim_value val0 in
          if name = ''key'' \<and> peek val \<noteq> CHR ''('' then
            (case add_key r val of None \<Rightarrow> None | Some r' \<Rightarrow> parse_tokens env offset toks r')
          else
            (case append_nv r (Some name) val of
               None \<Rightarrow> None
             | Some r' \<Rightarrow>
                 (case gather_info env offset name val r' of (r'', offset') \<Rightarrow> parse_tokens env offset' toks r''))
      | Bare \<Rightarrow>
          if r_type r \<noteq> pe_AUDIT_AVC env \<and> r_type r \<noteq> AUDIT_USER_AVC then parse_tokens env offset toks r
          else if nvlist_get_cnt (r_nv r) = of_nat (1 + offset) then
            if begins ''avc'' ptr then parse_tokens env offset toks r
            else (case append_nv r (Some ''seresult'') ptr of None \<Rightarrow> None | Some r' \<Rightarrow> parse_tokens env offset toks r')
          else if nvlist_get_cnt (r_nv r) = of_nat (2 + offset) then
            if peek ptr = CHR ''{'' then
              (case gather_perms toks [] of
                 Inl _ \<Rightarrow> Some (- 1, r)
               | Inr (ctx, rest) \<Rightarrow>
                   (case append_nv r (Some ''seperms'') ctx of None \<Rightarrow> None | Some r' \<Rightarrow> parse_tokens env offset rest r'))
            else (case append_nv r None ptr of None \<Rightarrow> None | Some r' \<Rightarrow> parse_tokens env offset toks r')
          else parse_tokens env offset toks r)"
  by pat_completeness auto
termination
  by (relation "measure (\<lambda>(env, offset, toks, r). length toks)") (auto dest!: gather_perms_shorter)

declare parse_tokens.simps(2) [simp del]

text \<open>\<open>parse_up_record\<close>: the record is cut at the separator of the interpretations; on success the cursor
  of the fields is put on the first one.\<close>

definition parse_up_record :: "parse_env \<Rightarrow> rnode \<Rightarrow> (int \<times> rnode) ub" where
  "parse_up_record env r0 =
     (let r = (case strchr interp_separator (r_record r0) of
                 None \<Rightarrow> r0\<lparr>r_interp := None\<rparr>
               | Some k \<Rightarrow> r0\<lparr>r_record := take k (r_record r0), r_interp := Some (drop (k + 1) (r_record r0))\<rparr>)
      in case record_tokens (r_record r) of
           None \<Rightarrow> None
         | Some [] \<Rightarrow> Some (- 1, r)
         | Some toks \<Rightarrow>
             (case parse_tokens env 0 toks r of
                None \<Rightarrow> None
              | Some (rc, r') \<Rightarrow> Some (rc, if rc = 0 then r'\<lparr>r_nv := nvlist_first (r_nv r')\<rparr> else r')))"

section \<open>The list\<close>

datatype cwd_ptr = No_cwd | Cwd string | Freed_cwd

record event_list =
  el_nodes :: "rnode list"
  el_cur :: "nat option"
  el_cnt :: u32
  el_e :: au_event
  el_cwd :: cwd_ptr

definition no_event :: au_event where
  "no_event = \<lparr>e_sec = 0, e_milli = 0, e_serial = 0, e_host = None\<rparr>"

definition aup_list_create :: event_list where
  "aup_list_create = \<lparr>el_nodes = [], el_cur = None, el_cnt = 0, el_e = no_event, el_cwd = No_cwd\<rparr>"

definition aup_list_get_cnt :: "event_list option \<Rightarrow> u32" where
  "aup_list_get_cnt l = (case l of Some l \<Rightarrow> el_cnt l | None \<Rightarrow> 0)"

definition aup_list_first :: "event_list \<Rightarrow> event_list" where
  "aup_list_first l = l\<lparr>el_cur := (if el_nodes l = [] then None else Some 0)\<rparr>"

definition aup_list_get_cur :: "event_list \<Rightarrow> rnode option" where
  "aup_list_get_cur l = map_option (\<lambda>i. el_nodes l ! i) (el_cur l)"

definition aup_list_last :: "event_list \<Rightarrow> event_list" where
  "aup_list_last l = (if el_nodes l = [] then l else l\<lparr>el_cur := Some (length (el_nodes l) - 1)\<rparr>)"

definition aup_list_next :: "event_list \<Rightarrow> rnode option \<times> event_list" where
  "aup_list_next l =
     (let l' = (case el_cur l of
                  None \<Rightarrow> l
                | Some i \<Rightarrow> l\<lparr>el_cur := (if Suc i < length (el_nodes l) then Some (Suc i) else None)\<rparr>)
      in (aup_list_get_cur l', l'))"

definition new_rnode :: "string \<Rightarrow> int \<Rightarrow> nat \<Rightarrow> event_list \<Rightarrow> rnode" where
  "new_rnode record1 list_idx line_number l =
     \<lparr>r_record = record1, r_interp = None, r_cwd = None, r_type = 0, r_machine = - 1, r_syscall = - 1, r_a0 = 0, r_a1 = 0,
      r_nv = nvlist_create, r_item = unat (el_cnt l), r_list_idx = list_idx, r_line_number = line_number\<rparr>"

text \<open>The node is linked in behind the last one before its record is parsed. A working directory found in
  the record replaces, and frees, that of the event.\<close>

definition aup_list_append ::
    "parse_env \<Rightarrow> bool \<Rightarrow> event_list \<Rightarrow> string option \<Rightarrow> int \<Rightarrow> nat \<Rightarrow> (int \<times> event_list) ub" where
  "aup_list_append env mem_ok l record1 list_idx line_number =
     (case record1 of
        None \<Rightarrow> Some (- 1, l)
      | Some rec \<Rightarrow>
          if \<not> mem_ok then Some (- 1, l)
          else (case parse_up_record env (new_rnode rec list_idx line_number l) of
              None \<Rightarrow> None
            | Some (rc, r) \<Rightarrow>
                let l' = l\<lparr>el_nodes := el_nodes l @ [r], el_cur := Some (length (el_nodes l)), el_cnt := el_cnt l + 1\<rparr> in
                (case r_cwd r of
                   None \<Rightarrow> Some (rc, l')
                 | Some d \<Rightarrow> if el_cwd l = Freed_cwd then None else Some (rc, l'\<lparr>el_cwd := Cwd d\<rparr>))))"

definition aup_list_clear :: "event_list option \<Rightarrow> event_list option ub" where
  "aup_list_clear l =
     (case l of
        None \<Rightarrow> Some None
      | Some l \<Rightarrow>
          if el_cwd l = Freed_cwd then None
          else Some (Some (aup_list_create\<lparr>el_cwd := (if el_cwd l = No_cwd then No_cwd else Freed_cwd)\<rparr>)))"

text \<open>The list takes over the memory of the host name; the caller's pointer is reset.\<close>

definition aup_list_set_event :: "event_list option \<Rightarrow> au_event option \<Rightarrow> int \<times> event_list option \<times> au_event option" where
  "aup_list_set_event l e =
     (case (l, e) of
        (Some l', Some e') \<Rightarrow> (1, Some (l'\<lparr>el_e := e'\<rparr>), Some (e'\<lparr>e_host := None\<rparr>))
      | _ \<Rightarrow> (0, l, e))"

fun find_node :: "(rnode \<Rightarrow> bool) \<Rightarrow> rnode list \<Rightarrow> nat \<Rightarrow> nat option" where
  "find_node P [] i = None"
| "find_node P (n # ns) i = (if P n then Some i else find_node P ns (Suc i))"

definition goto_node :: "(rnode \<Rightarrow> bool) \<Rightarrow> event_list \<Rightarrow> rnode option \<times> event_list" where
  "goto_node P l =
     (case find_node P (el_nodes l) 0 of
        None \<Rightarrow> (None, l)
      | Some k \<Rightarrow> (Some (el_nodes l ! k), l\<lparr>el_cur := Some k\<rparr>))"

definition aup_list_find_rec :: "event_list \<Rightarrow> int \<Rightarrow> rnode option \<times> event_list" where
  "aup_list_find_rec l i = goto_node (\<lambda>n. r_type n = i) l"

definition aup_list_goto_rec :: "event_list \<Rightarrow> int \<Rightarrow> rnode option \<times> event_list" where
  "aup_list_goto_rec l i = goto_node (\<lambda>n. r_item n = nat (i mod 2 ^ 32)) l"

definition aup_list_find_rec_range :: "event_list \<Rightarrow> int \<Rightarrow> int \<Rightarrow> rnode option \<times> event_list" where
  "aup_list_find_rec_range l low high =
     (if high \<le> low then (None, l) else goto_node (\<lambda>n. low \<le> r_type n \<and> r_type n \<le> high) l)"

definition aup_list_first_field :: "event_list option \<Rightarrow> int \<times> event_list option" where
  "aup_list_first_field l =
     (case l of
        None \<Rightarrow> (0, l)
      | Some l' \<Rightarrow>
          (case el_cur l' of
             None \<Rightarrow> (0, l)
           | Some i \<Rightarrow>
               (1, Some (l'\<lparr>el_nodes := (el_nodes l')[i := (el_nodes l' ! i)\<lparr>r_nv := nvlist_first (r_nv (el_nodes l' ! i))\<rparr>]\<rparr>))))"

section \<open>Cutting a record\<close>

lemma record_tokens_words: "is_cstr s \<Longrightarrow> record_tokens s = Some (words_of s)"
proof -
  assume "is_cstr s"
  then obtain is1 mem where "split_all (length s + 2) (s @ [NUL]) = Some (is1, mem)"
    "map (string_at mem) is1 = map Some (words_of s)"
    using split_all_words by blast
  moreover from this(2) have "map (\<lambda>i. the (string_at mem i)) is1 = map the (map Some (words_of s))"
    by (metis (no_types, lifting) list.map_comp comp_def map_eq_conv)
  ultimately show ?thesis by (simp add: record_tokens_def comp_def)
qed

text \<open>Words joined by single blanks.\<close>

fun join_blank :: "string list \<Rightarrow> string" where
  "join_blank [] = []"
| "join_blank [w] = w"
| "join_blank (w # v # ws) = w @ blank # join_blank (v # ws)"

lemma words_of_join:
  "\<forall>w \<in> set ws. w \<noteq> [] \<and> blank \<notin> set w \<Longrightarrow> words_of (join_blank ws) = ws"
  by (induction ws rule: join_blank.induct) (simp_all add: words_of_last words_of_word)

lemma set_join: "set (join_blank ws) \<subseteq> insert blank (\<Union>w \<in> set ws. set w)"
  by (induction ws rule: join_blank.induct) auto

lemma is_cstr_join: "\<forall>w \<in> set ws. is_cstr w \<Longrightarrow> is_cstr (join_blank ws)"
  by (induction ws rule: join_blank.induct) auto

text \<open>A field that means nothing but itself.\<close>

definition plain_name :: "string \<Rightarrow> bool" where
  "plain_name n \<longleftrightarrow> is_cstr n \<and> CHR ''='' \<notin> set n \<and> blank \<notin> set n \<and> interp_separator \<notin> set n
     \<and> n \<noteq> ''msg'' \<and> n \<noteq> ''key'' \<and> peek n \<noteq> CHR ''(''"

definition plain_value :: "string \<Rightarrow> bool" where
  "plain_value v \<longleftrightarrow> is_cstr v \<and> blank \<notin> set v \<and> interp_separator \<notin> set v
     \<and> (v \<noteq> [] \<longrightarrow> last v \<notin> {CHR '':'', CHR '','', CHR 0x27, CHR '')''})"

definition field_text :: "string \<times> string \<Rightarrow> string" where
  "field_text f = fst f @ ''='' @ snd f"

lemma not_msg_prefix:
  assumes "CHR ''='' \<notin> set n" "n \<noteq> ''msg''"
  shows "\<not> begins ''msg='' (n @ ''='' @ v)"
proof
  assume "begins ''msg='' (n @ ''='' @ v)"
  then have eq: "take 4 (n @ ''='' @ v) = ''msg=''" by (simp add: begins_def eval_nat_numeral)
  consider "length n < 3" | "length n = 3" | "4 \<le> length n" by linarith
  then show False
  proof cases
    case 1
    have "(take 4 (n @ ''='' @ v)) ! length n = CHR ''=''" using 1 by (simp add: nth_append)
    with eq have "''msg='' ! length n = CHR ''=''" by simp
    with 1 show False by (cases "length n"; cases "length n - 1"; auto simp: nth_Cons')
  next
    case 2
    with eq have "n @ ''='' = ''msg=''" by simp
    with assms(2) show False by simp
  next
    case 3
    with eq have "take 4 n = ''msg=''" by simp
    then have "CHR ''='' \<in> set (take 4 n)" by simp
    with assms(1) show False by (meson in_set_takeD)
  qed
qed

lemma classify_plain:
  assumes "plain_name n"
  shows "classify (n @ ''='' @ v) = Field n v"
proof -
  have "CHR ''='' \<notin> set n" "n \<noteq> ''msg''" "peek n \<noteq> CHR ''(''" using assms by (simp_all add: plain_name_def)
  then show ?thesis
    using not_msg_prefix [of n v] strchr_first [of "CHR ''=''" n v] by (simp add: classify_def cut_field_def Let_def)
qed

lemma strip_last_id: "v = [] \<or> last v \<noteq> c \<Longrightarrow> strip_last c v = v"
  by (auto simp: strip_last_def)

lemma trim_plain: "plain_value v \<Longrightarrow> trim_value v = v"
  by (cases "v = []") (simp_all add: plain_value_def trim_value_def strip_last_id strip_last_def Let_def)

text \<open>The fields of a record: names and values.\<close>

definition fields :: "rnode \<Rightarrow> (string option \<times> string option) list" where
  "fields r = map (\<lambda>n. (nv_name n, nv_val n)) (nodes (r_nv r))"

text \<open>A record under construction: fields can be appended.\<close>

definition growing :: "rnode \<Rightarrow> bool" where
  "growing r \<longleftrightarrow> nv_wf (r_nv r) \<and> (nodes (r_nv r) = [] \<or> cur (r_nv r) \<noteq> None)"

lemma append_nv_fields:
  assumes "growing r" "length (fields r) + 1 < 2 ^ 32"
  shows "\<exists>r'. append_nv r name val = Some r' \<and> growing r' \<and> fields r' = fields r @ [(name, Some val)]
    \<and> r_type r' = r_type r \<and> r_record r' = r_record r \<and> r_interp r' = r_interp r \<and> r_cwd r' = r_cwd r
    \<and> unat (cnt (r_nv r')) = length (fields r')"
proof -
  let ?n = "\<lparr>nv_name = name, nv_val = Some val, nv_interp_val = None, nv_item = 0\<rparr> :: nvnode"
  have "nv_wf (r_nv r)" "nodes (r_nv r) = [] \<or> cur (r_nv r) \<noteq> None" "length (nodes (r_nv r)) + 1 < 2 ^ 32"
    using assms by (simp_all add: growing_def fields_def)
  from nvlist_append_wf [OF this, of ?n] obtain l' where l': "nvlist_append True (r_nv r) ?n = Some l'" "nv_wf l'"
    "nodes l' = nodes (r_nv r) @ [\<lparr>nv_name = name, nv_val = Some val, nv_interp_val = None, nv_item = of_nat (length (nodes (r_nv r)))\<rparr>]"
    "cur l' = Some (length (nodes (r_nv r)))" by auto
  moreover have "unat (cnt l') = length (nodes l')"
    using l'(2) by (simp add: nv_wf_def unat_of_nat take_bit_nat_eq_self)
  ultimately show ?thesis by (simp add: append_nv_def growing_def fields_def)
qed

lemma gather_info_keeps:
  "gather_info env off name val r = (r', off') \<Longrightarrow>
     r_nv r' = r_nv r \<and> r_record r' = r_record r \<and> r_interp r' = r_interp r \<and> off' \<le> max off 1"
  by (auto simp: gather_info_def Let_def split: if_splits prod.splits)

text \<open>Running over plain fields appends them; what follows is reached with the position the fields give.\<close>

lemma parse_tokens_plain:
  assumes "\<forall>(n, v) \<in> set fs. plain_name n \<and> plain_value v" "growing r" "length (fields r) + length fs < 2 ^ 32"
  shows "\<exists>r' off'. parse_tokens env off (map field_text fs @ toks) r = parse_tokens env off' toks r' \<and> growing r'
    \<and> fields r' = fields r @ map (\<lambda>(n, v). (Some n, Some v)) fs \<and> r_record r' = r_record r \<and> r_interp r' = r_interp r"
  using assms
proof (induction fs arbitrary: r off)
  case (Cons f fs)
  obtain n v where f: "f = (n, v)" by (cases f)
  then have p: "plain_name n" "plain_value v" "n \<noteq> ''key''" using Cons.prems(1) by (auto simp: plain_name_def)
  have "length (fields r) + 1 < 2 ^ 32" using Cons.prems(3) by simp
  from append_nv_fields [OF Cons.prems(2) this, of "Some n" v] obtain r1 where r1: "append_nv r (Some n) v = Some r1"
    "growing r1" "fields r1 = fields r @ [(Some n, Some v)]" "r_record r1 = r_record r" "r_interp r1 = r_interp r"
    by blast
  obtain r2 off' where r2: "gather_info env off n v r1 = (r2, off')" by (cases "gather_info env off n v r1")
  note k = gather_info_keeps [OF r2]
  have "growing r2" "length (fields r2) + length fs < 2 ^ 32"
    using k r1(2,3) Cons.prems(3) by (simp_all add: growing_def fields_def)
  from Cons.IH [OF _ this, of off'] Cons.prems(1) obtain r' off2 where
    r': "parse_tokens env off' (map field_text fs @ toks) r2 = parse_tokens env off2 toks r'"
    "growing r'" "fields r' = fields r2 @ map (\<lambda>(n, v). (Some n, Some v)) fs" "r_record r' = r_record r2" "r_interp r' = r_interp r2"
    by auto
  have "parse_tokens env off (map field_text (f # fs) @ toks) r = parse_tokens env off' (map field_text fs @ toks) r2"
    using f p r1(1) r2 classify_plain [OF p(1), of v] trim_plain [OF p(2)]
    by (simp add: parse_tokens.simps(2) field_text_def Let_def)
  with r' r1 k f show ?case by (simp add: fields_def) blast
qed auto

definition record_text :: "(string \<times> string) list \<Rightarrow> string" where
  "record_text fs = join_blank (map field_text fs)"

text \<open>Tokens that the tokenizer gives back as they are.\<close>

definition solid :: "string \<Rightarrow> bool" where
  "solid w \<longleftrightarrow> w \<noteq> [] \<and> blank \<notin> set w \<and> is_cstr w \<and> interp_separator \<notin> set w"

lemma solid_tokens:
  assumes "\<forall>w \<in> set ws. solid w"
  shows "record_tokens (join_blank ws) = Some ws" "interp_separator \<notin> set (join_blank ws)"
proof -
  have "words_of (join_blank ws) = ws" "is_cstr (join_blank ws)"
    using assms by (simp_all add: words_of_join is_cstr_join solid_def)
  then show "record_tokens (join_blank ws) = Some ws" by (simp add: record_tokens_words)
  show "interp_separator \<notin> set (join_blank ws)" using assms set_join [of ws] by (auto simp: solid_def)
qed

lemma solid_field: "plain_name n \<Longrightarrow> plain_value v \<Longrightarrow> solid (field_text (n, v))"
  by (auto simp: field_text_def solid_def plain_name_def plain_value_def)

lemma solid_fields: "\<forall>(n, v) \<in> set fs. plain_name n \<and> plain_value v \<Longrightarrow> \<forall>w \<in> set (map field_text fs). solid w"
  using solid_field by auto

lemma strchr_absent: "c \<notin> set s \<Longrightarrow> strchr c s = None"
  by (simp add: strchr_def)

text \<open>A fresh record with the text cut in two.\<close>

definition cut_rnode :: "rnode \<Rightarrow> string \<Rightarrow> string option \<Rightarrow> rnode" where
  "cut_rnode r t it = r\<lparr>r_record := t, r_interp := it\<rparr>"

lemma cut_rnode_fresh:
  "r_nv r = nvlist_create \<Longrightarrow> growing (cut_rnode r t it)" "r_nv r = nvlist_create \<Longrightarrow> fields (cut_rnode r t it) = []"
  "r_record (cut_rnode r t it) = t" "r_interp (cut_rnode r t it) = it" "r_type (cut_rnode r t it) = r_type r"
  by (simp_all add: cut_rnode_def growing_def fields_def nvlist_create_def nv_wf_def)

text \<open>The record up to the separator is parsed, the rest are the interpretations. When the loop ends well
  the cursor is on the first field.\<close>

definition with_interp :: "string \<Rightarrow> string option \<Rightarrow> string" where
  "with_interp t it = t @ (case it of None \<Rightarrow> [] | Some i \<Rightarrow> interp_separator # i)"

lemma parse_up_record_tokens:
  assumes "ws \<noteq> []" "\<forall>w \<in> set ws. solid w" "r_record r = with_interp (join_blank ws) it"
    and "parse_tokens env 0 ws (cut_rnode r (join_blank ws) it) = Some (0, r2)" "growing r2" "fields r2 \<noteq> []"
  shows "\<exists>r'. parse_up_record env r = Some (0, r') \<and> fields r' = fields r2
    \<and> r_record r' = r_record r2 \<and> r_interp r' = r_interp r2 \<and> r_cwd r' = r_cwd r2 \<and> cur (r_nv r') = Some 0 \<and> nv_wf (r_nv r')"
proof -
  note p = solid_tokens [OF assms(2)]
  have r1: "(case strchr interp_separator (r_record r) of None \<Rightarrow> r\<lparr>r_interp := None\<rparr>
      | Some k \<Rightarrow> r\<lparr>r_record := take k (r_record r), r_interp := Some (drop (k + 1) (r_record r))\<rparr>)
      = cut_rnode r (join_blank ws) it"
    using assms(3) strchr_absent [OF p(2)] strchr_first [OF p(2)]
    by (cases it) (auto simp: cut_rnode_def with_interp_def)
  obtain f fs' where "ws = f # fs'" using assms(1) by (cases ws) auto
  then have "parse_up_record env r = Some (0, r2\<lparr>r_nv := nvlist_first (r_nv r2)\<rparr>)"
    using assms(4) p(1) unfolding parse_up_record_def r1 Let_def cut_rnode_fresh by simp
  moreover have "nodes (r_nv r2) \<noteq> []" using assms(6) by (auto simp: fields_def)
  moreover have "nv_wf (nvlist_first (r_nv r2))" using assms(5) nv_wf_moves(1) by (simp add: growing_def)
  ultimately show ?thesis by (auto simp: fields_def nvlist_first_def)
qed

lemma parse_up_record_plain:
  assumes "fs \<noteq> []" "\<forall>(n, v) \<in> set fs. plain_name n \<and> plain_value v" "length fs < 2 ^ 32"
    and "r_nv r = nvlist_create" "r_record r = with_interp (record_text fs) it"
  shows "\<exists>r'. parse_up_record env r = Some (0, r') \<and> fields r' = map (\<lambda>(n, v). (Some n, Some v)) fs
    \<and> r_record r' = record_text fs \<and> r_interp r' = it \<and> cur (r_nv r') = Some 0 \<and> nv_wf (r_nv r')"
proof -
  note g = cut_rnode_fresh [where r = r and t = "record_text fs" and it = it]
  obtain r2 off where r2: "parse_tokens env 0 (map field_text fs @ []) (cut_rnode r (record_text fs) it) = parse_tokens env off [] r2" "growing r2"
    "fields r2 = map (\<lambda>(n, v). (Some n, Some v)) fs" "r_record r2 = record_text fs" "r_interp r2 = it"
    using parse_tokens_plain [OF assms(2), of "cut_rnode r (record_text fs) it" env 0 "[]"] assms(3) g assms(4) by auto
  then have "parse_tokens env 0 (map field_text fs) (cut_rnode r (join_blank (map field_text fs)) it) = Some (0, r2)"
    by (simp add: record_text_def)
  from parse_up_record_tokens [OF _ solid_fields [OF assms(2)] _ this r2(2)] assms(1,5) r2(3-) show ?thesis
    by (auto simp: record_text_def)
qed

section \<open>Keys\<close>

lemma split_on_append: "c \<notin> set w \<Longrightarrow> split_on c (w @ c # s) = w # split_on c s"
  by (induction w) auto

lemma split_on_last: "c \<notin> set w \<Longrightarrow> split_on c w = [w]"
  by (induction w) auto

fun join_keys :: "string list \<Rightarrow> string" where
  "join_keys [] = []"
| "join_keys [k] = k"
| "join_keys (k # l # ks) = k @ key_separator # join_keys (l # ks)"

lemma strtok_join:
  "\<forall>k \<in> set ks. k \<noteq> [] \<and> key_separator \<notin> set k \<Longrightarrow> strtok key_separator (join_keys ks) = ks"
  by (induction ks rule: join_keys.induct) (simp_all add: strtok_def split_on_append split_on_last)

lemma join_keys_nonempty: "ks \<noteq> [] \<Longrightarrow> \<forall>k \<in> set ks. k \<noteq> [] \<Longrightarrow> join_keys ks \<noteq> []"
  by (cases ks rule: join_keys.cases) auto

lemma is_cstr_join_keys: "\<forall>k \<in> set ks. is_cstr k \<Longrightarrow> is_cstr (join_keys ks)"
  by (induction ks rule: join_keys.induct) auto

lemma append_keys_fields:
  assumes "growing r" "length (fields r) + length ks < 2 ^ 32"
  shows "\<exists>r'. append_keys r ks = Some r' \<and> growing r' \<and> fields r' = fields r @ map (\<lambda>k. (Some ''key'', Some (c2x_escape k))) ks"
  using assms
proof (induction ks arbitrary: r)
  case (Cons k ks)
  have "length (fields r) + 1 < 2 ^ 32" using Cons.prems(2) by simp
  from append_nv_fields [OF Cons.prems(1) this, of "Some ''key''" "c2x_escape k"] obtain r1 where
    r1: "append_nv r (Some ''key'') (c2x_escape k) = Some r1" "growing r1" "fields r1 = fields r @ [(Some ''key'', Some (c2x_escape k))]"
    by blast
  then have "length (fields r1) + length ks < 2 ^ 32" using Cons.prems(2) by simp
  from Cons.IH [OF r1(2) this] r1 show ?case by auto
qed simp

text \<open>A key as it is stored is read back as it was given.\<close>

lemma c2x_escape_decodes:
  assumes "is_cstr k" "k \<noteq> []"
  shows "\<exists>b. print_escaped True (c2x_escape k) = Some (Some b) \<and> read_str b = Some k"
proof (cases "list_ex (\<lambda>c. c = quote \<or> byte c < 0x21 \<or> byte c > 0x7e) k")
  case True
  then have e: "c2x_escape k = hex_encode k" by (simp add: c2x_escape_def audit_c2x_def)
  obtain r where "print_escaped True (hex_encode k) = Some (Some (map Some k @ Some NUL # r))"
    using print_escaped_hex is_cstr_peek assms by blast
  moreover have "read_str (map Some k @ Some NUL # r) = Some k"
    by (simp only: read_str_append cstr_id [OF assms(1)])
  ultimately show ?thesis using e by simp
next
  case False
  then have e: "c2x_escape k = [quote] @ k @ [quote]" by (simp add: c2x_escape_def)
  have "quote \<notin> set k" using False by (auto simp: list_ex_iff)
  from print_escaped_quoted [OF this, of "[]"] have "print_escaped True (c2x_escape k) = Some (Some (block_of k))" using e by simp
  moreover have "read_str (block_of k) = Some k" by (simp only: read_str_block cstr_id [OF assms(1)])
  ultimately show ?thesis by blast
qed

lemma add_key_hex:
  assumes "is_cstr s" "s \<noteq> []" "growing r" "length (fields r) + length (strtok key_separator s) < 2 ^ 32"
  shows "\<exists>r'. add_key r (hex_encode s) = Some r' \<and> growing r'
    \<and> fields r' = fields r @ map (\<lambda>k. (Some ''key'', Some (c2x_escape k))) (strtok key_separator s)"
proof -
  obtain t where t: "au_unescape True (hex_encode s) = Some (Some (map Some s @ Some NUL # t))"
    using au_unescape_hex [OF assms(2)] by blast
  have "read_str (map Some s @ Some NUL # t) = Some s" by (simp only: read_str_append cstr_id [OF assms(1)])
  moreover have "peek (hex_encode s) \<noteq> quote" using peek_hex_encode [OF assms(2), of "[]"] isxdigit_not_special by auto
  ultimately have "add_key r (hex_encode s) = append_keys r (strtok key_separator s)" using t by (simp add: add_key_def)
  then show ?thesis using append_keys_fields [OF assms(3,4)] by simp
qed

lemma xdigit_no_punctuation:
  "\<not> isxdigit (CHR '':'')" "\<not> isxdigit (CHR '','')" "\<not> isxdigit (CHR 0x27)" "\<not> isxdigit (CHR '')'')"
  "\<not> isxdigit (CHR ''('')" "\<not> isxdigit blank" "\<not> isxdigit NUL" "\<not> isxdigit interp_separator"
  by code_simp+

lemma hex_encode_plain:
  assumes "s \<noteq> []"
  shows "plain_value (hex_encode s)" "peek (hex_encode s) \<noteq> CHR ''(''"
proof -
  have x: "isxdigit c" if "c \<in> set (hex_encode s)" for c using that hex_encode_isxdigit by blast
  have l: "last (hex_encode s) \<in> set (hex_encode s)" using assms by (cases s) (simp_all add: hex_pair_def)
  show "plain_value (hex_encode s)" unfolding plain_value_def is_cstr_def
    using x [OF l] x [of blank] x [of NUL] x [of interp_separator] xdigit_no_punctuation by auto
  show "peek (hex_encode s) \<noteq> CHR ''(''"
    using peek_hex_encode [OF assms, of "[]"] xdigit_no_punctuation by auto
qed

lemma classify_key: "classify (''key='' @ v) = Field ''key'' v"
  by (simp add: classify_def begins_def cut_field_def strchr_def Let_def)

section \<open>Records of the kernel's access control\<close>

definition join_comma :: "string list \<Rightarrow> string" where
  "join_comma ws = (case ws of [] \<Rightarrow> [] | w # ws \<Rightarrow> w @ concat (map (\<lambda>w. CHR '','' # w) ws))"

lemma gather_perms_more:
  "ctx \<noteq> [] \<Longrightarrow> \<forall>p \<in> set ps. p \<noteq> [] \<and> peek p \<noteq> CHR ''}'' \<Longrightarrow>
     length ctx + length (concat (map (\<lambda>w. CHR '','' # w) ps)) < 256 \<Longrightarrow>
     gather_perms (ps @ ''}'' # toks) ctx = Inr (ctx @ concat (map (\<lambda>w. CHR '','' # w) ps), toks)"
  by (induction ps arbitrary: ctx) auto

lemma gather_perms_join:
  assumes "\<forall>p \<in> set ps. p \<noteq> [] \<and> peek p \<noteq> CHR ''}''" "length (join_comma ps) < 255"
  shows "gather_perms (ps @ ''}'' # toks) [] = Inr (join_comma ps, toks)"
  using assms gather_perms_more [where ctx = "hd ps" and ps = "tl ps" and toks = toks]
  by (cases ps) (auto simp: join_comma_def)

text \<open>A bare token behind the two fields without a name.\<close>

lemma bare_later:
  "classify w = Bare \<Longrightarrow> 3 \<le> length (fields r) \<Longrightarrow> growing r \<Longrightarrow> parse_tokens env 0 (w # toks) r = parse_tokens env 0 toks r"
proof -
  assume a: "classify w = Bare" "3 \<le> length (fields r)" "growing r"
  have "length (nodes (r_nv r)) < 2 ^ 32 \<and> cnt (r_nv r) = of_nat (length (nodes (r_nv r)))"
    using a(3) by (simp add: growing_def nv_wf_def)
  then have "cnt (r_nv r) \<noteq> 1" "cnt (r_nv r) \<noteq> 2"
    using a(2) of_nat_u32_eq [of "length (nodes (r_nv r))" 1] of_nat_u32_eq [of "length (nodes (r_nv r))" 2]
    by (auto simp: fields_def)
  then show ?thesis using a(1) by (simp add: parse_tokens.simps(2) nvlist_get_cnt_def)
qed

lemma growing_cnt: "growing r \<Longrightarrow> length (fields r) = n \<Longrightarrow> nvlist_get_cnt (r_nv r) = of_nat n"
  by (simp add: growing_def nv_wf_def fields_def nvlist_get_cnt_def)

text \<open>The fields every such record begins with: its type, then the result.\<close>

lemma parse_type:
  assumes "growing r" "fields r = []" "plain_value t"
  shows "\<exists>r'. parse_tokens env 0 (field_text (''type'', t) # toks) r = parse_tokens env 0 toks r' \<and> growing r'
    \<and> fields r' = [(Some ''type'', Some t)] \<and> r_type r' = audit_name_to_msg_type (pe_tables env) t
    \<and> r_record r' = r_record r \<and> r_interp r' = r_interp r \<and> r_cwd r' = r_cwd r"
proof -
  have n: "plain_name ''type''" by (simp add: plain_name_def)
  obtain r1 where r1: "append_nv r (Some ''type'') t = Some r1" "growing r1" "fields r1 = [(Some ''type'', Some t)]"
    "r_record r1 = r_record r" "r_interp r1 = r_interp r" "r_cwd r1 = r_cwd r" "unat (cnt (r_nv r1)) = 1"
    using append_nv_fields [OF assms(1), of "Some ''type''" t] assms(2) by auto
  let ?r = "r1\<lparr>r_type := audit_name_to_msg_type (pe_tables env) t\<rparr>"
  have "gather_info env 0 ''type'' t r1 = (?r, 0)" using r1(7) by (simp add: gather_info_def)
  then have "parse_tokens env 0 (field_text (''type'', t) # toks) r = parse_tokens env 0 toks ?r"
    using r1(1) classify_plain [OF n, of t] trim_plain [OF assms(3)] by (simp add: parse_tokens.simps(2) field_text_def)
  moreover have "growing ?r" "fields ?r = fields r1" using r1(2) by (simp_all add: growing_def fields_def)
  ultimately show ?thesis using r1 by (intro exI [of _ ?r]) simp
qed

lemma classify_bare: "CHR ''='' \<notin> set w \<Longrightarrow> classify w = Bare"
  by (simp add: classify_def)

definition avc_head :: "string \<Rightarrow> string \<Rightarrow> string \<Rightarrow> string list" where
  "avc_head t stamp res = [field_text (''type'', t), ''msg=audit'' @ stamp, ''avc:'', res]"

definition bare_word :: "string \<Rightarrow> bool" where
  "bare_word w \<longleftrightarrow> solid w \<and> CHR ''='' \<notin> set w"

lemma solid_avc_head:
  assumes "plain_value t" "solid (''msg=audit'' @ stamp)" "bare_word res"
  shows "\<forall>w \<in> set (avc_head t stamp res). solid w"
proof -
  have "plain_name ''type''" "solid ''avc:''" by (simp_all add: plain_name_def solid_def)
  then show ?thesis using assms solid_field [of "''type''" t] by (simp add: avc_head_def bare_word_def)
qed

lemma parse_avc_head:
  assumes "growing r" "fields r = []" "plain_value t" "bare_word res" "\<not> begins ''avc'' res"
    and "audit_name_to_msg_type (pe_tables env) t \<in> {pe_AUDIT_AVC env, AUDIT_USER_AVC}"
  shows "\<exists>r'. parse_tokens env 0 (avc_head t stamp res @ toks) r = parse_tokens env 0 toks r' \<and> growing r'
    \<and> fields r' = [(Some ''type'', Some t), (Some ''seresult'', Some res)]
    \<and> r_type r' \<in> {pe_AUDIT_AVC env, AUDIT_USER_AVC}
    \<and> r_record r' = r_record r \<and> r_interp r' = r_interp r \<and> r_cwd r' = r_cwd r"
proof -
  let ?rest = "[''msg=audit'' @ stamp, ''avc:'', res] @ toks"
  obtain r1 where r1: "parse_tokens env 0 (field_text (''type'', t) # ?rest) r = parse_tokens env 0 ?rest r1" "growing r1"
    "fields r1 = [(Some ''type'', Some t)]" "r_type r1 \<in> {pe_AUDIT_AVC env, AUDIT_USER_AVC}"
    "r_record r1 = r_record r" "r_interp r1 = r_interp r" "r_cwd r1 = r_cwd r"
    using parse_type [OF assms(1-3), of env ?rest] assms(6) by auto
  have c: "nvlist_get_cnt (r_nv r1) = 1" using growing_cnt [OF r1(2), of 1] r1(3) by simp
  obtain r2 where r2: "append_nv r1 (Some ''seresult'') res = Some r2" "growing r2"
    "fields r2 = [(Some ''type'', Some t), (Some ''seresult'', Some res)]" "r_type r2 = r_type r1"
    "r_record r2 = r_record r1" "r_interp r2 = r_interp r1" "r_cwd r2 = r_cwd r1"
    using append_nv_fields [OF r1(2), of "Some ''seresult''" res] r1(3) by auto
  have "classify (''msg=audit'' @ stamp) = Skip" "classify ''avc:'' = Bare" "classify res = Bare"
    using assms(4) by (simp_all add: classify_def begins_def bare_word_def)
  then have "parse_tokens env 0 ?rest r1 = parse_tokens env 0 toks r2"
    using c r1(4) r2(1) assms(5) by (auto simp: parse_tokens.simps(2) begins_def)
  then show ?thesis using r1 r2 by (intro exI [of _ r2]) (simp add: avc_head_def)
qed

lemma parse_avc_perms:
  assumes "growing r" "length (fields r) = 2" "r_type r \<in> {pe_AUDIT_AVC env, AUDIT_USER_AVC}"
    and "\<forall>p \<in> set ps. p \<noteq> [] \<and> peek p \<noteq> CHR ''}''" "length (join_comma ps) < 255"
  shows "\<exists>r'. parse_tokens env 0 (''{'' # ps @ ''}'' # toks) r = parse_tokens env 0 toks r' \<and> growing r'
    \<and> fields r' = fields r @ [(Some ''seperms'', Some (join_comma ps))] \<and> r_record r' = r_record r \<and> r_interp r' = r_interp r"
proof -
  have c: "nvlist_get_cnt (r_nv r) = 2" using growing_cnt [OF assms(1,2)] by simp
  obtain r1 where r1: "append_nv r (Some ''seperms'') (join_comma ps) = Some r1" "growing r1"
    "fields r1 = fields r @ [(Some ''seperms'', Some (join_comma ps))]" "r_record r1 = r_record r" "r_interp r1 = r_interp r"
    using append_nv_fields [OF assms(1), of "Some ''seperms''" "join_comma ps"] assms(2) by auto
  have "parse_tokens env 0 (''{'' # ps @ ''}'' # toks) r = parse_tokens env 0 toks r1"
    using c assms(3) r1(1) gather_perms_join [OF assms(4,5), of toks] classify_bare [of "''{''"]
    by (auto simp: parse_tokens.simps(2))
  with r1 show ?thesis by blast
qed

section \<open>Consistency of the list\<close>

definition el_wf :: "event_list \<Rightarrow> bool" where
  "el_wf l \<longleftrightarrow>
     length (el_nodes l) < 2 ^ 32 \<and> el_cnt l = of_nat (length (el_nodes l)) \<and>
     (\<forall>i < length (el_nodes l). r_item (el_nodes l ! i) = i) \<and>
     (\<forall>i. el_cur l = Some i \<longrightarrow> i < length (el_nodes l))"

lemma el_wf_create: "el_wf aup_list_create"
  by (simp add: el_wf_def aup_list_create_def)

lemma find_node_at:
  "k < length ns \<Longrightarrow> P (ns ! k) \<Longrightarrow> (\<And>j. j < k \<Longrightarrow> \<not> P (ns ! j)) \<Longrightarrow> find_node P ns i = Some (i + k)"
proof (induction ns arbitrary: k i)
  case (Cons n ns)
  show ?case
  proof (cases k)
    case (Suc k')
    then have "\<not> P n" using Cons.prems(3) [of 0] by simp
    moreover have "find_node P ns (Suc i) = Some (Suc i + k')"
      using Suc Cons.prems Cons.prems(3) [of "Suc _"] by (intro Cons.IH) auto
    ultimately show ?thesis using Suc by simp
  qed (use Cons.prems in simp)
qed simp

text \<open>In a consistent list the number of a record leads to it.\<close>

lemma goto_rec_wf:
  assumes "el_wf l" "k < length (el_nodes l)"
  shows "aup_list_goto_rec l (int k) = (Some (el_nodes l ! k), l\<lparr>el_cur := Some k\<rparr>)"
proof -
  have "k < 2 ^ 32" using assms by (simp add: el_wf_def)
  then have m: "nat (int k mod 4294967296) = k" by (simp add: nat_mod_distrib)
  have "find_node (\<lambda>n. r_item n = k) (el_nodes l) 0 = Some (0 + k)"
    using assms by (intro find_node_at) (auto simp: el_wf_def)
  then show ?thesis by (simp add: aup_list_goto_rec_def goto_node_def m)
qed

text \<open>What the loop over the tokens leaves alone.\<close>

definition same_frame :: "rnode \<Rightarrow> rnode \<Rightarrow> bool" where
  "same_frame r r' \<longleftrightarrow> r_item r' = r_item r \<and> r_interp r' = r_interp r \<and> r_record r' = r_record r
     \<and> r_list_idx r' = r_list_idx r \<and> r_line_number r' = r_line_number r"

lemma same_frame_trans: "same_frame r r1 \<Longrightarrow> same_frame r1 r2 \<Longrightarrow> same_frame r r2"
  by (simp add: same_frame_def)

lemma append_nv_frame: "append_nv r n v = Some r' \<Longrightarrow> same_frame r r'"
  by (auto simp: append_nv_def same_frame_def)

lemma append_keys_frame: "append_keys r ks = Some r' \<Longrightarrow> same_frame r r'"
  by (induction r ks rule: append_keys.induct)
    (auto simp: same_frame_def dest!: append_nv_frame split: Option.bind_splits)

lemma add_key_frame: "add_key r v = Some r' \<Longrightarrow> same_frame r r'"
  by (auto simp: add_key_def append_nv_frame append_keys_frame split: if_splits Option.bind_splits option.splits)

lemma gather_info_frame: "gather_info env off n v r = (r', off') \<Longrightarrow> same_frame r r'"
  by (auto simp: gather_info_def Let_def same_frame_def split: if_splits prod.splits)

lemma parse_tokens_frame: "parse_tokens env off toks r = Some (rc, r') \<Longrightarrow> same_frame r r'"
proof (induction env off toks r rule: parse_tokens.induct)
  case (2 env offset ptr toks r)
  show ?case
  proof (cases "classify ptr")
    case Skip
    then show ?thesis using "2.IH"(1) "2.prems" by (simp add: parse_tokens.simps(2))
  next
    case (Field name val0)
    show ?thesis
    proof (cases "name = ''key'' \<and> peek (trim_value val0) \<noteq> CHR ''(''")
      case True
      then obtain r1 where r1: "add_key r (trim_value val0) = Some r1" "parse_tokens env offset toks r1 = Some (rc, r')"
        using "2.prems" Field by (auto simp: parse_tokens.simps(2) Let_def split: option.splits)
      then show ?thesis using "2.IH"(2) [OF Field refl True r1(1)] add_key_frame same_frame_trans by blast
    next
      case False
      then obtain r1 r2 off2 where r1: "append_nv r (Some name) (trim_value val0) = Some r1"
        "gather_info env offset name (trim_value val0) r1 = (r2, off2)" "parse_tokens env off2 toks r2 = Some (rc, r')"
        using "2.prems" Field by (auto simp: parse_tokens.simps(2) Let_def split: option.splits prod.splits)
      then show ?thesis
        using "2.IH"(3) [OF Field refl False r1(1) r1(2) [symmetric] r1(3)]
          append_nv_frame [OF r1(1)] gather_info_frame [OF r1(2)] same_frame_trans by blast
    qed
  next
    case Bare
    have refl: "same_frame r r" by (simp add: same_frame_def)
    show ?thesis using "2.prems" "2.IH"(4-) [OF Bare] refl
      by (simp add: parse_tokens.simps(2) Bare split: if_splits option.splits sum.splits prod.splits)
        (blast intro: same_frame_trans append_nv_frame)+
  qed
qed (simp add: same_frame_def)

lemma parse_up_record_frame:
  assumes "parse_up_record env r = Some (rc, r')"
  shows "r_item r' = r_item r" "r_interp r' = map_option (\<lambda>k. drop (k + 1) (r_record r)) (strchr interp_separator (r_record r))"
    "r_list_idx r' = r_list_idx r" "r_line_number r' = r_line_number r"
  using assms by (auto simp: parse_up_record_def Let_def same_frame_def dest!: parse_tokens_frame
      split: option.splits list.splits prod.splits if_splits)

text \<open>No text of a record leads to undefined behaviour: the list of fields can always be extended.\<close>

definition extendable :: "nvlist \<Rightarrow> bool" where
  "extendable l \<longleftrightarrow> nodes l = [] \<or> cur l \<noteq> None"

lemma nvlist_append_extendable: "extendable l \<Longrightarrow> \<exists>l'. nvlist_append True l n = Some l' \<and> extendable l'"
  by (auto simp: extendable_def nvlist_append_def Let_def)

lemma append_nv_extendable: "extendable (r_nv r) \<Longrightarrow> \<exists>r'. append_nv r n v = Some r' \<and> extendable (r_nv r')"
  using nvlist_append_extendable [of "r_nv r"] by (fastforce simp: append_nv_def)

lemma append_keys_extendable: "extendable (r_nv r) \<Longrightarrow> \<exists>r'. append_keys r ks = Some r' \<and> extendable (r_nv r')"
proof (induction ks arbitrary: r)
  case (Cons k ks)
  obtain r1 where "append_nv r (Some ''key'') (c2x_escape k) = Some r1" "extendable (r_nv r1)"
    using append_nv_extendable [OF Cons.prems] by blast
  with Cons.IH [of r1] show ?case by simp
qed simp

lemma au_unescape_defined: "\<exists>out. au_unescape True v = Some out \<and> (\<forall>b. out = Some b \<longrightarrow> (\<exists>t. read_str b = Some t))"
proof -
  have "\<exists>t. read_str (unescape_block str n) = Some t" for str n
  proof -
    obtain r where "unescape_block str n = map Some (unhex str) @ Some NUL # r" using unescape_block_bytes by blast
    then show ?thesis by simp
  qed
  then show ?thesis by (auto simp: au_unescape_def Let_def split: option.splits)
qed

lemma add_key_extendable: "extendable (r_nv r) \<Longrightarrow> \<exists>r'. add_key r v = Some r' \<and> extendable (r_nv r')"
proof -
  assume ext: "extendable (r_nv r)"
  obtain out where out: "au_unescape True v = Some out" "\<forall>b. out = Some b \<longrightarrow> (\<exists>t. read_str b = Some t)"
    using au_unescape_defined by blast
  show ?thesis
  proof (cases out)
    case None
    with out(1) append_nv_extendable [OF ext] show ?thesis by (simp add: add_key_def)
  next
    case (Some b)
    with out(2) obtain t where "read_str b = Some t" by blast
    with out(1) Some append_nv_extendable [OF ext] append_keys_extendable [OF ext] show ?thesis by (simp add: add_key_def)
  qed
qed

lemma parse_tokens_defined:
  "extendable (r_nv r) \<Longrightarrow> \<exists>rc r'. parse_tokens env off toks r = Some (rc, r') \<and> rc \<in> {0, - 1} \<and> extendable (r_nv r')"
proof (induction env off toks r rule: parse_tokens.induct)
  case (2 env offset ptr toks r)
  show ?case
  proof (cases "classify ptr")
    case Skip
    then show ?thesis using "2.IH"(1) "2.prems" by (simp add: parse_tokens.simps(2))
  next
    case (Field name val0)
    show ?thesis
    proof (cases "name = ''key'' \<and> peek (trim_value val0) \<noteq> CHR ''(''")
      case True
      obtain r1 where r1: "add_key r (trim_value val0) = Some r1" "extendable (r_nv r1)"
        using add_key_extendable [OF "2.prems"] by blast
      then show ?thesis using "2.IH"(2) [OF Field refl True r1] True Field by (simp add: parse_tokens.simps(2) Let_def)
    next
      case False
      obtain r1 where r1: "append_nv r (Some name) (trim_value val0) = Some r1" "extendable (r_nv r1)"
        using append_nv_extendable [OF "2.prems"] by blast
      obtain r2 off2 where r2: "gather_info env offset name (trim_value val0) r1 = (r2, off2)"
        by (cases "gather_info env offset name (trim_value val0) r1")
      then have "extendable (r_nv r2)" using gather_info_keeps [OF r2] r1(2) by simp
      then show ?thesis
        using "2.IH"(3) [OF Field refl False r1(1) r2 [symmetric]] False Field r1(1) r2
        by (auto simp: parse_tokens.simps(2) Let_def)
    qed
  next
    case Bare
    have n: "\<exists>r1. append_nv r nm v = Some r1 \<and> extendable (r_nv r1)" for nm v
      using append_nv_extendable [OF "2.prems"] by blast
    show ?thesis
    proof (cases "gather_perms toks []")
      case (Inl u)
      then show ?thesis using "2.IH"(4-) [OF Bare] "2.prems" n [of "Some ''seresult''" ptr] n [of None ptr]
        by (auto simp: parse_tokens.simps(2) Bare)
    next
      case (Inr p)
      obtain ctx rest where p: "p = (ctx, rest)" by (cases p)
      show ?thesis
        using "2.IH"(4-) [OF Bare] "2.prems" n [of "Some ''seresult''" ptr] n [of None ptr] n [of "Some ''seperms''" ctx] Inr p
        by (auto simp: parse_tokens.simps(2) Bare)
    qed
  qed
qed simp

lemma parse_up_record_defined:
  assumes "is_cstr (r_record r)" "r_nv r = nvlist_create"
  shows "\<exists>rc r'. parse_up_record env r = Some (rc, r') \<and> rc \<in> {0, - 1}"
proof -
  define r1 where "r1 = (case strchr interp_separator (r_record r) of None \<Rightarrow> r\<lparr>r_interp := None\<rparr>
      | Some k \<Rightarrow> r\<lparr>r_record := take k (r_record r), r_interp := Some (drop (k + 1) (r_record r))\<rparr>)"
  have c: "is_cstr (r_record r1)" "extendable (r_nv r1)"
    using assms by (auto simp: r1_def is_cstr_def extendable_def nvlist_create_def split: option.splits dest: in_set_takeD)
  obtain rc r' where "parse_tokens env 0 (words_of (r_record r1)) r1 = Some (rc, r')" "rc \<in> {0, - 1}"
    using parse_tokens_defined [OF c(2)] by blast
  then show ?thesis
    unfolding parse_up_record_def Let_def r1_def [symmetric] record_tokens_words [OF c(1)]
    by (cases "words_of (r_record r1)") auto
qed

lemma el_wf_first: "el_wf l \<Longrightarrow> el_wf (aup_list_first l)"
  by (simp add: el_wf_def aup_list_first_def)

lemma find_field:
  assumes "fields r = map (\<lambda>(n, v). (Some n, Some v)) fs" "cur (r_nv r) = Some 0" "k < length fs" "distinct (map fst fs)"
  shows "nvlist_find_name (r_nv r) (fst (fs ! k)) = Some (True, (r_nv r)\<lparr>cur := Some k\<rparr>)
    \<and> nvlist_get_cur_val ((r_nv r)\<lparr>cur := Some k\<rparr>) = Some (snd (fs ! k))"
proof -
  have len: "length (nodes (r_nv r)) = length fs" using assms(1) by (auto simp: fields_def dest: arg_cong [where f = length])
  have nth: "nv_name (nodes (r_nv r) ! j) = Some (fst (fs ! j)) \<and> nv_val (nodes (r_nv r) ! j) = Some (snd (fs ! j))"
    if "j < length fs" for j
    using arg_cong [OF assms(1), of "\<lambda>xs. xs ! j"] that len by (simp add: fields_def case_prod_beta)
  have "\<forall>n \<in> set (nodes (r_nv r)). nv_name n \<noteq> None" using nth len by (metis in_set_conv_nth option.distinct(1))
  moreover have "search_from (\<lambda>n. nv_name n = Some (fst (fs ! k))) (nodes (r_nv r)) 0 = Some (0 + k)"
    using nth len assms(3,4) by (intro search_from_unique) (auto simp: distinct_conv_nth)
  ultimately show ?thesis
    using assms(2,3) nth len by (simp add: nvlist_find_name_def find_from_named nvlist_get_cur_val_def nvlist_get_cur_def)
qed

text \<open>A field without a name stops the search for any name that does not come before it.\<close>

lemma find_nameless:
  assumes "fields r = [(Some a, va), (Some b, vb), (None, vc)] @ fs" "name \<notin> {a, b}"
  shows "nvlist_find_name (nvlist_first (r_nv r)) name = None"
proof -
  obtain n1 n2 n3 ns where "nodes (r_nv r) = n1 # n2 # n3 # ns" "nv_name n1 = Some a" "nv_name n2 = Some b" "nv_name n3 = None"
    using assms(1) by (auto simp: fields_def map_eq_Cons_conv)
  then show ?thesis using assms(2) by (auto simp: nvlist_find_name_def nvlist_first_def)
qed

text \<open>An appended record becomes the last and the current one, whatever its text is.\<close>

lemma aup_list_append_wf:
  assumes "el_wf l" "length (el_nodes l) + 1 < 2 ^ 32"
    and "aup_list_append env True l (Some rec) idx line = Some (rc, l')"
  shows "el_wf l' \<and> (\<exists>r. el_nodes l' = el_nodes l @ [r] \<and> aup_list_get_cur l' = Some r)"
proof -
  obtain r where r: "parse_up_record env (new_rnode rec idx line l) = Some (rc, r)"
    "el_nodes l' = el_nodes l @ [r]" "el_cur l' = Some (length (el_nodes l))" "el_cnt l' = el_cnt l + 1"
    using assms(3) by (auto simp: aup_list_append_def Let_def split: option.splits if_splits)
  have "r_item r = length (el_nodes l)"
    using parse_up_record_frame(1) [OF r(1)] assms(1) by (simp add: new_rnode_def el_wf_def unat_of_nat take_bit_nat_eq_self)
  then have "el_wf l'" using assms(1,2) r by (auto simp: el_wf_def nth_append less_Suc_eq)
  then show ?thesis using r by (simp add: aup_list_get_cur_def)
qed

lemma aup_list_append_parsed:
  assumes "parse_up_record env (new_rnode rec idx line l) = Some (rc, r)" "el_cwd l \<noteq> Freed_cwd"
  shows "\<exists>l'. aup_list_append env True l (Some rec) idx line = Some (rc, l') \<and> el_nodes l' = el_nodes l @ [r]
    \<and> el_cur l' = Some (length (el_nodes l))"
  using assms by (cases "r_cwd r") (simp_all add: aup_list_append_def Let_def)

text \<open>An environment for examples.\<close>

definition demo_parse_env :: parse_env where
  "demo_parse_env = \<lparr>pe_tables = sample_tables, pe_AUDIT_CWD = 1307, pe_AUDIT_AVC = 1400\<rparr>"

section \<open>Properties\<close>

text \<open>C12: a record that consists of plain fields is cut into exactly these fields, in their order, and
  what stands behind the separator is kept as the interpretation: it becomes the last record of the
  event and the current one, with the cursor on its first field; a field with a name that occurs once
  is found with its value; and the record is reached again under its number, the list staying
  consistent.\<close>

theorem appended_record_fields:
  assumes "el_wf l" "length (el_nodes l) + 1 < 2 ^ 32" "el_cwd l \<noteq> Freed_cwd"
    and "fs \<noteq> []" "\<forall>(n, v) \<in> set fs. plain_name n \<and> plain_value v" "length fs < 2 ^ 32"
  shows "\<exists>r l'. aup_list_append env True l (Some (with_interp (record_text fs) it)) idx line = Some (0, l')
    \<and> el_wf l' \<and> el_nodes l' = el_nodes l @ [r] \<and> aup_list_get_cur l' = Some r
    \<and> fields r = map (\<lambda>(n, v). (Some n, Some v)) fs \<and> r_record r = record_text fs \<and> r_interp r = it
    \<and> (\<forall>k < length fs. distinct (map fst fs) \<longrightarrow>
         nvlist_find_name (r_nv r) (fst (fs ! k)) = Some (True, (r_nv r)\<lparr>cur := Some k\<rparr>)
         \<and> nvlist_get_cur_val ((r_nv r)\<lparr>cur := Some k\<rparr>) = Some (snd (fs ! k)))
    \<and> aup_list_goto_rec (aup_list_first l') (int (length (el_nodes l))) = (Some r, l')"
proof -
  let ?rec = "with_interp (record_text fs) it"
  obtain r where r: "parse_up_record env (new_rnode ?rec idx line l) = Some (0, r)"
    "fields r = map (\<lambda>(n, v). (Some n, Some v)) fs" "r_record r = record_text fs" "r_interp r = it"
    "cur (r_nv r) = Some 0" "nv_wf (r_nv r)"
    using parse_up_record_plain [OF assms(4-6), of "new_rnode ?rec idx line l" it env] by (auto simp: new_rnode_def)
  then obtain l' where l': "aup_list_append env True l (Some ?rec) idx line = Some (0, l')" "el_nodes l' = el_nodes l @ [r]"
    "el_cur l' = Some (length (el_nodes l))"
    using aup_list_append_parsed [OF r(1) assms(3)] by blast
  have wf: "el_wf l'" "aup_list_get_cur l' = Some r" using aup_list_append_wf [OF assms(1,2) l'(1)] l'(2) by auto
  have find: "nvlist_find_name (r_nv r) (fst (fs ! k)) = Some (True, (r_nv r)\<lparr>cur := Some k\<rparr>)
      \<and> nvlist_get_cur_val ((r_nv r)\<lparr>cur := Some k\<rparr>) = Some (snd (fs ! k))"
    if "k < length fs" "distinct (map fst fs)" for k
    using find_field [OF r(2,5) that] .
  have "aup_list_goto_rec (aup_list_first l') (int (length (el_nodes l))) = (Some r, l')"
    using goto_rec_wf [OF el_wf_first [OF wf(1)], of "length (el_nodes l)"] l' by (simp add: aup_list_first_def)
  then show ?thesis using l' r wf find by blast
qed

theorem appended_record_fields_witness:
  "\<exists>r l'. aup_list_append demo_parse_env True aup_list_create
       (Some (with_interp (record_text [(''type'', ''CWD''), (''cwd'', ''/tmp'')]) (Some ''x''))) 0 1 = Some (0, l')
    \<and> el_nodes l' = [r] \<and> fields r = [(Some ''type'', Some ''CWD''), (Some ''cwd'', Some ''/tmp'')] \<and> r_interp r = Some ''x''"
proof -
  have "\<forall>(n, v) \<in> set [(''type'', ''CWD''), (''cwd'', ''/tmp'')]. plain_name n \<and> plain_value v"
    by (simp add: plain_name_def plain_value_def)
  from appended_record_fields [OF el_wf_create _ _ _ this, of demo_parse_env "Some ''x''" 0 1] show ?thesis
    by (auto simp: aup_list_create_def)
qed

text \<open>C13: the keys of a record, joined by the separator and encoded, are taken apart again: each gets a
  field \<open>key\<close> of its own behind the other fields, and each of these, interpreted, is the key that was
  given.\<close>

theorem record_keys_roundtrip:
  assumes "\<forall>(n, v) \<in> set fs. plain_name n \<and> plain_value v" "ks \<noteq> []"
    and "\<forall>k \<in> set ks. is_cstr k \<and> k \<noteq> [] \<and> key_separator \<notin> set k" "length fs + length ks < 2 ^ 32"
    and "r_nv r = nvlist_create"
    and "r_record r = with_interp (join_blank (map field_text fs @ [''key='' @ hex_encode (join_keys ks)])) it"
  shows "\<exists>r' vs. parse_up_record env r = Some (0, r')
    \<and> fields r' = map (\<lambda>(n, v). (Some n, Some v)) fs @ map (\<lambda>v. (Some ''key'', Some v)) vs
    \<and> list_all2 (\<lambda>v k. \<exists>b. print_escaped True v = Some (Some b) \<and> read_str b = Some k) vs ks"
proof -
  let ?key = "''key='' @ hex_encode (join_keys ks)"
  let ?ws = "map field_text fs @ [?key]"
  let ?r0 = "cut_rnode r (join_blank ?ws) it"
  have k: "is_cstr (join_keys ks)" "join_keys ks \<noteq> []" "strtok key_separator (join_keys ks) = ks"
    using assms(2,3) is_cstr_join_keys strtok_join join_keys_nonempty by auto
  note h = hex_encode_plain [OF k(2)]
  have "solid ?key" using h(1) by (auto simp: solid_def plain_value_def)
  then have solid: "\<forall>w \<in> set ?ws. solid w" using solid_fields [OF assms(1)] by simp
  note g = cut_rnode_fresh(1,2) [OF assms(5), of "join_blank ?ws" it]
  obtain r1 off where r1: "parse_tokens env 0 ?ws ?r0 = parse_tokens env off [?key] r1" "growing r1"
    "fields r1 = map (\<lambda>(n, v). (Some n, Some v)) fs"
    using parse_tokens_plain [OF assms(1) g(1), of env 0 "[?key]"] assms(4) g(2) by auto
  obtain r2 where r2: "add_key r1 (hex_encode (join_keys ks)) = Some r2" "growing r2"
    "fields r2 = fields r1 @ map (\<lambda>k. (Some ''key'', Some (c2x_escape k))) ks"
    using add_key_hex [OF k(1,2) r1(2)] k(3) r1(3) assms(4) by auto
  have "parse_tokens env off [?key] r1 = Some (0, r2)"
    using r2(1) classify_key [of "hex_encode (join_keys ks)"] trim_plain [OF h(1)] h(2)
    by (simp add: parse_tokens.simps(2) Let_def)
  then have "parse_tokens env 0 ?ws ?r0 = Some (0, r2)" using r1(1) by simp
  from parse_up_record_tokens [OF _ solid assms(6) this r2(2)] obtain r' where
    "parse_up_record env r = Some (0, r')" "fields r' = fields r2"
    using r2(3) assms(2) by auto
  moreover have "list_all2 (\<lambda>v k. \<exists>b. print_escaped True v = Some (Some b) \<and> read_str b = Some k) (map c2x_escape ks) ks"
    using assms(3) c2x_escape_decodes by (simp add: list_all2_conv_all_nth)
  ultimately show ?thesis using r1(3) r2(3) by (intro exI [of _ r'] exI [of _ "map c2x_escape ks"]) (simp add: comp_def)
qed

theorem record_keys_roundtrip_witness:
  "\<exists>r' vs. parse_up_record demo_parse_env
      (new_rnode (with_interp (join_blank (map field_text [(''uid'', ''0'')] @ [''key='' @ hex_encode (join_keys [''a b'', ''c''])])) None) 0 1 aup_list_create)
    = Some (0, r')
    \<and> fields r' = [(Some ''uid'', Some ''0'')] @ map (\<lambda>v. (Some ''key'', Some v)) vs
    \<and> list_all2 (\<lambda>v k. \<exists>b. print_escaped True v = Some (Some b) \<and> read_str b = Some k) vs [''a b'', ''c'']"
  using record_keys_roundtrip [of "[(''uid'', ''0'')]" "[''a b'', ''c'']"
      "new_rnode (with_interp (join_blank (map field_text [(''uid'', ''0'')] @ [''key='' @ hex_encode (join_keys [''a b'', ''c''])])) None) 0 1 aup_list_create"
      None demo_parse_env]
  by (simp add: plain_name_def plain_value_def new_rnode_def)

text \<open>C31: a record of the kernel's access control, which does not label its first values, gets them as
  fields: the result as \<open>seresult\<close>, the permissions between the braces, joined by commas, as
  \<open>seperms\<close>; the words \<open>avc:\<close> and \<open>for\<close> and the time stamp are dropped and the labelled fields follow.\<close>

theorem avc_record_fields:
  assumes "audit_name_to_msg_type (pe_tables env) t \<in> {pe_AUDIT_AVC env, AUDIT_USER_AVC}" "plain_value t"
    and "bare_word res" "\<not> begins ''avc'' res" "solid (''msg=audit'' @ stamp)"
    and "\<forall>p \<in> set ps. solid p \<and> peek p \<noteq> CHR ''}''" "length (join_comma ps) < 255"
    and "\<forall>(n, v) \<in> set fs. plain_name n \<and> plain_value v" "length fs + 3 < 2 ^ 32"
    and "r_nv r = nvlist_create"
    and "r_record r = with_interp (join_blank (avc_head t stamp res @ ''{'' # ps @ ''}'' # ''for'' # map field_text fs)) it"
  shows "\<exists>r'. parse_up_record env r = Some (0, r')
    \<and> fields r' = [(Some ''type'', Some t), (Some ''seresult'', Some res), (Some ''seperms'', Some (join_comma ps))]
        @ map (\<lambda>(n, v). (Some n, Some v)) fs"
proof -
  let ?tail = "''for'' # map field_text fs"
  let ?ws = "avc_head t stamp res @ ''{'' # ps @ ''}'' # ?tail"
  note solid = solid_avc_head [OF assms(2,5,3)]
  have "solid ''{''" "solid ''}''" "solid ''for''" by (simp_all add: solid_def)
  then have s: "\<forall>w \<in> set ?ws. solid w" using solid assms(6) solid_fields [OF assms(8)] by auto
  note g = cut_rnode_fresh(1,2) [OF assms(10), of "join_blank ?ws" it]
  obtain r1 where r1: "parse_tokens env 0 ?ws (cut_rnode r (join_blank ?ws) it) = parse_tokens env 0 (''{'' # ps @ ''}'' # ?tail) r1" "growing r1"
    "fields r1 = [(Some ''type'', Some t), (Some ''seresult'', Some res)]" "r_type r1 \<in> {pe_AUDIT_AVC env, AUDIT_USER_AVC}"
    using parse_avc_head [OF g assms(2-4,1), of stamp "''{'' # ps @ ''}'' # ?tail"] by blast
  obtain r2 where r2: "parse_tokens env 0 (''{'' # ps @ ''}'' # ?tail) r1 = parse_tokens env 0 ?tail r2" "growing r2"
    "fields r2 = fields r1 @ [(Some ''seperms'', Some (join_comma ps))]"
    using parse_avc_perms [OF r1(2) _ r1(4) _ assms(7), of ?tail] r1(3) assms(6) by (auto simp: solid_def)
  have f: "parse_tokens env 0 ?tail r2 = parse_tokens env 0 (map field_text fs) r2"
    using r1(3) r2(3) by (intro bare_later) (simp_all add: r2(2) classify_bare)
  obtain r3 off where r3: "parse_tokens env 0 (map field_text fs @ []) r2 = parse_tokens env off [] r3" "growing r3"
    "fields r3 = fields r2 @ map (\<lambda>(n, v). (Some n, Some v)) fs"
    using parse_tokens_plain [OF assms(8) r2(2), of env 0 "[]"] r1(3) r2(3) assms(9) by auto
  have "parse_tokens env 0 ?ws (cut_rnode r (join_blank ?ws) it) = Some (0, r3)" using r1(1) r2(1) f r3(1) by simp
  from parse_up_record_tokens [OF _ s assms(11) this r3(2)] show ?thesis
    using r1(3) r2(3) r3(3) by (auto simp: avc_head_def)
qed

definition demo_avc :: rnode where
  "demo_avc = new_rnode (with_interp (join_blank (avc_head ''1400'' ''(1.002:3):'' ''denied''
     @ ''{'' # [''read'', ''write''] @ ''}'' # ''for'' # map field_text [(''pid'', ''7'')])) None) 0 1 aup_list_create"

lemma demo_avc_type: "audit_name_to_msg_type sample_tables ''1400'' = 1400"
  by code_simp

theorem avc_record_fields_witness:
  "\<exists>r'. parse_up_record demo_parse_env demo_avc = Some (0, r')
    \<and> fields r' = [(Some ''type'', Some ''1400''), (Some ''seresult'', Some ''denied''), (Some ''seperms'', Some ''read,write''),
        (Some ''pid'', Some ''7'')]"
  using avc_record_fields [of demo_parse_env "''1400''" "''denied''" "''(1.002:3):''" "[''read'', ''write'']" "[(''pid'', ''7'')]" demo_avc None]
  by (simp add: demo_avc_def demo_parse_env_def demo_avc_type plain_name_def plain_value_def bare_word_def solid_def begins_def
      join_comma_def new_rnode_def)

text \<open>C32: when a bare word other than an opening brace stands where the permissions are expected, the
  record gets a field without a name, and looking any name up that is not among the two fields before
  it compares a null pointer, also when a later field has that name.\<close>

theorem avc_nameless_field:
  assumes "audit_name_to_msg_type (pe_tables env) t \<in> {pe_AUDIT_AVC env, AUDIT_USER_AVC}" "plain_value t"
    and "bare_word res" "\<not> begins ''avc'' res" "solid (''msg=audit'' @ stamp)" "bare_word w" "peek w \<noteq> CHR ''{''"
    and "\<forall>(n, v) \<in> set fs. plain_name n \<and> plain_value v" "length fs + 3 < 2 ^ 32"
    and "r_nv r = nvlist_create" "r_record r = with_interp (join_blank (avc_head t stamp res @ w # map field_text fs)) it"
    and "name \<notin> {''type'', ''seresult''}"
  shows "\<exists>r'. parse_up_record env r = Some (0, r')
    \<and> fields r' = [(Some ''type'', Some t), (Some ''seresult'', Some res), (None, Some w)] @ map (\<lambda>(n, v). (Some n, Some v)) fs
    \<and> nvlist_find_name (nvlist_first (r_nv r')) name = None"
proof -
  let ?ws = "avc_head t stamp res @ w # map field_text fs"
  have s: "\<forall>w \<in> set ?ws. solid w"
    using solid_avc_head [OF assms(2,5,3)] assms(6) solid_fields [OF assms(8)] by (auto simp: bare_word_def)
  note g = cut_rnode_fresh(1,2) [OF assms(10), of "join_blank ?ws" it]
  obtain r1 where r1: "parse_tokens env 0 ?ws (cut_rnode r (join_blank ?ws) it) = parse_tokens env 0 (w # map field_text fs) r1" "growing r1"
    "fields r1 = [(Some ''type'', Some t), (Some ''seresult'', Some res)]" "r_type r1 \<in> {pe_AUDIT_AVC env, AUDIT_USER_AVC}"
    using parse_avc_head [OF g assms(2-4,1), of stamp "w # map field_text fs"] by blast
  obtain r2 where r2: "append_nv r1 None w = Some r2" "growing r2" "fields r2 = fields r1 @ [(None, Some w)]"
    using append_nv_fields [OF r1(2), of None w] r1(3) by auto
  have "nvlist_get_cnt (r_nv r1) = 2" using growing_cnt [OF r1(2), of 2] r1(3) by simp
  then have f: "parse_tokens env 0 (w # map field_text fs) r1 = parse_tokens env 0 (map field_text fs) r2"
    using assms(6,7) r1(4) r2(1) by (auto simp: parse_tokens.simps(2) classify_bare bare_word_def)
  obtain r3 off where r3: "parse_tokens env 0 (map field_text fs @ []) r2 = parse_tokens env off [] r3" "growing r3"
    "fields r3 = fields r2 @ map (\<lambda>(n, v). (Some n, Some v)) fs"
    using parse_tokens_plain [OF assms(8) r2(2), of env 0 "[]"] r1(3) r2(3) assms(9) by auto
  have "parse_tokens env 0 ?ws (cut_rnode r (join_blank ?ws) it) = Some (0, r3)" using r1(1) f r3(1) by simp
  from parse_up_record_tokens [OF _ s assms(11) this r3(2)] obtain r' where r': "parse_up_record env r = Some (0, r')"
    "fields r' = [(Some ''type'', Some t), (Some ''seresult'', Some res), (None, Some w)] @ map (\<lambda>(n, v). (Some n, Some v)) fs"
    using r1(3) r2(3) r3(3) by (auto simp: avc_head_def)
  then show ?thesis using find_nameless [OF r'(2) assms(12)] by blast
qed

theorem avc_nameless_field_witness:
  "\<exists>r'. parse_up_record demo_parse_env (new_rnode (join_blank (avc_head ''1400'' ''(1.002:3):'' ''denied''
      @ ''null'' # map field_text [(''pid'', ''7'')])) 0 1 aup_list_create) = Some (0, r')
    \<and> nvlist_find_name (nvlist_first (r_nv r')) ''pid'' = None"
  using avc_nameless_field [of demo_parse_env "''1400''" "''denied''" "''(1.002:3):''" "''null''" "[(''pid'', ''7'')]"
      "new_rnode (join_blank (avc_head ''1400'' ''(1.002:3):'' ''denied'' @ ''null'' # map field_text [(''pid'', ''7'')])) 0 1 aup_list_create"
      None "''pid''"]
  by (auto simp: demo_parse_env_def demo_avc_type plain_name_def plain_value_def bare_word_def solid_def begins_def
      new_rnode_def with_interp_def)

end
