(* ===== verification/Spec2Isabelle.thy ===== *)
theory Spec2Isabelle
  imports Data_Buf Audisp_Queue Remote_Queue Nvlist Lookup_Table Expr_Print Expr_Eval Lru Fgets Event_Assembly Audit_Rules Ev_Timers
    Audit_Logging Ellist
begin

text \<open>
  A verification of the Linux audit user space, as it is kept under
  \<open>src/kernel_dev/libaudit/src\<close> (all file names below are relative to that directory).

  The program. The kernel hands audit records to the daemon \<open>auditd\<close> (\<open>src/\<close>), which runs on the
  event loop of \<open>src/libev\<close>, writes the records to its log and queues them for the dispatcher
  (\<open>audisp/\<close>); plugins read them line by line (\<open>common/\<close>) and may store them in a persistent queue
  before they are sent to another machine (\<open>audisp/plugins/remote\<close>). The library \<open>lib/\<close> builds the
  rules that tell the kernel what to record and the messages that programs log themselves. The
  library \<open>auparse/\<close> cuts the logs into records and fields, interprets the fields and searches them
  with expressions; the tools \<open>ausearch\<close> and \<open>aureport\<close> (\<open>src/\<close>) put the records of a log back
  together into events and count what they find.

  Conventions (\<open>Audit_Prelude\<close>, \<open>C_Numbers\<close>). A function that may run into undefined behaviour - a
  NULL or dangling pointer, an access outside an allocation, a value that was never written, signed
  overflow, a failed assertion - returns \<open>'a ub\<close>, and \<open>None\<close> is the undefined behaviour; so is the loop
  of a \<open>partial_function\<close> that never ends. Errors the code reports are values of a sum or option
  type inside it. Whether an allocation succeeds, what the system calls return and what other
  threads do in the meantime are arguments; a theorem holds for all of them or says what it assumes
  of them. Unsigned numbers of a fixed width are words or carry their \<open>mod\<close>. The conversions of the C library are
  modelled with their treatment of white space, signs, prefixes and overflow.

  Theories, the code they model, and what is proved.

  \<^item> \<open>Data_Buf\<close>: \<open>auparse/data_buf.c\<close>. Appending appends and never leaves the allocation; advancing and
    resetting a preserved buffer restores it; with a preserved head and a non-zero offset the
    reallocation is too small.
  \<^item> \<open>Audisp_Queue\<close>: \<open>audisp/queue.c\<close>, with the overflow actions and runlevel changes. The interpretation
    \<open>dq\<close> of the locale \<open>bounded_fifo\<close> gives the order of events in every reachable state; growing the
    queue while it wraps strands events. Other threads are the steps that may happen while a call
    sleeps or waits.
  \<^item> \<open>Remote_Queue\<close>: \<open>audisp/plugins/remote/queue.c\<close> over a model of the file system with short,
    interrupted and failing transfers. The same locale (\<open>rq\<close>) gives the order; reopening restores
    the queue, a failed append changes nothing, resizing moves all entries smaller than 2 GiB.
  \<^item> \<open>Nvlist\<close>: \<open>auparse/nvlist.c\<close> and the record type of \<open>auparse/rnode.h\<close>.
  \<^item> \<open>Lookup_Table\<close>: \<open>lib/lookup_table.c\<close>; the searches generated at build time are parameters.
  \<^item> \<open>Expr_Lexer\<close>, \<open>Expr_Parser\<close>, \<open>Expr_Print\<close>, \<open>Expr_Eval\<close>: \<open>auparse/expression.c\<close>. The parser ends on every
    input and every pattern of failing allocations, and reading behind the terminator of the text is
    undefined in the lexer and never happens; it inverts a printer; evaluation refines the
    logical meaning \<open>satisfies\<close>. The fuel of the parser is the length of the text, which every recursive
    call shortens (\<open>expr_parse_cases\<close>).
  \<^item> \<open>Lru\<close>: \<open>auparse/lru.c\<close> as linked nodes in a store, and the user and group lookups of
    \<open>auparse/interpret.c\<close>. As long as memory is available the caches are transparent and keep the order
    of use; a failed allocation leaves a dangling pointer.
  \<^item> \<open>Strsplit\<close>, \<open>Fgets\<close>: \<open>common/strsplit.c\<close> and \<open>common/audit-fgets.c\<close>. Exactly the words, exactly the
    lines, however reads are cut.
  \<^item> \<open>Linked_List\<close>, \<open>Hit_Lists\<close>, \<open>Event_List\<close>: the lists of \<open>src/ausearch-string.c\<close>, \<open>src/ausearch-int.c\<close>,
    \<open>src/ausearch-avc.c\<close> and \<open>src/ausearch-llist.c\<close>. The locale \<open>hit_list\<close> (interpretations \<open>sl\<close>, \<open>il\<close>) has
    the sorting by hits, which is the stable sort.
  \<^item> \<open>Event_Assembly\<close>: \<open>src/ausearch-lol.c\<close>. No record is lost or duplicated, events come out in the order
    of their time stamps, time stamps are read back as they were printed.
  \<^item> \<open>Audit_Rules\<close>: the functions of \<open>lib/libaudit.c\<close> that fill a rule. The rule stays well formed; its
    strings, masks and fields are those that were given.
  \<^item> \<open>Ev_Heap\<close>, \<open>Ev_Timers\<close>: the 4-heap, the timers and the pending queues of \<open>src/libev/ev.c\<close>. The
    conditions of the loop's own verifier are an invariant; expired timers are called back once, in
    order. Both loops are shown to end. Times are exact integers, and the growth of the arrays of
    pending events is left out.
  \<^item> \<open>Escaping\<close>: the encoding of untrusted strings in \<open>lib/audit_logging.c\<close> and \<open>auparse/ellist.c\<close>, and the
    decoding and escaping of \<open>auparse/interpret.c\<close>. Decoding inverts encoding; escaped output fits its
    buffer, whose size is computed modulo \<open>2 ^ 32\<close>, and has no control characters but the separators of
    keys.
  \<^item> \<open>Audit_Logging\<close>: the other functions of \<open>lib/audit_logging.c\<close>, and \<open>lib/deprecated.c\<close>. What a program
    logs is what a reader gets back as long as it fits the message; where the buffers are too small.
  \<^item> \<open>Ellist\<close>: \<open>auparse/ellist.c\<close>, the records of an event in the parsing library. A record of plain fields
    is cut into exactly these; encoded keys are taken apart; the unlabelled values of access control
    records get their names, and one that is not understood gets none, which a later search trips over.

  This theory has the properties that span the parser and the evaluator of expressions.

  Not modelled, and why.

  \<^item> Input and output with nothing to compute: \<open>lib/netlink.c\<close>, the sending functions of
    \<open>lib/libaudit.c\<close>, the daemon (\<open>src/auditd*.c\<close>: log files, network, configuration, signals), the
    dispatcher's and the plugins' main loops and configuration (\<open>audisp/audispd*.c\<close>, \<open>audisp/plugins\<close>), reading
    \<open>/proc\<close>.
  \<^item> The layers above the modelled parts: \<open>auparse/auparse.c\<close>, which feeds the parser and walks over its
    events, \<open>auparse/normalize.c\<close>, and \<open>src/ausearch-parse.c\<close>, one scanner for each type of record.
  \<^item> Command line options and printing: the rest of \<open>src/ausearch*.c\<close>, \<open>src/aureport*.c\<close>, \<open>src/auditctl*.c\<close>,
    \<open>src/autrace.c\<close>, \<open>src/delete_all.c\<close> and \<open>tools/\<close>.
  \<^item> The other watchers and the back ends of \<open>src/libev\<close> (\<open>ev_epoll.c\<close>, \<open>ev_poll.c\<close>, ...), which wrap
    system calls, and the rounding of \<open>double\<close> time stamps.
  \<^item> Tables and code produced from them at build time (\<open>lib/gen_tables.c\<close> and the \<open>*tab.h\<close> files), and the
    interpretations of \<open>auparse/interpret.c\<close> that only look numbers up in them.
  \<^item> Bindings (\<open>bindings/\<close>), \<open>contrib/\<close>, tests, documentation, and the exercise directories beside the library.
\<close>

section \<open>Searching\<close>

text \<open>C11: Searching is safe and means what it says from the text to the result: for every text, every
  behaviour of the allocator and every record whose fields have names, parsing ends, without reading
  behind the end of the text or writing outside a buffer, and reports an error or returns an
  expression. When every extended time stamp of the expression has its serial number, evaluating it
  ends without undefined behaviour, decides exactly whether the record satisfies it and leaves the
  record as it was.\<close>

theorem search_text_to_result:
  assumes "named (view eenv r)"
  shows "case expr_parse env allocs s of
     None \<Rightarrow> False
   | Some (Inl err) \<Rightarrow> err \<noteq> Undefined_behaviour \<and> err \<noteq> Abort
   | Some (Inr e) \<Rightarrow> complete e \<longrightarrow>
       (\<exists>r'. expr_eval eenv ev r e = Some (satisfies (env_regexec eenv) ev (view eenv r) e, r') \<and> view eenv r' = view eenv r)"
  using expr_parse_cases [of env allocs s] expr_eval_spec [OF _ _ assms]
  by (auto split: option.splits sum.splits)

theorem search_text_to_result_witness:
  "\<forall>ev. case expr_parse sample_env [] (print_string sample_expr) of
     Some (Inr e) \<Rightarrow> complete e \<and>
       (\<exists>r'. expr_eval plain_env ev demo_record e = Some (satisfies (env_regexec plain_env) ev (view plain_env demo_record) e, r')
          \<and> view plain_env r' = view plain_env demo_record)
   | _ \<Rightarrow> False"
proof -
  have "named (view plain_env demo_record)"
    by (simp add: named_nodes demo_record_def demo_nvlist_def)
  moreover have "expr_parse sample_env [] (print_string sample_expr) = Some (Inr sample_expr)"
    by (rule parse_print_string [OF sample_expr_printable sample_expr_wf])
  moreover have "complete sample_expr" by (simp add: sample_expr_def)
  ultimately show ?thesis
    using search_text_to_result [where eenv = plain_env and r = demo_record and env = sample_env and allocs = "[]"
        and s = "print_string sample_expr"] by simp
qed

text \<open>C30: An extended time stamp written without a serial number is accepted, and comparing it with an
  event of the same second and millisecond reads the serial number that was never written.\<close>

theorem timestamp_ex_without_serial:
  assumes "0 \<le> sec" "sec < 2 ^ 63" "milli < 2 ^ 32" "is_value_op (T_EO op1)"
  shows "\<exists>e. expr_parse env [] (print_string e) = Some (Inr e)
    \<and> e = Expr_compare op1 True (Field_id EF_TIMESTAMP_EX) (Value_timestamp sec milli None)
    \<and> expr_eval eenv \<lparr>e_sec = sec, e_milli = milli, e_serial = n, e_host = h\<rparr> r e = None"
proof -
  let ?e = "Expr_compare op1 True (Field_id EF_TIMESTAMP_EX) (Value_timestamp sec milli None)"
  have "expr_parse env [] (print_string ?e) = Some (Inr ?e)"
    using assms by (intro parse_print_string) simp_all
  moreover have "expr_eval eenv \<lparr>e_sec = sec, e_milli = milli, e_serial = n, e_host = h\<rparr> r ?e = None"
    using assms(4) by (simp add: eval_compare_value_op eval_value_op_def compare_values_def)
  ultimately show ?thesis by blast
qed

theorem timestamp_ex_without_serial_witness:
  "expr_parse sample_env [] (print_string (Expr_compare EO_VALUE_GE True (Field_id EF_TIMESTAMP_EX) (Value_timestamp 10 5 None)))
     = Some (Inr (Expr_compare EO_VALUE_GE True (Field_id EF_TIMESTAMP_EX) (Value_timestamp 10 5 None)))
   \<and> expr_eval plain_env \<lparr>e_sec = 10, e_milli = 5, e_serial = 7, e_host = None\<rparr> demo_record
       (Expr_compare EO_VALUE_GE True (Field_id EF_TIMESTAMP_EX) (Value_timestamp 10 5 None)) = None"
  using timestamp_ex_without_serial [where sec = 10 and milli = 5 and ?op1.0 = EO_VALUE_GE and env = sample_env
      and eenv = plain_env and n = 7 and h = None and r = demo_record]
  by (simp add: is_value_op_def)

end
